(* ===== verification/Prelude.thy ===== *)
theory Prelude
  imports Main "HOL-Library.Word" "HOL-Library.Sublist" "HOL-Library.Multiset"
begin

text \<open>
  The vocabulary every component shares.

  \<^item> A Go call either returns or panics: \<open>'a go\<close>, with \<open>go_bind\<close> for sequencing, \<open>go_fold\<close> for
    a \<^verbatim>\<open>for range\<close> loop over a slice whose body may panic, and \<open>go_index\<close> for \<^verbatim>\<open>xs[i]\<close>.
    An unrecovered panic ends the process (\<^verbatim>\<open>runtime.HandleCrash\<close> re-panics), so no state is
    carried by \<open>Panic\<close>.
  \<^item> An \<^verbatim>\<open>error\<close> result is a value of \<open>go_error option\<close>; \<open>None\<close> is \<^verbatim>\<open>nil\<close>.
  \<^item> The fixed-width integers are words: \<open>int32\<close> is read with \<open>sint\<close>, \<open>uint32\<close> with \<open>unat\<close>.
  \<^item> \<open>go_simps\<close> collects the equations of the sequencing constants, \<open>cache_simps\<close> the laws of
    the caches, \<open>string_simps\<close> the laws of the string functions.
\<close>

named_theorems go_simps "equations of the sequencing constants"
named_theorems cache_simps "laws of the object caches"
named_theorems string_simps "laws of the string functions"

type_synonym int32 = "32 word"
type_synonym uint32 = "32 word"
type_synonym int64 = "64 word"

section \<open>Panics and sequencing\<close>

datatype go_panic =
    IndexOutOfRange
  | TypeAssertionFailed
  | NilDereference
  | CloseOfClosedChannel
  | LogPanic string
  | FlagRedefined string

datatype 'a go = Ok 'a | Panic go_panic

primrec go_bind :: "'a go \<Rightarrow> ('a \<Rightarrow> 'b go) \<Rightarrow> 'b go" where
  "go_bind (Ok x) f = f x"
| "go_bind (Panic p) f = Panic p"

primrec go_fold :: "('a \<Rightarrow> 's \<Rightarrow> 's go) \<Rightarrow> 'a list \<Rightarrow> 's \<Rightarrow> 's go" where
  "go_fold f [] s = Ok s"
| "go_fold f (x # xs) s = go_bind (f x s) (go_fold f xs)"

primrec go_map :: "('a \<Rightarrow> 'b go) \<Rightarrow> 'a list \<Rightarrow> 'b list go" where
  "go_map f [] = Ok []"
| "go_map f (x # xs) = go_bind (f x) (\<lambda>y. go_bind (go_map f xs) (\<lambda>ys. Ok (y # ys)))"

definition go_index :: "'a list \<Rightarrow> nat \<Rightarrow> 'a go" where
  "go_index xs i = (if i < length xs then Ok (xs ! i) else Panic IndexOutOfRange)"

declare go_bind.simps [go_simps] go_fold.simps [go_simps] go_map.simps [go_simps]

lemma go_bind_eq_Ok [simp]:
  "go_bind m f = Ok y \<longleftrightarrow> (\<exists>x. m = Ok x \<and> f x = Ok y)"
  by (cases m) auto

lemma go_bind_eq_Panic:
  "go_bind m f = Panic p \<longleftrightarrow> m = Panic p \<or> (\<exists>x. m = Ok x \<and> f x = Panic p)"
  by (cases m) auto

lemma go_bind_Ok_right [simp]: "go_bind m Ok = m"
  by (cases m) auto

lemma go_bind_assoc: "go_bind (go_bind m f) g = go_bind m (\<lambda>x. go_bind (f x) g)"
  by (cases m) auto

lemma go_bind_cong: "(\<And>x. f x = g x) \<Longrightarrow> go_bind m f = go_bind m g"
  by (cases m) simp_all

lemma go_index_Ok [go_simps]: "i < length xs \<Longrightarrow> go_index xs i = Ok (xs ! i)"
  by (simp add: go_index_def)

lemma go_index_eq_Ok: "go_index xs i = Ok x \<longleftrightarrow> i < length xs \<and> x = xs ! i"
  by (auto simp: go_index_def)

lemma go_index_Panic [go_simps]: "length xs \<le> i \<Longrightarrow> go_index xs i = Panic IndexOutOfRange"
  by (simp add: go_index_def)

text \<open>The Hoare rule of a \<^verbatim>\<open>for range\<close> loop: what the body keeps, the loop keeps.\<close>

lemma go_fold_inv:
  assumes "go_fold f xs s = Ok s'" and "I s"
    and "\<And>x s s'. x \<in> set xs \<Longrightarrow> I s \<Longrightarrow> f x s = Ok s' \<Longrightarrow> I s'"
  shows "I s'"
  using assms
proof (induction xs arbitrary: s)
  case Nil
  then show ?case by simp
next
  case (Cons x xs)
  from Cons.prems(1) obtain t where t: "f x s = Ok t" "go_fold f xs t = Ok s'"
    by auto
  with Cons.prems have "I t" by (meson list.set_intros(1))
  with t(2) show ?case
    by (rule Cons.IH) (use Cons.prems(3) in auto)
qed

text \<open>A loop whose body cannot panic does not panic.\<close>

lemma go_fold_total:
  assumes "I s"
    and "\<And>x s. x \<in> set xs \<Longrightarrow> I s \<Longrightarrow> \<exists>s'. f x s = Ok s' \<and> I s'"
  shows "\<exists>s'. go_fold f xs s = Ok s' \<and> I s'"
  using assms
proof (induction xs arbitrary: s)
  case Nil
  then show ?case by simp
next
  case (Cons x xs)
  from Cons.prems obtain t where t: "f x s = Ok t" "I t" by auto
  have "\<exists>s'. go_fold f xs t = Ok s' \<and> I s'"
    by (rule Cons.IH) (use Cons.prems t in auto)
  with t show ?case by auto
qed

lemma go_fold_append [go_simps]:
  "go_fold f (xs @ ys) s = go_bind (go_fold f xs s) (go_fold f ys)"
proof (induction xs arbitrary: s)
  case (Cons x xs)
  then have "go_fold f (xs @ ys) = (\<lambda>t. go_bind (go_fold f xs t) (go_fold f ys))"
    by (simp add: fun_eq_iff)
  then show ?case by (simp add: go_bind_assoc)
qed simp

lemma go_fold_pure: "go_fold (\<lambda>x s. Ok (f x s)) xs s = Ok (fold f xs s)"
  by (induction xs arbitrary: s) auto

lemma go_map_length: "go_map f xs = Ok ys \<Longrightarrow> length ys = length xs"
  by (induction xs arbitrary: ys) auto

lemma go_map_set: "go_map f xs = Ok ys \<Longrightarrow> y \<in> set ys \<Longrightarrow> \<exists>x \<in> set xs. f x = Ok y"
  by (induction xs arbitrary: ys) auto

lemma go_map_map: "go_map f (map g xs) = go_map (\<lambda>x. f (g x)) xs"
  by (induction xs) auto

lemma go_map_all_Ok: "(\<And>x. x \<in> set xs \<Longrightarrow> f x = Ok (g x)) \<Longrightarrow> go_map f xs = Ok (map g xs)"
  by (induction xs) auto

section \<open>Errors\<close>

text \<open>
  The error values the code tells apart: \<^verbatim>\<open>*utils.SkipSyncError\<close> (tested by a type
  assertion), the API machinery's \<^verbatim>\<open>NotFound\<close> (tested by \<^verbatim>\<open>IsNotFound\<close>), and every other error
  by its message.
\<close>

datatype go_error =
    ErrorString string
  | SkipSyncError string
  | StatusNotFound string

section \<open>Iteration order\<close>

text \<open>
  \<^verbatim>\<open>range\<close> over a Go map visits every entry once in an order the language leaves open. A model
  of such a loop takes the order as an argument, a function from the entries in insertion
  order to the entries as visited; \<open>reordering\<close> is what the language guarantees of it.
\<close>

definition reordering :: "('a list \<Rightarrow> 'a list) \<Rightarrow> bool" where
  "reordering ord \<longleftrightarrow> (\<forall>xs. mset (ord xs) = mset xs)"

lemma reordering_id [simp]: "reordering (\<lambda>xs. xs)"
  by (simp add: reordering_def)

lemma reordering_rev [simp]: "reordering rev"
  by (simp add: reordering_def)

lemma reordering_mset: "reordering ord \<Longrightarrow> mset (ord xs) = mset xs"
  by (simp add: reordering_def)

lemma reordering_set: "reordering ord \<Longrightarrow> set (ord xs) = set xs"
  by (metis reordering_mset set_mset_mset)

lemma reordering_length: "reordering ord \<Longrightarrow> length (ord xs) = length xs"
  by (metis reordering_mset size_mset)

lemma reordering_distinct: "reordering ord \<Longrightarrow> distinct (ord xs) = distinct xs"
  by (metis reordering_mset mset_eq_imp_distinct_iff)

lemma reordering_Nil [simp]: "reordering ord \<Longrightarrow> ord [] = []"
  using reordering_length [of ord "[]"] by simp

lemma reordering_single [simp]: "reordering ord \<Longrightarrow> ord [x] = [x]"
  using reordering_mset [of ord "[x]"] by simp

lemmas reordering_simps =
  reordering_mset reordering_set reordering_length reordering_distinct

section \<open>Invariants of step relations\<close>

text \<open>
  What a step relation keeps from a set of initial states on holds in every state it reaches.
\<close>

locale invariant_system =
  fixes initial :: "'s \<Rightarrow> bool"
    and step :: "'s \<Rightarrow> 's \<Rightarrow> bool"
    and inv :: "'s \<Rightarrow> bool"
  assumes inv_initial: "initial s \<Longrightarrow> inv s"
    and inv_step: "inv s \<Longrightarrow> step s s' \<Longrightarrow> inv s'"
begin

lemma inv_steps: "step\<^sup>*\<^sup>* s s' \<Longrightarrow> inv s \<Longrightarrow> inv s'"
  by (induction rule: rtranclp_induct) (auto intro: inv_step)

lemma inv_reachable: "initial s \<Longrightarrow> step\<^sup>*\<^sup>* s s' \<Longrightarrow> inv s'"
  by (rule inv_steps) (auto intro: inv_initial)

end

section \<open>Measures that stop falling\<close>

lemma wf_stable:
  assumes "wf r" "\<And>k. m (Suc k) = m k \<or> (m (Suc k), m k) \<in> r"
  shows "\<exists>N. \<forall>k \<ge> N. m k = m N"
proof -
  obtain N where N: "\<And>y. (y, m N) \<in> r \<Longrightarrow> y \<notin> range m"
    using wfE_min [OF assms(1), of "m 0" "range m"] by blast
  have "m k = m N" if "N \<le> k" for k
    using that
  proof (induction k rule: dec_induct)
    case (step k)
    with assms(2) [of k] N [of "m (Suc k)"] show ?case by auto
  qed simp
  then show ?thesis by blast
qed

end
