(* ===== verification/Go_Strings.thy ===== *)
theory Go_Strings
  imports Prelude
begin

text \<open>
  The parts of Go's \<^verbatim>\<open>strings\<close>, \<^verbatim>\<open>strconv\<close>, \<^verbatim>\<open>fmt\<close> and \<^verbatim>\<open>hash/fnv\<close> packages the sources call.
  A Go string is a byte sequence, here a \<open>string\<close> (a list of 8-bit \<open>char\<close>s). \<open>ToLower\<close> is
  modelled on ASCII letters; the only strings it is applied to are the protocol names of
  Kubernetes ports, which the API restricts to ASCII.
\<close>

section \<open>strings.Split, strings.SplitN, strings.HasPrefix, strings.ToLower\<close>

fun cons_head :: "char \<Rightarrow> string list \<Rightarrow> string list" where
  "cons_head c [] = [[c]]"
| "cons_head c (p # ps) = (c # p) # ps"

text \<open>Separators are non-empty in every call, which the guard \<open>sep \<noteq> []\<close> records.\<close>

function Split :: "string \<Rightarrow> string \<Rightarrow> string list" where
  "Split sep s =
     (if sep \<noteq> [] \<and> prefix sep s then [] # Split sep (drop (length sep) s)
      else case s of [] \<Rightarrow> [[]] | c # cs \<Rightarrow> cons_head c (Split sep cs))"
  by pat_completeness auto
termination
  by (relation "measure (\<lambda>(sep, s). length s)") (auto simp: prefix_def)

function SplitN :: "nat \<Rightarrow> string \<Rightarrow> string \<Rightarrow> string list" where
  "SplitN n sep s =
     (if n = 0 then []
      else if n = 1 then [s]
      else if sep \<noteq> [] \<and> prefix sep s then [] # SplitN (n - 1) sep (drop (length sep) s)
      else case s of [] \<Rightarrow> [[]] | c # cs \<Rightarrow> cons_head c (SplitN n sep cs))"
  by pat_completeness auto
termination
  by (relation "measure (\<lambda>(n, sep, s). length s)") (auto simp: prefix_def)

declare Split.simps [simp del] SplitN.simps [simp del]

definition HasPrefix :: "string \<Rightarrow> string \<Rightarrow> bool" where
  "HasPrefix s p \<longleftrightarrow> prefix p s"

definition lower_char :: "char \<Rightarrow> char" where
  "lower_char c =
     (case map_of (zip ''ABCDEFGHIJKLMNOPQRSTUVWXYZ'' ''abcdefghijklmnopqrstuvwxyz'') c of
        None \<Rightarrow> c | Some d \<Rightarrow> d)"

definition ToLower :: "string \<Rightarrow> string" where
  "ToLower s = map lower_char s"

lemma cons_head_ne [simp]: "cons_head c ps \<noteq> []"
  by (cases ps) auto

lemma Split_ne [simp]: "Split sep s \<noteq> []"
  by (subst Split.simps) (auto split: list.splits)

lemma Split_Nil [string_simps]: "Split sep [] = [[]]"
  by (subst Split.simps) auto

lemma Split_hit: "sep \<noteq> [] \<Longrightarrow> Split sep (sep @ s) = [] # Split sep s"
  by (subst Split.simps) simp

lemma Split_miss [string_simps]:
  "\<not> prefix sep (c # cs) \<Longrightarrow> Split sep (c # cs) = cons_head c (Split sep cs)"
  by (subst Split.simps) simp

lemma SplitN_one [string_simps]: "SplitN (Suc 0) sep s = [s]"
  by (subst SplitN.simps) simp

lemma SplitN_hit: "sep \<noteq> [] \<Longrightarrow> SplitN (Suc (Suc n)) sep (sep @ s) = [] # SplitN (Suc n) sep s"
  by (subst SplitN.simps) simp

lemma SplitN_miss:
  "\<not> prefix sep (c # cs) \<Longrightarrow>
   SplitN (Suc (Suc n)) sep (c # cs) = cons_head c (SplitN (Suc (Suc n)) sep cs)"
  by (subst SplitN.simps) simp

text \<open>
  \<open>clear_of sep p r\<close>: no occurrence of the separator starts inside \<open>p\<close> when \<open>p\<close> is followed
  by \<open>r\<close>; the first piece of the split is then \<open>p\<close> itself.
\<close>

fun clear_of :: "string \<Rightarrow> string \<Rightarrow> string \<Rightarrow> bool" where
  "clear_of sep [] r = True"
| "clear_of sep (c # p) r = (\<not> prefix sep (c # p @ r) \<and> clear_of sep p r)"

lemma Split_clear:
  "sep \<noteq> [] \<Longrightarrow> clear_of sep p (sep @ r) \<Longrightarrow> Split sep (p @ sep @ r) = p # Split sep r"
  by (induction p) (auto simp: Split_hit Split_miss)

lemma SplitN_clear:
  "sep \<noteq> [] \<Longrightarrow> clear_of sep p (sep @ r) \<Longrightarrow>
   SplitN (Suc (Suc n)) sep (p @ sep @ r) = p # SplitN (Suc n) sep r"
  by (induction p) (auto simp: SplitN_hit SplitN_miss)

lemma Split_clear_end: "sep \<noteq> [] \<Longrightarrow> clear_of sep p [] \<Longrightarrow> Split sep p = [p]"
  by (induction p) (auto simp: Split_Nil Split_miss)

lemma clear_of_char: "c \<notin> set p \<Longrightarrow> clear_of (c # sep) p r"
  by (induction p) auto

lemma Split_char [string_simps]:
  "c \<notin> set p \<Longrightarrow> Split [c] (p @ c # r) = p # Split [c] r"
  using Split_clear [of "[c]" p r] by (simp add: clear_of_char)

lemma Split_char_end [string_simps]: "c \<notin> set p \<Longrightarrow> Split [c] p = [p]"
  by (simp add: Split_clear_end clear_of_char)

lemma SplitN_char:
  "c \<notin> set p \<Longrightarrow> SplitN (Suc (Suc n)) [c] (p @ c # r) = p # SplitN (Suc n) [c] r"
  using SplitN_clear [of "[c]" p r n] by (simp add: clear_of_char)

text \<open>Joining the pieces of a split with the separator restores the string.\<close>

primrec join :: "string \<Rightarrow> string list \<Rightarrow> string" where
  "join sep [] = []"
| "join sep (p # ps) = (if ps = [] then p else p @ sep @ join sep ps)"

lemma join_cons_head: "ps \<noteq> [] \<Longrightarrow> join sep (cons_head c ps) = c # join sep ps"
  by (cases ps) auto

lemma join_Split: "join sep (Split sep s) = s"
proof (induction sep s rule: Split.induct)
  case (1 sep s)
  show ?case
  proof (cases "sep \<noteq> [] \<and> prefix sep s")
    case True
    then obtain r where "s = sep @ r" by (auto simp: prefix_def)
    with True 1(1) show ?thesis by (simp add: Split_hit)
  next
    case False
    show ?thesis
    proof (cases s)
      case (Cons c cs)
      with False have "Split sep s = cons_head c (Split sep cs)"
        by (subst Split.simps) auto
      with 1(2) [OF False Cons] Cons show ?thesis by (simp add: join_cons_head)
    qed (simp add: Split_Nil)
  qed
qed

lemma Split_length_char: "length (Split [c] s) = Suc (count_list s c)"
proof (induction s)
  case (Cons a s)
  show ?case
  proof (cases "a = c")
    case True
    with Cons Split_hit [of "[c]" s] show ?thesis by simp
  next
    case False
    with Cons show ?thesis
      by (cases "Split [c] s") (auto simp: Split_miss)
  qed
qed (simp add: Split_Nil)

section \<open>strconv.Itoa and strconv.Atoi\<close>

definition digit_char :: "nat \<Rightarrow> char" where
  "digit_char d = ''0123456789'' ! d"

definition digit_val :: "char \<Rightarrow> nat option" where
  "digit_val c = map_of (zip ''0123456789'' [0..<10]) c"

fun nat_to_string :: "nat \<Rightarrow> string" where
  "nat_to_string n =
     (if n < 10 then [digit_char n] else nat_to_string (n div 10) @ [digit_char (n mod 10)])"

declare nat_to_string.simps [simp del]

definition Itoa :: "int \<Rightarrow> string" where
  "Itoa i = (if i < 0 then CHR ''-'' # nat_to_string (nat (- i)) else nat_to_string (nat i))"

text \<open>
  \<^verbatim>\<open>strconv.ParseUint(s, 10, 64)\<close> reads digit after digit and stops at the first character that
  is no digit (a syntax error) or at the first digit that takes the value past 64 bits (a
  range error).
\<close>

datatype uint_result = UintSyntax | UintRange | UintOk nat

fun parse_uint :: "nat \<Rightarrow> string \<Rightarrow> uint_result" where
  "parse_uint acc [] = UintOk acc"
| "parse_uint acc (c # cs) =
     (case digit_val c of
        None \<Rightarrow> UintSyntax
      | Some d \<Rightarrow> if acc * 10 + d < 2 ^ 64 then parse_uint (acc * 10 + d) cs else UintRange)"

text \<open>
  The value \<^verbatim>\<open>strconv.Atoi\<close> returns (its error is discarded by the callers): 0 on a syntax
  error, the nearest \<^verbatim>\<open>int64\<close> on a range error.
\<close>

definition strip_sign :: "string \<Rightarrow> bool \<times> string" where
  "strip_sign s =
     (case s of
        [] \<Rightarrow> (False, [])
      | c # cs \<Rightarrow> if c = CHR ''-'' then (True, cs) else if c = CHR ''+'' then (False, cs)
                 else (False, s))"

definition Atoi :: "string \<Rightarrow> int" where
  "Atoi s =
     (case strip_sign s of (neg, ds) \<Rightarrow>
        (if ds = [] then 0
         else case parse_uint 0 ds of
           UintSyntax \<Rightarrow> 0
         | UintRange \<Rightarrow> (if neg then - (2 ^ 63) else 2 ^ 63 - 1)
         | UintOk n \<Rightarrow>
             (if neg then (if n \<le> 2 ^ 63 then - int n else - (2 ^ 63))
              else if n < 2 ^ 63 then int n else 2 ^ 63 - 1)))"

definition int32_of_int :: "int \<Rightarrow> int32" where
  "int32_of_int i = word_of_int i"

lemma digit_val_digit_char [simp]: "d < 10 \<Longrightarrow> digit_val (digit_char d) = Some d"
  unfolding digit_val_def digit_char_def
  by (simp add: upt_rec less_Suc_eq numeral_eq_Suc) (elim disjE; simp)

lemma nat_to_string_ne [simp]: "nat_to_string n \<noteq> []"
  by (subst nat_to_string.simps) simp

lemma digit_char_digits: "d < 10 \<Longrightarrow> digit_char d \<in> set ''0123456789''"
  unfolding digit_char_def by (rule nth_mem) simp

lemma nat_to_string_digits: "set (nat_to_string n) \<subseteq> set ''0123456789''"
proof (induction n rule: nat_to_string.induct)
  case (1 n)
  show ?case
  proof (cases "n < 10")
    case True
    then show ?thesis
      using digit_char_digits [of n] by (subst nat_to_string.simps) auto
  next
    case False
    with 1 digit_char_digits [of "n mod 10"] show ?thesis
      by (subst nat_to_string.simps) auto
  qed
qed

lemma parse_uint_snoc:
  "parse_uint acc s = UintOk m \<Longrightarrow> digit_val c = Some d \<Longrightarrow> m * 10 + d < 2 ^ 64 \<Longrightarrow>
   parse_uint acc (s @ [c]) = UintOk (m * 10 + d)"
  by (induction acc s rule: parse_uint.induct) (auto split: option.splits if_splits)

lemma parse_uint_nat_to_string:
  "n < 2 ^ 64 \<Longrightarrow> parse_uint 0 (nat_to_string n) = UintOk n"
proof (induction n rule: nat_to_string.induct)
  case (1 n)
  show ?case
  proof (cases "n < 10")
    case True
    then show ?thesis by (subst nat_to_string.simps) simp
  next
    case False
    with 1 have "parse_uint 0 (nat_to_string (n div 10)) = UintOk (n div 10)" by simp
    then have "parse_uint 0 (nat_to_string (n div 10) @ [digit_char (n mod 10)])
        = UintOk (n div 10 * 10 + n mod 10)"
      by (rule parse_uint_snoc) (use "1.prems" in simp_all)
    with False show ?thesis by (subst nat_to_string.simps) simp
  qed
qed

lemma nat_to_string_no_sign:
  "nat_to_string n = c # cs \<Longrightarrow> c \<noteq> CHR ''-'' \<and> c \<noteq> CHR ''+''"
  using nat_to_string_digits [of n] by auto

lemma Atoi_Itoa: "- (2 ^ 63) \<le> i \<Longrightarrow> i < 2 ^ 63 \<Longrightarrow> Atoi (Itoa i) = i"
proof (cases "i < 0")
  case True
  assume "- (2 ^ 63) \<le> i"
  then have "nat (- i) \<le> 2 ^ 63" by simp
  with True show ?thesis
    by (simp add: Atoi_def Itoa_def strip_sign_def parse_uint_nat_to_string)
next
  case False
  assume "i < 2 ^ 63"
  with False have n: "nat i < 2 ^ 63" by simp
  obtain c cs where s: "nat_to_string (nat i) = c # cs" by (metis nat_to_string_ne neq_Nil_conv)
  with nat_to_string_no_sign have "strip_sign (nat_to_string (nat i)) = (False, nat_to_string (nat i))"
    by (auto simp: strip_sign_def)
  with False n show ?thesis
    by (simp add: Atoi_def Itoa_def parse_uint_nat_to_string)
qed

section \<open>hash/fnv: the 32-bit FNV-1a hash\<close>

unbundle bit_operations_syntax

definition fnv_byte :: "char \<Rightarrow> uint32 \<Rightarrow> uint32" where
  "fnv_byte c h = (h XOR of_char c) * 16777619"

definition fnv32a :: "string \<Rightarrow> uint32" where
  "fnv32a s = fold fnv_byte s 2166136261"

text \<open>
  The multiplier is odd, so the lowest bit of the hash is the parity of the lowest bits of
  the bytes.
\<close>

definition low_odd :: "char \<Rightarrow> bool" where
  "low_odd c \<longleftrightarrow> odd (of_char c :: nat)"

definition parity :: "string \<Rightarrow> bool" where
  "parity s \<longleftrightarrow> odd (length (filter low_odd s))"

lemma parity_Nil [simp]: "\<not> parity []"
  by (simp add: parity_def)

lemma parity_Cons [simp]: "parity (c # s) \<longleftrightarrow> low_odd c \<noteq> parity s"
  by (simp add: parity_def)

lemma parity_append [simp]: "parity (s @ t) \<longleftrightarrow> parity s \<noteq> parity t"
  by (induction s) auto

lemma odd_fnv_byte: "odd (fnv_byte c h) \<longleftrightarrow> odd h \<noteq> low_odd c"
proof -
  have "odd (of_char c :: uint32) \<longleftrightarrow> low_odd c"
    by (cases c) (simp add: low_odd_def)
  then show ?thesis by (simp add: fnv_byte_def even_xor_iff)
qed

lemma odd_fnv_fold: "odd (fold fnv_byte s h) \<longleftrightarrow> odd h \<noteq> parity s"
proof (induction s arbitrary: h)
  case (Cons c s)
  have "odd (fold fnv_byte (c # s) h) \<longleftrightarrow> odd (fnv_byte c h) \<noteq> parity s"
    using Cons.IH by simp
  then show ?case unfolding odd_fnv_byte parity_Cons by blast
qed simp

lemma odd_fnv32a: "odd (fnv32a s) \<longleftrightarrow> \<not> parity s"
  by (simp add: fnv32a_def odd_fnv_fold)

lemma fnv32a_append: "fnv32a (s @ t) = fold fnv_byte t (fnv32a s)"
  by (simp add: fnv32a_def)

end
