(* ===== verification/Go_Json.thy ===== *)
theory Go_Json
  imports Go_Strings
begin

text \<open>
  The parts of Go's \<^verbatim>\<open>encoding/json\<close> the sources call: \<^verbatim>\<open>json.Marshal\<close> of the service metadata
  struct and \<^verbatim>\<open>json.Unmarshal\<close> into an \<^verbatim>\<open>interface{}\<close>. A decoded value is a \<open>jval\<close>: \<^verbatim>\<open>nil\<close>,
  \<^verbatim>\<open>bool\<close>, \<^verbatim>\<open>float64\<close> (kept as its literal, since no code reads it), \<^verbatim>\<open>string\<close>,
  \<^verbatim>\<open>[]interface{}\<close> or \<^verbatim>\<open>map[string]interface{}\<close> (an association list without repeated keys, a
  later member of the text replacing an earlier one).

  The decoder recurses with fuel; \<open>parse_value_fuel\<close> shows that fuel above the length of
  the input never changes the result, so the fuel \<open>Unmarshal\<close> passes is enough.
\<close>

datatype jval =
    JNull
  | JBool bool
  | JNum string
  | JStr string
  | JArr "jval list"
  | JObj "(string \<times> jval) list"

definition jput :: "string \<Rightarrow> jval \<Rightarrow> (string \<times> jval) list \<Rightarrow> (string \<times> jval) list" where
  "jput k v m = (if k \<in> fst ` set m then map (\<lambda>(k', v'). if k' = k then (k, v) else (k', v')) m
                 else m @ [(k, v)])"

section \<open>UTF-8\<close>

definition byte :: "char \<Rightarrow> nat" where
  "byte c = of_char c"

definition is_cont :: "nat \<Rightarrow> nat \<Rightarrow> char \<Rightarrow> bool" where
  "is_cont lo hi c \<longleftrightarrow> lo \<le> byte c \<and> byte c \<le> hi"

text \<open>The accepted range of the second byte, by the first (\<^verbatim>\<open>utf8.DecodeRune\<close>).\<close>

definition second_range :: "nat \<Rightarrow> nat \<times> nat" where
  "second_range b =
     (if b = 224 then (160, 191) else if b = 237 then (128, 159)
      else if b = 240 then (144, 191) else if b = 244 then (128, 143) else (128, 191))"

text \<open>\<open>decode_rune\<close> returns the code point and its size; \<open>(65533, 1)\<close> on invalid input.\<close>

fun decode_rune :: "string \<Rightarrow> nat \<times> nat" where
  "decode_rune [] = (65533, 0)"
| "decode_rune (c0 # s) =
     (let b0 = byte c0; (lo, hi) = second_range b0 in
      if b0 < 128 then (b0, 1)
      else if 194 \<le> b0 \<and> b0 \<le> 223 then
        (case s of
           c1 # _ \<Rightarrow> if is_cont lo hi c1 then ((b0 mod 32) * 64 + byte c1 mod 64, 2) else (65533, 1)
         | _ \<Rightarrow> (65533, 1))
      else if 224 \<le> b0 \<and> b0 \<le> 239 then
        (case s of
           c1 # c2 # _ \<Rightarrow>
             if is_cont lo hi c1 \<and> is_cont 128 191 c2
             then ((b0 mod 16) * 4096 + (byte c1 mod 64) * 64 + byte c2 mod 64, 3) else (65533, 1)
         | _ \<Rightarrow> (65533, 1))
      else if 240 \<le> b0 \<and> b0 \<le> 244 then
        (case s of
           c1 # c2 # c3 # _ \<Rightarrow>
             if is_cont lo hi c1 \<and> is_cont 128 191 c2 \<and> is_cont 128 191 c3
             then ((b0 mod 8) * 262144 + (byte c1 mod 64) * 4096 + (byte c2 mod 64) * 64
                    + byte c3 mod 64, 4)
             else (65533, 1)
         | _ \<Rightarrow> (65533, 1))
      else (65533, 1))"

definition encode_rune :: "nat \<Rightarrow> string" where
  "encode_rune r =
     (let r = (if r > 1114111 \<or> 55296 \<le> r \<and> r \<le> 57343 then 65533 else r) in
      if r < 128 then [char_of r]
      else if r < 2048 then [char_of (192 + r div 64), char_of (128 + r mod 64)]
      else if r < 65536 then
        [char_of (224 + r div 4096), char_of (128 + r div 64 mod 64), char_of (128 + r mod 64)]
      else [char_of (240 + r div 262144), char_of (128 + r div 4096 mod 64),
            char_of (128 + r div 64 mod 64), char_of (128 + r mod 64)])"

section \<open>json.Marshal of the service metadata\<close>

definition hex_digit :: "nat \<Rightarrow> char" where
  "hex_digit d = ''0123456789abcdef'' ! d"

text \<open>\<^verbatim>\<open>encodeState.string\<close> with HTML escaping, the default of \<^verbatim>\<open>json.Marshal\<close>.\<close>

definition html_safe :: "char \<Rightarrow> bool" where
  "html_safe c \<longleftrightarrow> 32 \<le> byte c \<and> byte c < 128 \<and> c \<notin> set [CHR 0x22, CHR 0x5C, CHR ''<'', CHR ''>'', CHR ''&'']"

definition encode_ascii :: "char \<Rightarrow> string" where
  "encode_ascii c =
     (if html_safe c then [c]
      else if c = CHR 0x5C \<or> c = CHR 0x22 then [CHR 0x5C, c]
      else if c = CHR 0x0A then [CHR 0x5C, CHR ''n'']
      else if c = CHR 0x0D then [CHR 0x5C, CHR ''r'']
      else if c = CHR 0x09 then [CHR 0x5C, CHR ''t'']
      else [CHR 0x5C, CHR ''u'', CHR ''0'', CHR ''0'', hex_digit (byte c div 16), hex_digit (byte c mod 16)])"

lemma decode_rune_size: "decode_rune (c # s) = (r, sz) \<Longrightarrow> 0 < sz"
  by (auto simp: Let_def split: if_splits list.splits prod.splits)

function encode_str :: "string \<Rightarrow> string" where
  "encode_str [] = []"
| "encode_str (c # s) =
     (if byte c < 128 then encode_ascii c @ encode_str s
      else (case decode_rune (c # s) of (r, sz) \<Rightarrow>
        if r = 65533 \<and> sz = 1 then CHR 0x5C # ''ufffd'' @ encode_str s
        else if r = 8232 \<or> r = 8233 then
          CHR 0x5C # ''u202'' @ [hex_digit (r mod 16)] @ encode_str (drop sz (c # s))
        else take sz (c # s) @ encode_str (drop sz (c # s))))"
  by pat_completeness auto

termination
  by (relation "measure length") (auto dest: decode_rune_size [OF sym] simp: Let_def split: if_splits list.splits prod.splits)

definition json_quote :: "string \<Rightarrow> string" where
  "json_quote s = CHR 0x22 # encode_str s @ [CHR 0x22]"

text \<open>\<^verbatim>\<open>json.Marshal\<close> of a struct with one string field tagged \<open>k\<close>.\<close>

definition json_member :: "string \<Rightarrow> string \<Rightarrow> string" where
  "json_member k v = CHR ''{'' # json_quote k @ CHR '':'' # json_quote v @ ''}''"

definition ascii :: "string \<Rightarrow> bool" where
  "ascii s \<longleftrightarrow> (\<forall>c \<in> set s. byte c < 128)"

section \<open>json.Unmarshal into an interface\<close>

definition is_ws :: "char \<Rightarrow> bool" where
  "is_ws c \<longleftrightarrow> c = CHR '' '' \<or> c = CHR 0x09 \<or> c = CHR 0x0A \<or> c = CHR 0x0D"

definition skip_ws :: "string \<Rightarrow> string" where
  "skip_ws s = dropWhile is_ws s"

definition hex_val :: "char \<Rightarrow> nat option" where
  "hex_val c = map_of (zip ''0123456789abcdefABCDEF'' ([0..<16] @ [10..<16])) c"

text \<open>The four hexadecimal digits of a Unicode escape and the rest.\<close>

fun u4 :: "string \<Rightarrow> (nat \<times> string) option" where
  "u4 (a # b # c # d # r) =
     (case (hex_val a, hex_val b, hex_val c, hex_val d) of
        (Some a', Some b', Some c', Some d') \<Rightarrow> Some (a' * 4096 + b' * 256 + c' * 16 + d', r)
      | _ \<Rightarrow> None)"
| "u4 _ = None"

definition is_surrogate :: "nat \<Rightarrow> bool" where
  "is_surrogate r \<longleftrightarrow> 55296 \<le> r \<and> r \<le> 57343"

text \<open>
  After a surrogate: the second half of a valid pair is consumed (\<^verbatim>\<open>utf16.DecodeRune\<close>), any other
  continuation leaves the replacement character and is read again.
\<close>

definition pair_rune :: "nat \<Rightarrow> string \<Rightarrow> nat \<times> string" where
  "pair_rune r s =
     (if prefix [CHR 0x5C, CHR ''u''] s then
        (case u4 (drop 2 s) of
           Some (r1, rest) \<Rightarrow>
             if 55296 \<le> r \<and> r \<le> 56319 \<and> 56320 \<le> r1 \<and> r1 \<le> 57343
             then ((r - 55296) * 1024 + (r1 - 56320) + 65536, rest) else (65533, s)
         | None \<Rightarrow> (65533, s))
      else (65533, s))"

definition simple_escape :: "char \<Rightarrow> char option" where
  "simple_escape c =
     map_of [(CHR ''b'', CHR 0x08), (CHR ''f'', CHR 0x0C), (CHR ''n'', CHR 0x0A),
             (CHR ''r'', CHR 0x0D), (CHR ''t'', CHR 0x09), (CHR 0x5C, CHR 0x5C),
             (CHR ''/'', CHR ''/''), (CHR 0x22, CHR 0x22)] c"

lemma u4_shorter: "u4 s = Some (r, rest) \<Longrightarrow> length rest < length s"
  by (induction s rule: u4.induct) (auto split: option.splits)

text \<open>\<open>parse_str\<close> reads a string literal after its opening quote: the decoded string and the rest.\<close>

function parse_str :: "string \<Rightarrow> (string \<times> string) option" where
  "parse_str [] = None"
| "parse_str (c # s) =
     (if c = CHR 0x22 then Some ([], s)
      else if c = CHR 0x5C then
        (case s of
           [] \<Rightarrow> None
         | e # s' \<Rightarrow>
             if e = CHR ''u'' then
               (case u4 s' of
                  None \<Rightarrow> None
                | Some (r, rest) \<Rightarrow>
                    (case (if is_surrogate r then pair_rune r rest else (r, rest)) of (r', rest') \<Rightarrow>
                      if length rest' \<le> length rest then
                        map_option (\<lambda>(t, u). (encode_rune r' @ t, u)) (parse_str rest') else None))
             else
               (case simple_escape e of
                  None \<Rightarrow> None
                | Some d \<Rightarrow> map_option (\<lambda>(t, u). (d # t, u)) (parse_str s')))
      else if byte c < 32 then None
      else if byte c < 128 then map_option (\<lambda>(t, u). (c # t, u)) (parse_str s)
      else (case decode_rune (c # s) of (r, sz) \<Rightarrow>
        map_option (\<lambda>(t, u). (encode_rune r @ t, u)) (parse_str (drop (sz - 1) s))))"
  by pat_completeness auto

termination
  by (relation "measure length") (auto dest: u4_shorter)

text \<open>The reread never grows the input, so the length test of \<open>parse_str\<close> always holds.\<close>

lemma pair_rune_shorter: "pair_rune r s = (r', rest) \<Longrightarrow> length rest \<le> length s"
  using u4_shorter [of "drop 2 s"]
  by (fastforce simp: pair_rune_def split: if_splits option.splits prod.splits)

definition span_digits :: "string \<Rightarrow> string \<times> string" where
  "span_digits s = (takeWhile (\<lambda>c. digit_val c \<noteq> None) s, dropWhile (\<lambda>c. digit_val c \<noteq> None) s)"

text \<open>
  A number literal and the rest. A literal beyond the range of \<^verbatim>\<open>float64\<close> is an error: it is
  one exactly when its magnitude reaches \<open>2^1024 - 2^970\<close>, the midpoint above the greatest
  finite value.
\<close>

definition digits_nat :: "string \<Rightarrow> nat" where
  "digits_nat ds = fold (\<lambda>c n. n * 10 + (case digit_val c of Some d \<Rightarrow> d | None \<Rightarrow> 0)) ds 0"

definition float_overflow :: "nat \<Rightarrow> int \<Rightarrow> bool" where
  "float_overflow m e \<longleftrightarrow>
     (if 0 \<le> e then (2::nat) ^ 1024 - 2 ^ 970 \<le> m * 10 ^ nat e
      else (2 ^ 1024 - 2 ^ 970) * 10 ^ nat (- e) \<le> m)"

definition num_frac :: "string \<Rightarrow> string \<times> string" where
  "num_frac s = (if prefix ''.'' s then span_digits (drop 1 s) else ([], s))"

definition num_exp :: "string \<Rightarrow> bool \<times> bool \<times> string \<times> string" where
  "num_exp s =
     (if s \<noteq> [] \<and> (hd s = CHR ''e'' \<or> hd s = CHR ''E'') then
        (let t = tl s; neg = prefix ''-'' t; t' = (if neg \<or> prefix ''+'' t then drop 1 t else t)
         in case span_digits t' of (ep, r) \<Rightarrow> (True, neg, ep, r))
      else (False, False, [], s))"

definition parse_num :: "string \<Rightarrow> (jval \<times> string) option" where
  "parse_num s =
     (case span_digits (if prefix ''-'' s then drop 1 s else s) of (ip, s2) \<Rightarrow>
      case num_frac s2 of (fp, s3) \<Rightarrow>
      case num_exp s3 of (has_exp, neg, ep, r) \<Rightarrow>
        (let e = (if neg then - int (digits_nat ep) else int (digits_nat ep))
         in if ip = [] \<or> (prefix ''0'' ip \<and> length ip > 1) \<or> (prefix ''.'' s2 \<and> fp = [])
               \<or> (has_exp \<and> ep = []) \<or> float_overflow (digits_nat (ip @ fp)) (e - int (length fp))
            then None
            else Some (JNum (take (length s - length r) s), r)))"

definition parse_literal :: "string \<Rightarrow> (jval \<times> string) option" where
  "parse_literal s =
     (if prefix ''true'' s then Some (JBool True, drop 4 s)
      else if prefix ''false'' s then Some (JBool False, drop 5 s)
      else if prefix ''null'' s then Some (JNull, drop 4 s)
      else parse_num s)"

fun parse_value :: "nat \<Rightarrow> string \<Rightarrow> (jval \<times> string) option"
  and parse_elems :: "nat \<Rightarrow> jval list \<Rightarrow> string \<Rightarrow> (jval \<times> string) option"
  and parse_members :: "nat \<Rightarrow> (string \<times> jval) list \<Rightarrow> string \<Rightarrow> (jval \<times> string) option" where
  "parse_value 0 s = None"
| "parse_value (Suc n) s =
     (case skip_ws s of
        [] \<Rightarrow> None
      | c # cs \<Rightarrow>
          if c = CHR 0x22 then map_option (\<lambda>(t, r). (JStr t, r)) (parse_str cs)
          else if c = CHR ''{'' then
            (case skip_ws cs of
               [] \<Rightarrow> None
             | d # ds \<Rightarrow> if d = CHR ''}'' then Some (JObj [], ds) else parse_members n [] (d # ds))
          else if c = CHR ''['' then
            (case skip_ws cs of
               [] \<Rightarrow> None
             | d # ds \<Rightarrow> if d = CHR '']'' then Some (JArr [], ds) else parse_elems n [] (d # ds))
          else parse_literal (c # cs))"
| "parse_elems 0 acc s = None"
| "parse_elems (Suc n) acc s =
     (case parse_value n s of
        None \<Rightarrow> None
      | Some (v, r) \<Rightarrow>
          (case skip_ws r of
             [] \<Rightarrow> None
           | c # cs \<Rightarrow>
               if c = CHR '','' then parse_elems n (acc @ [v]) cs
               else if c = CHR '']'' then Some (JArr (acc @ [v]), cs) else None))"
| "parse_members 0 acc s = None"
| "parse_members (Suc n) acc s =
     (case skip_ws s of
        [] \<Rightarrow> None
      | q # qs \<Rightarrow>
          if q \<noteq> CHR 0x22 then None
          else (case parse_str qs of
             None \<Rightarrow> None
           | Some (k, r) \<Rightarrow>
               (case skip_ws r of
                  [] \<Rightarrow> None
                | c # cs \<Rightarrow>
                    if c \<noteq> CHR '':'' then None
                    else (case parse_value n cs of
                       None \<Rightarrow> None
                     | Some (v, r') \<Rightarrow>
                         (case skip_ws r' of
                            [] \<Rightarrow> None
                          | d # ds \<Rightarrow>
                              if d = CHR '','' then parse_members n (jput k v acc) ds
                              else if d = CHR ''}'' then Some (JObj (jput k v acc), ds)
                              else None)))))"

definition json_Unmarshal :: "string \<Rightarrow> jval option" where
  "json_Unmarshal s =
     (case parse_value (2 * length s + 2) s of
        None \<Rightarrow> None
      | Some (v, r) \<Rightarrow> if skip_ws r = [] then Some v else None)"

section \<open>The decoder terminates with the fuel it is given\<close>

lemma skip_ws_length: "length (skip_ws s) \<le> length s"
  by (simp add: skip_ws_def length_dropWhile_le)

lemma skip_ws_Cons_length: "skip_ws s = c # cs \<Longrightarrow> length cs < length s"
  using skip_ws_length [of s] by simp

lemma parse_str_shorter: "parse_str s = Some (t, r) \<Longrightarrow> length r < length s"
proof (induction s arbitrary: t rule: length_induct)
  case (1 s)
  have IH: "length r < length s'" if "parse_str s' = Some (t', r)" "length s' < length s" for s' t'
    using 1(1) that by blast
  show ?case
  proof (cases s)
    case (Cons c s')
    with 1(2) show ?thesis
      by (auto split: if_splits option.splits list.splits prod.splits
          dest!: IH dest: u4_shorter)
  qed (use 1(2) in simp)
qed

lemma span_digits_length: "span_digits s = (a, b) \<Longrightarrow> length a + length b = length s"
  unfolding span_digits_def by (metis length_append prod.inject takeWhile_dropWhile_id)

lemma num_frac_length: "num_frac s = (a, b) \<Longrightarrow> length b \<le> length s"
  by (auto simp: num_frac_def dest!: span_digits_length split: if_splits)

lemma num_exp_length: "num_exp s = (h, n, a, b) \<Longrightarrow> length b \<le> length s"
  by (auto simp: num_exp_def Let_def dest!: span_digits_length split: if_splits prod.splits)

lemma parse_num_shorter:
  assumes "parse_num s = Some (v, r)"
  shows "length r < length s"
proof -
  obtain ip s2 fp s3 h neg ep r' where *:
    "span_digits (if prefix ''-'' s then drop 1 s else s) = (ip, s2)"
    "num_frac s2 = (fp, s3)" "num_exp s3 = (h, neg, ep, r')"
    by (metis surj_pair)
  with assms have "ip \<noteq> []" "r' = r"
    by (auto simp: parse_num_def Let_def split: if_splits)
  moreover have "length r' \<le> length s2"
    using num_frac_length [OF *(2)] num_exp_length [OF *(3)] by simp
  moreover have "length ip + length s2 \<le> length s"
    using span_digits_length [OF *(1)] by (auto split: if_splits)
  ultimately show ?thesis by (cases ip) auto
qed

lemma parse_literal_shorter: "parse_literal s = Some (v, r) \<Longrightarrow> length r < length s"
  unfolding parse_literal_def
  by (force split: if_splits dest: parse_num_shorter prefix_length_le)

text \<open>What follows the opening of an object or an array.\<close>

lemma parse_value_open:
  assumes "parse_value (Suc n) s = Some (v, r)" "skip_ws s = c # cs" "c = CHR ''{'' \<or> c = CHR ''[''"
  obtains d ds where "skip_ws cs = d # ds" "length ds < length cs"
    "r = ds \<or> parse_members n [] (d # ds) = Some (v, r) \<and> c = CHR ''{'' \<and> d \<noteq> CHR ''}''
       \<or> parse_elems n [] (d # ds) = Some (v, r) \<and> c = CHR ''['' \<and> d \<noteq> CHR '']''"
proof -
  from assms obtain d ds where d: "skip_ws cs = d # ds" by (auto split: list.splits)
  moreover have "length ds < length cs" using d by (rule skip_ws_Cons_length)
  moreover have "r = ds \<or> parse_members n [] (d # ds) = Some (v, r) \<and> c = CHR ''{'' \<and> d \<noteq> CHR ''}''
       \<or> parse_elems n [] (d # ds) = Some (v, r) \<and> c = CHR ''['' \<and> d \<noteq> CHR '']''"
    using assms d by (auto split: if_splits)
  ultimately show ?thesis by (rule that)
qed

lemma parse_shorter:
  "parse_value n s = Some (v, r) \<Longrightarrow> length r < length s"
  "parse_elems n acc s = Some (v, r) \<Longrightarrow> length r < length s"
  "parse_members n acc' s = Some (v, r) \<Longrightarrow> length r < length s"
proof (induction n s and n acc s and n acc' s arbitrary: v r and v r and v r
    rule: parse_value_parse_elems_parse_members.induct)
  case (2 n s)
  from "2.prems" obtain c cs where sk: "skip_ws s = c # cs" by (auto split: list.splits)
  then have len: "length cs < length s" by (rule skip_ws_Cons_length)
  show ?case
  proof (cases "c = CHR 0x22")
    case True
    with "2.prems" sk len show ?thesis by (auto dest!: parse_str_shorter)
  next
    case nq: False
    show ?thesis
    proof (cases "c = CHR ''{'' \<or> c = CHR ''[''")
      case True
      from parse_value_open [OF "2.prems" sk True] obtain d ds where d: "skip_ws cs = d # ds" and "length ds < length cs"
        and r: "r = ds \<or> parse_members n [] (d # ds) = Some (v, r) \<and> c = CHR ''{'' \<and> d \<noteq> CHR ''}''
          \<or> parse_elems n [] (d # ds) = Some (v, r) \<and> c = CHR ''['' \<and> d \<noteq> CHR '']''" by blast
      have IH: "length r < length (d # ds)"
        if "parse_members n [] (d # ds) = Some (v, r) \<and> c = CHR ''{'' \<and> d \<noteq> CHR ''}''
          \<or> parse_elems n [] (d # ds) = Some (v, r) \<and> c = CHR ''['' \<and> d \<noteq> CHR '']''"
        using that "2.IH"(1) [OF sk nq _ d] "2.IH"(2) [OF sk nq _ _ d] by (elim disjE) auto
      from IH r \<open>length ds < length cs\<close> len show ?thesis by fastforce
    next
      case False
      then have "parse_literal (c # cs) = Some (v, r)"
        using "2.prems" sk nq by simp
      with skip_ws_length [of s] sk show ?thesis by (auto dest!: parse_literal_shorter)
    qed
  qed
next
  case (4 n acc s)
  from "4.prems" obtain w r' c cs where w: "parse_value n s = Some (w, r')"
    and c: "skip_ws r' = c # cs"
    by (simp split: option.splits prod.splits list.splits)
  have "length cs < length s"
    using "4.IH"(1) [OF w] skip_ws_Cons_length [OF c] by simp
  moreover have "r = cs \<or> c = CHR '','' \<and> parse_elems n (acc @ [w]) cs = Some (v, r)"
    using "4.prems" w c by (simp split: if_splits)
  ultimately show ?case using "4.IH"(2) [OF w _ c] by fastforce
next
  case (6 n acc s)
  from "6.prems" obtain q qs k r1 c cs where q: "skip_ws s = q # qs" "q = CHR 0x22"
    and k: "parse_str qs = Some (k, r1)" and c: "skip_ws r1 = c # cs" "c = CHR '':''"
    by (simp split: option.splits prod.splits list.splits if_splits)
  with "6.prems" obtain w r2 d ds where w: "parse_value n cs = Some (w, r2)"
    and d: "skip_ws r2 = d # ds"
    by (simp split: option.splits prod.splits list.splits)
  have "length cs < length s"
    using skip_ws_Cons_length [OF q(1)] skip_ws_Cons_length [OF c(1)] parse_str_shorter [OF k] by simp
  then have "length ds < length s"
    using "6.IH"(1) [OF q(1) _ k _ c(1) _ w] q(2) c(2) skip_ws_Cons_length [OF d] by simp
  moreover have "r = ds \<or> d = CHR '','' \<and> parse_members n (jput k w acc) ds = Some (v, r)"
    using "6.prems" q k c w d by (simp split: if_splits)
  ultimately show ?case using "6.IH"(2) [OF q(1) _ k _ c(1) _ w _ d] q(2) c(2) by fastforce
qed simp_all

text \<open>Fuel above twice the length of the input never changes the result.\<close>

lemma parse_fuel:
  "2 * length s < n \<Longrightarrow> parse_value (Suc n) s = parse_value n s"
  "2 * length s + 1 < n \<Longrightarrow> parse_elems (Suc n) acc s = parse_elems n acc s"
  "2 * length s < n \<Longrightarrow> parse_members (Suc n) acc' s = parse_members n acc' s"
proof (induction n s and n acc s and n acc' s rule: parse_value_parse_elems_parse_members.induct)
  case (2 n s)
  have M: "parse_members (Suc n) [] (d # ds) = parse_members n [] (d # ds)"
    if "skip_ws s = c # cs" "skip_ws cs = d # ds" "c = CHR ''{''" "d \<noteq> CHR ''}''" for c cs d ds
    using that "2.prems" "2.IH"(1) [OF that(1) _ _ that(2)] skip_ws_length [of s] skip_ws_length [of cs] by simp
  have E: "parse_elems (Suc n) [] (d # ds) = parse_elems n [] (d # ds)"
    if "skip_ws s = c # cs" "skip_ws cs = d # ds" "c = CHR ''[''" "d \<noteq> CHR '']''" for c cs d ds
    using that "2.prems" "2.IH"(2) [OF that(1) _ _ _ that(2)] skip_ws_length [of s] skip_ws_length [of cs] by simp
  show ?case
    unfolding parse_value.simps(2)
    by (auto split: list.split simp: M E simp del: parse_members.simps parse_elems.simps)
next
  case (4 n acc s)
  then have V: "parse_value (Suc n) s = parse_value n s" by simp
  have E: "parse_elems (Suc n) (acc @ [v]) cs = parse_elems n (acc @ [v]) cs"
    if "parse_value n s = Some (v, r)" "skip_ws r = c # cs" "c = CHR '',''" for v r c cs
    using that "4.prems" "4.IH"(2) [OF that(1) _ that(2,3)] parse_shorter(1) [OF that(1)]
      skip_ws_length [of r] by simp
  show ?case
    unfolding parse_elems.simps(2) [of "Suc n" acc s] parse_elems.simps(2) [of n acc s] V
    by (auto split: option.split list.split simp: E simp del: parse_elems.simps)
next
  case (6 n acc s)
  have V: "parse_value (Suc n) cs = parse_value n cs"
    if "skip_ws s = q # qs" "q = CHR 0x22" "parse_str qs = Some (k, r)" "skip_ws r = c # cs"
      "c = CHR '':''" for q qs k r c cs
    using that "6.prems" "6.IH"(1) [OF that(1) _ that(3) _ that(4)] parse_str_shorter [OF that(3)]
      skip_ws_length [of r] skip_ws_length [of s] by simp
  have M: "parse_members (Suc n) (jput k v acc) ds = parse_members n (jput k v acc) ds"
    if "skip_ws s = q # qs" "q = CHR 0x22" "parse_str qs = Some (k, r)" "skip_ws r = c # cs"
      "c = CHR '':''" "parse_value n cs = Some (v, r')" "skip_ws r' = d # ds" "d = CHR '',''"
    for q qs k r c cs v r' d ds
    using that "6.prems" "6.IH"(2) [OF that(1) _ that(3) _ that(4) _ that(6) _ that(7,8)]
      parse_str_shorter [OF that(3)] parse_shorter(1) [OF that(6)]
      skip_ws_length [of r] skip_ws_length [of s] skip_ws_length [of r'] by simp
  show ?case
    unfolding parse_members.simps(2) [of "Suc n" acc s] parse_members.simps(2) [of n acc s]
    by (auto split: option.split list.split simp: V M simp del: parse_members.simps parse_value.simps)
qed simp_all

lemma parse_value_fuel:
  "2 * length s < n \<Longrightarrow> parse_value (n + k) s = parse_value n s"
proof (induction k)
  case (Suc k)
  then show ?case using parse_fuel(1) [of s "n + k"] by simp
qed simp

section \<open>Encoding and decoding an object of one string member\<close>

lemma hex_val_hex_digit: "d < 16 \<Longrightarrow> hex_val (hex_digit d) = Some d"
  unfolding hex_val_def hex_digit_def
  by (simp add: upt_rec less_Suc_eq numeral_eq_Suc) (elim disjE; simp)

lemma encode_rune_ascii: "byte c < 128 \<Longrightarrow> encode_rune (byte c) = [c]"
  by (simp add: encode_rune_def byte_def)

lemma parse_str_encode_ascii:
  assumes "byte c < 128"
  shows "parse_str (encode_ascii c @ t) = map_option (\<lambda>(x, u). (c # x, u)) (parse_str t)"
proof (cases "html_safe c")
  case True
  then have "32 \<le> byte c" "c \<noteq> CHR 0x22" "c \<noteq> CHR 0x5C"
    by (auto simp: html_safe_def)
  with True assms show ?thesis by (simp add: encode_ascii_def)
next
  case ns: False
  show ?thesis
  proof (cases "c \<in> set [CHR 0x5C, CHR 0x22, CHR 0x0A, CHR 0x0D, CHR 0x09]")
    case True
    with ns show ?thesis by (auto simp: encode_ascii_def simple_escape_def)
  next
    case False
    have u: "u4 (CHR ''0'' # CHR ''0'' # hex_digit (byte c div 16) # hex_digit (byte c mod 16) # t)
      = Some (byte c, t)"
      using assms hex_val_hex_digit [of 0] hex_val_hex_digit [of "byte c div 16"] hex_val_hex_digit [of "byte c mod 16"]
      by (simp add: hex_digit_def)
    have ns: "\<not> is_surrogate (byte c)" using assms by (simp add: is_surrogate_def)
    have enc: "encode_ascii c @ t = CHR 0x5C # CHR ''u'' # CHR ''0'' # CHR ''0''
        # hex_digit (byte c div 16) # hex_digit (byte c mod 16) # t"
      using False \<open>\<not> html_safe c\<close> by (simp add: encode_ascii_def)
    show ?thesis
      unfolding enc using u ns assms by (simp add: encode_rune_ascii del: u4.simps)
  qed
qed

lemma encode_str_Cons_ascii: "byte c < 128 \<Longrightarrow> encode_str (c # s) = encode_ascii c @ encode_str s"
  by simp

lemma parse_str_encode_str:
  "ascii s \<Longrightarrow> parse_str (encode_str s @ CHR 0x22 # r) = Some (s, r)"
proof (induction s)
  case (Cons c s)
  then have "byte c < 128" "ascii s" by (auto simp: ascii_def)
  with Cons.IH show ?case
    by (simp add: encode_str_Cons_ascii parse_str_encode_ascii del: encode_str.simps(2))
qed simp

lemma skip_ws_Cons: "\<not> is_ws c \<Longrightarrow> skip_ws (c # s) = c # s"
  by (simp add: skip_ws_def)

lemma json_Unmarshal_member:
  assumes "ascii k" "ascii v"
  shows "json_Unmarshal (json_member k v) = Some (JObj [(k, JStr v)])"
proof -
  have "parse_value (Suc (Suc (Suc n))) (json_member k v) = Some (JObj [(k, JStr v)], [])" for n
    using parse_str_encode_str [OF assms(1)] parse_str_encode_str [OF assms(2)]
    by (simp add: json_member_def json_quote_def skip_ws_Cons is_ws_def jput_def)
  moreover have "\<exists>n. 2 * length (json_member k v) + 2 = Suc (Suc (Suc n))"
    by (simp add: json_member_def)
  ultimately show ?thesis
    unfolding json_Unmarshal_def by (metis (mono_tags, lifting) case_prod_conv option.case(2) skip_ws_def dropWhile.simps(1))
qed

end
