(* ===== verification/Go_Net.thy ===== *)
theory Go_Net
  imports Go_Json
begin

text \<open>
  The parts of Go's \<^verbatim>\<open>net\<close> and \<^verbatim>\<open>net/url\<close> packages the sources call, as of Go 1.12, the release
  the repository was written against: \<^verbatim>\<open>net.ParseIP\<close> with \<^verbatim>\<open>To4\<close>, and \<^verbatim>\<open>url.Parse\<close> followed by
  \<^verbatim>\<open>EscapedPath\<close>.
\<close>

section \<open>net.ParseIP and To4\<close>

definition dtoi :: "string \<Rightarrow> (nat \<times> string) option" where
  "dtoi s = (case span_digits s of (ds, r) \<Rightarrow>
     if ds = [] \<or> 16777215 \<le> digits_nat ds then None else Some (digits_nat ds, r))"

definition xtoi :: "string \<Rightarrow> (nat \<times> string) option" where
  "xtoi s =
     (let hs = takeWhile (\<lambda>c. hex_val c \<noteq> None) s;
          n = fold (\<lambda>c n. n * 16 + the (hex_val c)) hs 0
      in if hs = [] \<or> 16777215 \<le> n then None else Some (n, drop (length hs) s))"

text \<open>The octets still expected; every octet but the first is preceded by a dot.\<close>

fun octets :: "nat \<Rightarrow> bool \<Rightarrow> string \<Rightarrow> nat list option" where
  "octets 0 first s = (if s = [] then Some [] else None)"
| "octets (Suc n) first s =
     (case s of
        [] \<Rightarrow> None
      | c # cs \<Rightarrow>
          if \<not> first \<and> c \<noteq> CHR ''.'' then None
          else (case dtoi (if first then s else cs) of
             None \<Rightarrow> None
           | Some (v, r) \<Rightarrow> if v > 255 then None else map_option ((#) v) (octets n False r)))"

definition parseIPv4 :: "string \<Rightarrow> nat list option" where
  "parseIPv4 s = octets 4 True s"

text \<open>
  The loop of \<^verbatim>\<open>parseIPv6\<close>: the 16-bit groups that still fit, the bytes read, the position of
  the ellipsis, the text left.
\<close>

fun v6_groups ::
  "nat \<Rightarrow> nat list \<Rightarrow> nat option \<Rightarrow> string \<Rightarrow> (nat list \<times> nat option \<times> string) option" where
  "v6_groups 0 bs ell s = Some (bs, ell, s)"
| "v6_groups (Suc k) bs ell s =
     (case xtoi s of
        None \<Rightarrow> None
      | Some (n, r) \<Rightarrow>
          if n > 65535 then None
          else if prefix ''.'' r then
            (if ell = None \<and> length bs \<noteq> 12 then None
             else if length bs + 4 > 16 then None
             else map_option (\<lambda>q. (bs @ q, ell, [])) (parseIPv4 s))
          else
            (let bs' = bs @ [n div 256, n mod 256] in
             case r of
               [] \<Rightarrow> Some (bs', ell, [])
             | c # r' \<Rightarrow>
                 if c \<noteq> CHR '':'' then None
                 else (case r' of
                    [] \<Rightarrow> None
                  | d # r'' \<Rightarrow>
                      if d = CHR '':'' then
                        (if ell \<noteq> None then None
                         else if r'' = [] then Some (bs', Some (length bs'), [])
                         else v6_groups k bs' (Some (length bs')) r'')
                      else v6_groups k bs' ell r')))"

definition v6_finish :: "nat list \<times> nat option \<times> string \<Rightarrow> nat list option" where
  "v6_finish = (\<lambda>(bs, ell, s).
     if s \<noteq> [] then None
     else if length bs < 16 then
       (case ell of
          None \<Rightarrow> None
        | Some e \<Rightarrow> Some (take e bs @ replicate (16 - length bs) 0 @ drop e bs))
     else if ell \<noteq> None then None else Some bs)"

definition parseIPv6 :: "string \<Rightarrow> nat list option" where
  "parseIPv6 s =
     (if prefix ''::'' s then
        (if drop 2 s = [] then Some (replicate 16 0)
         else Option.bind (v6_groups 8 [] (Some 0) (drop 2 s)) v6_finish)
      else Option.bind (v6_groups 8 [] None s) v6_finish)"

definition v4_in_v6 :: "nat list \<Rightarrow> nat list" where
  "v4_in_v6 q = replicate 10 0 @ [255, 255] @ q"

fun ParseIP_from :: "string \<Rightarrow> string \<Rightarrow> nat list option" where
  "ParseIP_from s [] = None"
| "ParseIP_from s (c # cs) =
     (if c = CHR ''.'' then map_option v4_in_v6 (parseIPv4 s)
      else if c = CHR '':'' then parseIPv6 s
      else ParseIP_from s cs)"

definition ParseIP :: "string \<Rightarrow> nat list option" where
  "ParseIP s = ParseIP_from s s"

text \<open>\<^verbatim>\<open>To4\<close> of the address, which is \<^verbatim>\<open>nil\<close> or has 16 bytes.\<close>

definition To4 :: "nat list option \<Rightarrow> nat list option" where
  "To4 ip =
     (case ip of
        None \<Rightarrow> None
      | Some bs \<Rightarrow>
          if length bs = 16 \<and> take 10 bs = replicate 10 0 \<and> bs ! 10 = 255 \<and> bs ! 11 = 255
          then Some (drop 12 bs) else None)"

section \<open>url.Parse and EscapedPath\<close>

datatype url_mode = EncodePath | EncodeHost | EncodeZone | EncodeUserPassword | EncodeFragment

definition is_alnum :: "char \<Rightarrow> bool" where
  "is_alnum c \<longleftrightarrow>
     c \<in> set ''abcdefghijklmnopqrstuvwxyzABCDEFGHIJKLMNOPQRSTUVWXYZ0123456789''"

definition shouldEscape :: "char \<Rightarrow> url_mode \<Rightarrow> bool" where
  "shouldEscape c m =
     (if is_alnum c then False
      else if (m = EncodeHost \<or> m = EncodeZone)
        \<and> c \<in> set (''!$&()*+,;=:[]<>'' @ [CHR 0x27, CHR 0x22]) then False
      else if c \<in> set ''-_.~'' then False
      else if c \<in> set ''$&+,/:;=?@'' then
        (case m of
           EncodePath \<Rightarrow> c = CHR ''?''
         | EncodeUserPassword \<Rightarrow> c \<in> set ''@/?:''
         | EncodeFragment \<Rightarrow> False
         | _ \<Rightarrow> True)
      else if m = EncodeFragment \<and> c \<in> set ''!()*'' then False
      else True)"

text \<open>\<^verbatim>\<open>unescape\<close>: \<open>None\<close> is an error.\<close>

fun url_unescape :: "url_mode \<Rightarrow> string \<Rightarrow> string option" where
  "url_unescape m [] = Some []"
| "url_unescape m (c # s) =
     (if c = CHR ''%'' then
        (case s of
           a # b # r \<Rightarrow>
             (case (hex_val a, hex_val b) of
                (Some x, Some y) \<Rightarrow>
                  if m = EncodeHost \<and> x < 8 \<and> [c, a, b] \<noteq> ''%25'' then None
                  else if m = EncodeZone \<and> [c, a, b] \<noteq> ''%25'' \<and> x * 16 + y \<noteq> 32
                    \<and> shouldEscape (char_of (x * 16 + y)) EncodeHost then None
                  else map_option ((#) (char_of (x * 16 + y))) (url_unescape m r)
              | _ \<Rightarrow> None)
         | _ \<Rightarrow> None)
      else if (m = EncodeHost \<or> m = EncodeZone) \<and> byte c < 128 \<and> shouldEscape c m then None
      else map_option ((#) c) (url_unescape m s))"

definition upper_hex :: "nat \<Rightarrow> char" where
  "upper_hex d = ''0123456789ABCDEF'' ! d"

definition escape_path :: "string \<Rightarrow> string" where
  "escape_path s = concat (map (\<lambda>c.
     if shouldEscape c EncodePath then [CHR ''%'', upper_hex (byte c div 16), upper_hex (byte c mod 16)]
     else [c]) s)"

text \<open>\<^verbatim>\<open>split(s, c, cutc)\<close>: the part before the first \<open>c\<close>, and the rest with or without it.\<close>

definition url_split :: "string \<Rightarrow> char \<Rightarrow> bool \<Rightarrow> string \<times> string" where
  "url_split s c cutc =
     (case dropWhile (\<lambda>d. d \<noteq> c) s of
        [] \<Rightarrow> (s, [])
      | d # r \<Rightarrow> (takeWhile (\<lambda>d. d \<noteq> c) s, if cutc then r else d # r))"

text \<open>\<^verbatim>\<open>getscheme\<close>: \<open>None\<close> is the missing protocol scheme error.\<close>

fun getscheme_from :: "string \<Rightarrow> string \<Rightarrow> string \<Rightarrow> (string \<times> string) option" where
  "getscheme_from raw pre [] = Some ([], raw)"
| "getscheme_from raw pre (c # cs) =
     (if is_alnum c \<and> digit_val c = None then getscheme_from raw (pre @ [c]) cs
      else if digit_val c \<noteq> None \<or> c \<in> set ''+-.'' then
        (if pre = [] then Some ([], raw) else getscheme_from raw (pre @ [c]) cs)
      else if c = CHR '':'' then (if pre = [] then None else Some (pre, cs))
      else Some ([], raw))"

definition validOptionalPort :: "string \<Rightarrow> bool" where
  "validOptionalPort p =
     (case p of [] \<Rightarrow> True | c # cs \<Rightarrow> c = CHR '':'' \<and> (\<forall>d \<in> set cs. digit_val d \<noteq> None))"

text \<open>The text before and from the last occurrence of a character.\<close>

definition last_split :: "string \<Rightarrow> char \<Rightarrow> (string \<times> string) option" where
  "last_split s c =
     (if c \<in> set s then Some (rev (tl (dropWhile (\<lambda>d. d \<noteq> c) (rev s))), rev (takeWhile (\<lambda>d. d \<noteq> c) (rev s)))
      else None)"

fun find_sub :: "string \<Rightarrow> string \<Rightarrow> string \<Rightarrow> (string \<times> string) option" where
  "find_sub sub pre [] = None"
| "find_sub sub pre (c # s) =
     (if prefix sub (c # s) then Some (pre, c # s) else find_sub sub (pre @ [c]) s)"

definition url_host_ok :: "string \<Rightarrow> bool" where
  "url_host_ok host =
     (if prefix ''['' host then
        (case last_split host (CHR '']'') of
           None \<Rightarrow> False
         | Some (before, after) \<Rightarrow>
             validOptionalPort after
             \<and> (case find_sub ''%25'' [] before of
                  Some (h1, h2) \<Rightarrow>
                    url_unescape EncodeHost h1 \<noteq> None \<and> url_unescape EncodeZone h2 \<noteq> None
                    \<and> url_unescape EncodeHost (CHR '']'' # after) \<noteq> None
                | None \<Rightarrow> url_unescape EncodeHost host \<noteq> None))
      else url_unescape EncodeHost host \<noteq> None)"

definition validUserinfo :: "string \<Rightarrow> bool" where
  "validUserinfo s \<longleftrightarrow>
     (\<forall>c \<in> set s. is_alnum c \<or> c \<in> set (''-._:~!$&()*+,;=%@'' @ [CHR 0x27]))"

definition url_authority_ok :: "string \<Rightarrow> bool" where
  "url_authority_ok a =
     (case last_split a (CHR ''@'') of
        None \<Rightarrow> url_host_ok a
      | Some (userinfo, host) \<Rightarrow>
          url_host_ok host \<and> validUserinfo userinfo
          \<and> (case url_split userinfo (CHR '':'') True of (user, pass) \<Rightarrow>
               url_unescape EncodeUserPassword user \<noteq> None
               \<and> url_unescape EncodeUserPassword pass \<noteq> None))"

text \<open>\<^verbatim>\<open>setPath\<close> followed by \<^verbatim>\<open>EscapedPath\<close>.\<close>

definition validEncodedPath :: "string \<Rightarrow> bool" where
  "validEncodedPath s \<longleftrightarrow>
     (\<forall>c \<in> set s. c \<in> set (''!$&()*+,;=:@[]%'' @ [CHR 0x27]) \<or> \<not> shouldEscape c EncodePath)"

definition escaped_path :: "string \<Rightarrow> string option" where
  "escaped_path p =
     (case url_unescape EncodePath p of
        None \<Rightarrow> None
      | Some path \<Rightarrow>
          if p \<noteq> escape_path path \<and> p \<noteq> [] \<and> validEncodedPath p then Some p
          else if path = ''*'' then Some ''*''
          else Some (escape_path path))"

text \<open>The query is cut off; a single trailing question mark is an empty query.\<close>

definition cut_query :: "string \<Rightarrow> string" where
  "cut_query rest = fst (url_split rest (CHR ''?'') True)"

definition colon_in_first_segment :: "string \<Rightarrow> bool" where
  "colon_in_first_segment rest \<longleftrightarrow> CHR '':'' \<in> set (takeWhile (\<lambda>c. c \<noteq> CHR ''/'') rest)"

definition url_parse_rest :: "string \<Rightarrow> string \<Rightarrow> string option" where
  "url_parse_rest scheme rest =
     (if \<not> prefix ''/'' rest \<and> scheme \<noteq> [] then Some []
      else if \<not> prefix ''/'' rest \<and> colon_in_first_segment rest then None
      else if (scheme \<noteq> [] \<or> \<not> prefix ''///'' rest) \<and> prefix ''//'' rest then
        (case url_split (drop 2 rest) (CHR ''/'') False of (authority, path) \<Rightarrow>
           if url_authority_ok authority then escaped_path path else None)
      else escaped_path rest)"

text \<open>
  \<open>url_EscapedPath u\<close> is \<^verbatim>\<open>EscapedPath\<close> of the parsed URL, \<open>None\<close> when \<^verbatim>\<open>url.Parse\<close> fails. An
  opaque URL has an empty path.
\<close>

definition url_EscapedPath :: "string \<Rightarrow> string option" where
  "url_EscapedPath raw =
     (case url_split raw (CHR ''#'') True of (u, frag) \<Rightarrow>
        if \<exists>c \<in> set u. byte c < 32 \<or> byte c = 127 then None
        else if url_unescape EncodeFragment frag = None then None
        else if u = ''*'' then Some ''*''
        else (case getscheme_from u [] u of
           None \<Rightarrow> None
         | Some (scheme, rest) \<Rightarrow> url_parse_rest scheme (cut_query rest)))"

text \<open>\<^verbatim>\<open>parseHost\<close> with its result, and \<^verbatim>\<open>Host\<close> of the parsed URL, \<open>None\<close> when \<^verbatim>\<open>url.Parse\<close> fails.\<close>

definition parseHost :: "string \<Rightarrow> string option" where
  "parseHost host =
     (if prefix ''['' host then
        (case last_split host (CHR '']'') of
           None \<Rightarrow> None
         | Some (before, after) \<Rightarrow>
             if \<not> validOptionalPort after then None
             else
               (case find_sub ''%25'' [] before of
                  Some (h1, h2) \<Rightarrow>
                    (case (url_unescape EncodeHost h1, url_unescape EncodeZone h2,
                           url_unescape EncodeHost (CHR '']'' # after)) of
                       (Some a, Some b, Some c) \<Rightarrow> Some (a @ b @ c)
                     | _ \<Rightarrow> None)
                | None \<Rightarrow> url_unescape EncodeHost host))
      else url_unescape EncodeHost host)"

definition authority_host :: "string \<Rightarrow> string" where
  "authority_host a = (case last_split a (CHR ''@'') of None \<Rightarrow> a | Some (userinfo, host) \<Rightarrow> host)"

definition url_rest_Host :: "string \<Rightarrow> string \<Rightarrow> string option" where
  "url_rest_Host scheme rest =
     (if (prefix ''/'' rest \<or> scheme = []) \<and> (scheme \<noteq> [] \<or> \<not> prefix ''///'' rest) \<and> prefix ''//'' rest
      then parseHost (authority_host (fst (url_split (drop 2 rest) (CHR ''/'') False)))
      else Some [])"

definition url_Host :: "string \<Rightarrow> string option" where
  "url_Host raw =
     (if url_EscapedPath raw = None then None
      else
        (let u = fst (url_split raw (CHR ''#'') True)
         in if u = ''*'' then Some []
            else (case getscheme_from u [] u of
               None \<Rightarrow> None
             | Some (scheme, rest) \<Rightarrow> url_rest_Host scheme (cut_query rest))))"

lemma parseHost_ok: "url_host_ok host \<longleftrightarrow> parseHost host \<noteq> None"
  by (auto simp: url_host_ok_def parseHost_def split: option.splits)

lemma url_Host_parses: "url_Host raw \<noteq> None \<longleftrightarrow> url_EscapedPath raw \<noteq> None"
proof
  assume "url_EscapedPath raw \<noteq> None"
  then show "url_Host raw \<noteq> None"
    by (auto simp: url_Host_def url_EscapedPath_def Let_def url_rest_Host_def url_parse_rest_def
        url_authority_ok_def authority_host_def parseHost_ok split: prod.splits option.splits if_splits)
qed (simp add: url_Host_def split: if_splits)

end
