(* ===== verification/Avi_Cache.thy ===== *)
theory Avi_Cache
  imports Prelude
begin

text \<open>
  \<^verbatim>\<open>pkg/utils/cache.go\<close>: the one-to-one cache \<open>AviCache\<close> and the one-to-many cache
  \<open>AviMultiCache\<close>. Every method takes the cache's lock for its whole body, so each is one
  atomic operation and the lock itself is not part of the state.

  The inner map of a multi-cache (\<^verbatim>\<open>map[interface{}]bool\<close>, whose values are always \<^verbatim>\<open>true\<close>) is
  the list of its keys in insertion order, without duplicates; loops that range over it take
  the visiting order as an argument.

  The contracts clients rely on are the locales \<open>object_cache\<close> (what a lookup returns after
  an update) and \<open>relation_cache\<close> (the cache is a finite relation, stored without empty
  rows); both are interpreted on the operations of this theory.
\<close>

section \<open>AviCache\<close>

record ('k, 'v) AviCache =
  cache :: "'k \<rightharpoonup> 'v"

definition NewAviCache :: "('k, 'v) AviCache" where
  "NewAviCache = \<lparr>cache = Map.empty\<rparr>"

definition AviCacheGet :: "('k, 'v) AviCache \<Rightarrow> 'k \<Rightarrow> 'v option" where
  "AviCacheGet c k = cache c k"

definition AviCacheAdd :: "('k, 'v) AviCache \<Rightarrow> 'k \<Rightarrow> 'v \<Rightarrow> ('k, 'v) AviCache" where
  "AviCacheAdd c k v = c\<lparr>cache := (cache c)(k \<mapsto> v)\<rparr>"

definition AviCacheDelete :: "('k, 'v) AviCache \<Rightarrow> 'k \<Rightarrow> ('k, 'v) AviCache" where
  "AviCacheDelete c k = c\<lparr>cache := (cache c)(k := None)\<rparr>"

section \<open>AviMultiCache\<close>

record ('k, 'v) AviMultiCache =
  mcache :: "'k \<rightharpoonup> 'v list"

definition NewAviMultiCache :: "('k, 'v) AviMultiCache" where
  "NewAviMultiCache = \<lparr>mcache = Map.empty\<rparr>"

definition AviMultiCacheGetKey :: "('k, 'v) AviMultiCache \<Rightarrow> 'k \<Rightarrow> 'v list option" where
  "AviMultiCacheGetKey c k = mcache c k"

definition AviMultiCacheLookup :: "('k, 'v) AviMultiCache \<Rightarrow> 'k \<Rightarrow> 'v \<Rightarrow> bool" where
  "AviMultiCacheLookup c k lval =
     (case mcache c k of None \<Rightarrow> False | Some val \<Rightarrow> lval \<in> set val)"

definition AviMultiCacheAdd ::
  "('k, 'v) AviMultiCache \<Rightarrow> 'k \<Rightarrow> 'v \<Rightarrow> ('k, 'v) AviMultiCache" where
  "AviMultiCacheAdd c k val =
     (case mcache c k of
        Some l1val \<Rightarrow>
          (if val \<in> set l1val then c else c\<lparr>mcache := (mcache c)(k \<mapsto> l1val @ [val])\<rparr>)
      | None \<Rightarrow> c\<lparr>mcache := (mcache c)(k \<mapsto> [val])\<rparr>)"

definition AviMultiCacheDeleteVal ::
  "('k, 'v) AviMultiCache \<Rightarrow> 'k \<Rightarrow> 'v \<Rightarrow> ('k, 'v) AviMultiCache" where
  "AviMultiCacheDeleteVal c k dval =
     (case mcache c k of
        Some l1val \<Rightarrow>
          (let l1val' = removeAll dval l1val
           in if length l1val' = 0 then c\<lparr>mcache := (mcache c)(k := None)\<rparr>
              else c\<lparr>mcache := (mcache c)(k \<mapsto> l1val')\<rparr>)
      | None \<Rightarrow> c)"

definition AviMultiCacheDeleteKey ::
  "('k, 'v) AviMultiCache \<Rightarrow> 'k \<Rightarrow> ('k, 'v) AviMultiCache" where
  "AviMultiCacheDeleteKey c k = c\<lparr>mcache := (mcache c)(k := None)\<rparr>"

section \<open>The contract of a one-to-one cache\<close>

locale object_cache =
  fixes empty_cache :: 'c
    and get :: "'c \<Rightarrow> 'k \<Rightarrow> 'v option"
    and add :: "'c \<Rightarrow> 'k \<Rightarrow> 'v \<Rightarrow> 'c"
    and del :: "'c \<Rightarrow> 'k \<Rightarrow> 'c"
  assumes get_empty: "get empty_cache k = None"
    and get_add: "get (add c k v) k' = (if k' = k then Some v else get c k')"
    and get_del: "get (del c k) k' = (if k' = k then None else get c k')"
begin

lemmas laws = get_empty get_add get_del

lemma get_fold_del:
  "get (fold (\<lambda>k c. del c k) ks c) k' = (if k' \<in> set ks then None else get c k')"
  by (induction ks arbitrary: c) (auto simp: get_del)

end

interpretation avi_cache: object_cache NewAviCache AviCacheGet AviCacheAdd AviCacheDelete
  by unfold_locales (auto simp: NewAviCache_def AviCacheGet_def AviCacheAdd_def AviCacheDelete_def)

lemmas [cache_simps] = avi_cache.laws

section \<open>The contract of a one-to-many cache\<close>

text \<open>
  Seen from outside the cache is a relation (\<open>rel\<close>). The invariant \<open>ok\<close> is that no key is
  stored with an empty row, so that \<open>row\<close> finds a key exactly when the relation has it.
\<close>

locale relation_cache =
  fixes empty_cache :: 'c
    and row :: "'c \<Rightarrow> 'k \<Rightarrow> 'v list option"
    and lookup :: "'c \<Rightarrow> 'k \<Rightarrow> 'v \<Rightarrow> bool"
    and add :: "'c \<Rightarrow> 'k \<Rightarrow> 'v \<Rightarrow> 'c"
    and del_val :: "'c \<Rightarrow> 'k \<Rightarrow> 'v \<Rightarrow> 'c"
    and del_key :: "'c \<Rightarrow> 'k \<Rightarrow> 'c"
    and rel :: "'c \<Rightarrow> ('k \<times> 'v) set"
    and ok :: "'c \<Rightarrow> bool"
  assumes rel_empty: "rel empty_cache = {}"
    and rel_add: "rel (add c k v) = insert (k, v) (rel c)"
    and rel_del_val: "rel (del_val c k v) = rel c - {(k, v)}"
    and rel_del_key: "rel (del_key c k) = {(k', v). (k', v) \<in> rel c \<and> k' \<noteq> k}"
    and lookup_rel: "lookup c k v \<longleftrightarrow> (k, v) \<in> rel c"
    and row_rel: "ok c \<Longrightarrow> row c k = Some vs \<Longrightarrow> vs \<noteq> [] \<and> distinct vs \<and> (\<forall>v. v \<in> set vs \<longleftrightarrow> (k, v) \<in> rel c)"
    and row_None: "ok c \<Longrightarrow> row c k = None \<longleftrightarrow> (\<forall>v. (k, v) \<notin> rel c)"
    and ok_empty: "ok empty_cache"
    and ok_add: "ok c \<Longrightarrow> ok (add c k v)"
    and ok_del_val: "ok c \<Longrightarrow> ok (del_val c k v)"
    and ok_del_key: "ok c \<Longrightarrow> ok (del_key c k)"
begin

lemmas rels = rel_empty rel_add rel_del_val rel_del_key
lemmas oks = ok_empty ok_add ok_del_val ok_del_key

lemma rel_fold_del:
  "rel (fold (\<lambda>v c. del_val c k v) vs c) = rel c - {(k, v) | v. v \<in> set vs}"
  by (induction vs arbitrary: c) (auto simp: rel_del_val)

lemma ok_fold_del: "ok c \<Longrightarrow> ok (fold (\<lambda>v c. del_val c k v) vs c)"
  by (induction vs arbitrary: c) (auto simp: ok_del_val)

text \<open>
  Deleting from a key's row every value a predicate selects removes exactly those pairs;
  the key disappears when the predicate selects the whole row.
\<close>

lemma rel_purge:
  assumes "ok c" and "row c k = Some vs" and "set vs' = set vs"
  shows "rel (fold (\<lambda>v c. if P v then del_val c k v else c) vs' c)
    = {(k', v). (k', v) \<in> rel c \<and> \<not> (k' = k \<and> P v)}"
proof -
  have gen: "rel (fold (\<lambda>v c. if P v then del_val c k v else c) xs d)
    = {(k', v). (k', v) \<in> rel d \<and> \<not> (k' = k \<and> P v \<and> v \<in> set xs)}" for xs d
    by (induction xs arbitrary: d) (auto simp: rel_del_val)
  from row_rel [OF assms(1,2)] assms(3) show ?thesis
    by (auto simp: gen)
qed

lemma ok_purge: "ok c \<Longrightarrow> ok (fold (\<lambda>v c. if P v then del_val c k v else c) vs c)"
  by (induction vs arbitrary: c) (auto simp: ok_del_val)

lemma lookup_laws:
  "\<not> lookup empty_cache k v"
  "lookup (add c k v) k' v' \<longleftrightarrow> k' = k \<and> v' = v \<or> lookup c k' v'"
  "lookup (del_val c k v) k' v' \<longleftrightarrow> lookup c k' v' \<and> \<not> (k' = k \<and> v' = v)"
  "lookup (del_key c k) k' v' \<longleftrightarrow> lookup c k' v' \<and> k' \<noteq> k"
  by (auto simp: lookup_rel rels)

end

definition mc_rel :: "('k, 'v) AviMultiCache \<Rightarrow> ('k \<times> 'v) set" where
  "mc_rel c = {(k, v). \<exists>vs. mcache c k = Some vs \<and> v \<in> set vs}"

definition mc_ok :: "('k, 'v) AviMultiCache \<Rightarrow> bool" where
  "mc_ok c \<longleftrightarrow> (\<forall>k vs. mcache c k = Some vs \<longrightarrow> vs \<noteq> [] \<and> distinct vs)"

lemma mc_rel_add: "mc_rel (AviMultiCacheAdd c k v) = insert (k, v) (mc_rel c)"
  by (force simp: mc_rel_def AviMultiCacheAdd_def split: option.splits if_splits)

lemma mc_rel_del_val: "mc_rel (AviMultiCacheDeleteVal c k v) = mc_rel c - {(k, v)}"
proof (cases "mcache c k")
  case None
  then show ?thesis by (auto simp: mc_rel_def AviMultiCacheDeleteVal_def)
next
  case (Some l1)
  show ?thesis
  proof (cases "removeAll v l1 = []")
    case True
    then have "set l1 \<subseteq> {v}" by (auto simp: removeAll_filter_not_eq filter_empty_conv)
    with Some True show ?thesis
      by (auto simp: mc_rel_def AviMultiCacheDeleteVal_def split: if_splits)
  next
    case False
    with Some show ?thesis
      by (auto simp: mc_rel_def AviMultiCacheDeleteVal_def Let_def split: if_splits)
  qed
qed

lemma mc_ok_add: "mc_ok c \<Longrightarrow> mc_ok (AviMultiCacheAdd c k v)"
  by (auto simp: mc_ok_def AviMultiCacheAdd_def split: option.splits if_splits)

lemma mc_ok_del_val: "mc_ok c \<Longrightarrow> mc_ok (AviMultiCacheDeleteVal c k v)"
  by (auto simp: mc_ok_def AviMultiCacheDeleteVal_def Let_def distinct_removeAll split: option.splits if_splits)

lemma mc_rel_basic:
  "mc_rel NewAviMultiCache = {}"
  "mc_rel (AviMultiCacheDeleteKey c k) = {(k', v). (k', v) \<in> mc_rel c \<and> k' \<noteq> k}"
  "AviMultiCacheLookup c k v \<longleftrightarrow> (k, v) \<in> mc_rel c"
  by (auto simp: mc_rel_def NewAviMultiCache_def AviMultiCacheDeleteKey_def
      AviMultiCacheLookup_def split: option.splits if_splits)

lemma mc_ok_basic:
  "mc_ok NewAviMultiCache"
  "mc_ok c \<Longrightarrow> mc_ok (AviMultiCacheDeleteKey c k)"
  by (auto simp: mc_ok_def NewAviMultiCache_def AviMultiCacheDeleteKey_def split: if_splits)

lemma mc_row_rel:
  "mc_ok c \<Longrightarrow> AviMultiCacheGetKey c k = Some vs \<Longrightarrow>
   vs \<noteq> [] \<and> distinct vs \<and> (\<forall>v. v \<in> set vs \<longleftrightarrow> (k, v) \<in> mc_rel c)"
  by (auto simp: mc_ok_def mc_rel_def AviMultiCacheGetKey_def)

lemma mc_row_None:
  "mc_ok c \<Longrightarrow> AviMultiCacheGetKey c k = None \<longleftrightarrow> (\<forall>v. (k, v) \<notin> mc_rel c)"
  by (cases "mcache c k")
    (auto simp: mc_ok_def mc_rel_def AviMultiCacheGetKey_def neq_Nil_conv)

interpretation avi_mcache: relation_cache NewAviMultiCache AviMultiCacheGetKey
  AviMultiCacheLookup AviMultiCacheAdd AviMultiCacheDeleteVal AviMultiCacheDeleteKey mc_rel mc_ok
  by unfold_locales
    (rule mc_rel_basic mc_rel_add mc_rel_del_val mc_row_rel mc_row_None mc_ok_basic mc_ok_add
      mc_ok_del_val; assumption)+

lemmas [cache_simps] = avi_mcache.lookup_laws

section \<open>Properties\<close>

text \<open>
  C29: the multi-cache refines a relation between keys and values: a new cache is the empty
  relation, adding inserts a pair, deleting a value removes that pair and no other, deleting a
  key removes its pairs, and a lookup is membership.
\<close>

theorem AviMultiCache_refines_relation:
  "mc_rel (NewAviMultiCache :: ('k, 'v) AviMultiCache) = {}
   \<and> mc_rel (AviMultiCacheAdd c k v) = mc_rel c \<union> {(k, v)}
   \<and> mc_rel (AviMultiCacheDeleteVal c k v) = mc_rel c - {(k, v)}
   \<and> mc_rel (AviMultiCacheDeleteKey c k) = mc_rel c - {k} \<times> UNIV
   \<and> AviMultiCacheLookup c k v = ((k, v) \<in> mc_rel c)"
  by (auto simp: avi_mcache.rels avi_mcache.lookup_rel)

text \<open>
  No key of a multi-cache has an empty row. Every operation keeps this, so a row is
  found for a key exactly when a lookup with some value succeeds.
\<close>

theorem AviMultiCache_no_empty_row:
  assumes "mc_ok c"
  shows "mc_ok (AviMultiCacheAdd c k v) \<and> mc_ok (AviMultiCacheDeleteVal c k v)
    \<and> mc_ok (AviMultiCacheDeleteKey c k)
    \<and> (AviMultiCacheGetKey c k = None) = (\<forall>v. \<not> AviMultiCacheLookup c k v)"
  using avi_mcache.oks(2-4) [OF assms] avi_mcache.row_None [OF assms] avi_mcache.lookup_rel by metis

theorem AviMultiCache_no_empty_row_witness:
  "AviMultiCacheGetKey (NewAviMultiCache :: (string, string) AviMultiCache) ''svc'' = None
   \<and> mc_ok (AviMultiCacheDeleteVal (NewAviMultiCache :: (string, string) AviMultiCache) ''svc'' ''pool'')"
  using AviMultiCache_no_empty_row [OF avi_mcache.ok_empty, of "''svc''" "''pool''"]
  by (simp add: NewAviMultiCache_def AviMultiCacheGetKey_def)

end
