(* ===== verification/Avi_Types.thy ===== *)
theory Avi_Types
  imports Go_Json Avi_Cache
begin

text \<open>
  The data of the program: \<^verbatim>\<open>pkg/utils/types.go\<close>, the fields the code reads of the Kubernetes
  API objects, and the fields the code writes of the Avi SDK models. A pointer field is an
  \<open>option\<close>; fields of the SDK models the code never sets are left out (they stay \<^verbatim>\<open>nil\<close> and are
  omitted from the JSON the SDK sends). Record fields carry a prefix naming their struct.
\<close>

section \<open>Kubernetes objects\<close>

datatype IntOrString = FromInt int32 | FromString string

text \<open>\<^verbatim>\<open>IntOrString.String\<close>\<close>

definition IntOrString_String :: "IntOrString \<Rightarrow> string" where
  "IntOrString_String v = (case v of FromString s \<Rightarrow> s | FromInt i \<Rightarrow> Itoa (sint i))"

record ServicePort =
  sp_Name :: string
  sp_Protocol :: string
  sp_Port :: int32
  sp_TargetPort :: IntOrString

record Service =
  svc_Namespace :: string
  svc_Name :: string
  svc_ResourceVersion :: string
  svc_Ports :: "ServicePort list"

record ObjectReference =
  ref_Kind :: string
  ref_Namespace :: string
  ref_Name :: string
  ref_UID :: string
  ref_APIVersion :: string
  ref_ResourceVersion :: string
  ref_FieldPath :: string

record EndpointAddress =
  ea_IP :: string
  ea_Hostname :: string
  ea_NodeName :: "string option"
  ea_TargetRef :: "ObjectReference option"

record EndpointPort =
  epp_Name :: string
  epp_Port :: int32
  epp_Protocol :: string

record EndpointSubset =
  ss_Addresses :: "EndpointAddress list"
  ss_NotReadyAddresses :: "EndpointAddress list"
  ss_Ports :: "EndpointPort list"

record Endpoints =
  ep_Namespace :: string
  ep_Name :: string
  ep_ResourceVersion :: string
  ep_Subsets :: "EndpointSubset list"

record Ingress =
  ing_Namespace :: string
  ing_Name :: string

text \<open>
  The dynamic type of an object an informer hands to an event handler: one of the three
  kinds, the tombstone \<^verbatim>\<open>cache.DeletedFinalStateUnknown\<close> with its key and last known object, or
  anything else.
\<close>

datatype k8s_obj =
    KEndpoints Endpoints
  | KService Service
  | KIngress Ingress
  | DeletedFinalStateUnknown string k8s_obj
  | KOther

section \<open>Avi SDK models\<close>

record IPAddr =
  ip_Type :: "string option"
  ip_Addr :: "string option"

record IPAddrPrefix =
  ipp_IPAddr :: "IPAddr option"
  ipp_Mask :: "int32 option"

record Server =
  srv_IP :: "IPAddr option"
  srv_Port :: "int32 option"
  srv_ServerNode :: "string option"

record Pool =
  pool_Name :: "string option"
  pool_CloudConfigCksum :: "string option"
  pool_CreatedBy :: "string option"
  pool_TenantRef :: "string option"
  pool_ServiceMetadata :: "string option"
  pool_Servers :: "Server list"
  pool_HealthMonitorRefs :: "string list"

record Vip =
  vip_AutoAllocateIP :: "bool option"
  vip_Subnet :: "IPAddrPrefix option"

record AviService =
  as_Port :: "int32 option"
  as_OverrideNetworkProfileRef :: "string option"

record ServicePoolSelector =
  sps_ServicePoolRef :: "string option"
  sps_ServicePort :: "int32 option"
  sps_ServiceProtocol :: "string option"

record VirtualService =
  vs_Name :: "string option"
  vs_NetworkProfileRef :: "string option"
  vs_ApplicationProfileRef :: "string option"
  vs_CloudConfigCksum :: "string option"
  vs_CreatedBy :: "string option"
  vs_EastWestPlacement :: "bool option"
  vs_PoolRef :: "string option"
  vs_Vip :: "Vip list"
  vs_TenantRef :: "string option"
  vs_ServiceMetadata :: "string option"
  vs_Services :: "AviService list"
  vs_ServicePoolSelect :: "ServicePoolSelector list"

record HostHdrMatch =
  hhm_MatchCriteria :: string
  hhm_Value :: "string list"

record PathMatch =
  pathm_MatchCriteria :: string
  pathm_MatchStr :: "string list"

record PortMatch =
  portm_MatchCriteria :: string
  portm_Ports :: "int64 list"

record MatchTarget =
  mt_HostHdr :: "HostHdrMatch option"
  mt_Path :: "PathMatch option"
  mt_VsPort :: "PortMatch option"

record HttpswitchingAction =
  sw_Action :: "string option"
  sw_PoolRef :: "string option"
  sw_PoolGroupRef :: "string option"

text \<open>\<open>rule_Index\<close> is the value the \<^verbatim>\<open>Index\<close> pointer shows once the rules are built.\<close>

record HTTPRequestRule =
  rule_Enable :: bool
  rule_Index :: int32
  rule_Name :: string
  rule_Match :: MatchTarget
  rule_SwitchingAction :: HttpswitchingAction

record HTTPRequestPolicy =
  hrp_Rules :: "HTTPRequestRule list"

record HTTPPolicySet =
  hps_Name :: "string option"
  hps_CloudConfigCksum :: "string option"
  hps_CreatedBy :: "string option"
  hps_TenantRef :: "string option"
  hps_HTTPRequestPolicy :: "HTTPRequestPolicy option"

section \<open>pkg/utils/types.go\<close>

datatype EvType = CreateEv | UpdateEv | DeleteEv

definition NumWorkers :: uint32 where
  "NumWorkers = 2"

definition OSHIFT_K8S_CLOUD_CONNECTOR :: string where
  "OSHIFT_K8S_CLOUD_CONNECTOR = ''oshift-k8s-cloud-connector''"

definition AVI_DEFAULT_TCP_HM :: string where
  "AVI_DEFAULT_TCP_HM = ''System-TCP''"

definition AVI_DEFAULT_UDP_HM :: string where
  "AVI_DEFAULT_UDP_HM = ''System-UDP''"

text \<open>The informer stores the listers read, by object key.\<close>

record Informers =
  ServiceInformer :: "string \<rightharpoonup> Service"
  EpInformer :: "string \<rightharpoonup> Endpoints"
  IngInformer :: "string \<rightharpoonup> Ingress"

datatype MacroData =
    DataPool Pool
  | DataVirtualService VirtualService
  | DataHTTPPolicySet HTTPPolicySet
  | DataJson jval

record AviRestObjMacro =
  macro_ModelName :: string
  macro_Data :: MacroData

datatype RestMethod = RestPost | RestPut | RestDelete | RestPatch | RestGet | RestOther string

text \<open>The dynamic type of \<^verbatim>\<open>RestOp.Obj\<close>: the macro struct or anything else.\<close>

datatype RestObj = ObjMacro AviRestObjMacro | ObjJson jval

record RestOp =
  op_Path :: string
  op_Method :: RestMethod
  op_Obj :: RestObj
  op_Tenant :: string
  op_PatchOp :: string
  op_Response :: jval
  op_Err :: "go_error option"
  op_Model :: string
  op_Version :: string

record ServiceMetadataObj =
  CrudHashKey_field :: string

record NamespaceName =
  nn_Namespace :: string
  nn_Name :: string

record AviPoolMetaServer =
  ms_Ip :: IPAddr
  ms_ServerNode :: string

record K8sAviPoolMeta =
  pm_Name :: string
  pm_Tenant :: string
  pm_ServiceMetadata :: ServiceMetadataObj
  pm_CloudConfigCksum :: string
  pm_Port :: int32
  pm_Servers :: "AviPoolMetaServer list"
  pm_Protocol :: string

record AviPortProtocol =
  pp_Port :: int32
  pp_Protocol :: string

record AviPortStrProtocol =
  psp_Port :: string
  psp_Protocol :: string

record AviHostPathPortPoolPG =
  hpp_Host :: string
  hpp_Path :: string
  hpp_Port :: uint32
  hpp_Pool :: string
  hpp_PoolGroup :: string

text \<open>\<open>vm_PoolMap\<close> is a Go map, listed in insertion order without repeated keys.\<close>

record K8sAviVsMeta =
  vm_Name :: string
  vm_Tenant :: string
  vm_ServiceMetadata :: ServiceMetadataObj
  vm_ApplicationProfile :: string
  vm_NetworkProfile :: string
  vm_PortProto :: "AviPortProtocol list"
  vm_PoolMap :: "(AviPortProtocol \<times> string) list"
  vm_DefaultPool :: string
  vm_EastWest :: bool
  vm_CloudConfigCksum :: string

record AviPoolCache =
  pc_Name :: string
  pc_Tenant :: string
  pc_Uuid :: string
  pc_LbAlgorithm :: string
  pc_ServiceMetadata :: ServiceMetadataObj
  pc_CloudConfigCksum :: string

record AviVsCache =
  vc_Name :: string
  vc_Tenant :: string
  vc_Uuid :: string
  vc_ServiceMetadata :: ServiceMetadataObj
  vc_CloudConfigCksum :: string

record AviHttpPolicySetMeta =
  hm_Name :: string
  hm_Tenant :: string
  hm_CloudConfigCksum :: string
  hm_HppMap :: "AviHostPathPortPoolPG list"

text \<open>
  The dynamic types of the \<^verbatim>\<open>interface{}\<close> keys and values the caches hold; code that reads one
  asserts its type and handles the failure.
\<close>

datatype iface =
    IStr string
  | INsName NamespaceName
  | IPool AviPoolCache
  | IVs AviVsCache

text \<open>\<^verbatim>\<open>pkg/utils/avi_obj_cache.go\<close>\<close>

record AviObjCache =
  VsCache :: "(iface, iface) AviCache"
  PgCache :: "(iface, iface) AviCache"
  PoolCache :: "(iface, iface) AviCache"

definition NewAviObjCache :: AviObjCache where
  "NewAviObjCache = \<lparr>VsCache = NewAviCache, PgCache = NewAviCache, PoolCache = NewAviCache\<rparr>"

text \<open>\<^verbatim>\<open>json.Marshal(&ServiceMetadataObj)\<close>\<close>

definition marshal_metadata :: "ServiceMetadataObj \<Rightarrow> string" where
  "marshal_metadata m = json_member ''crud_hash_key'' (CrudHashKey_field m)"

abbreviation nsname :: "string \<Rightarrow> string \<Rightarrow> iface" where
  "nsname ns n \<equiv> INsName \<lparr>nn_Namespace = ns, nn_Name = n\<rparr>"

end
