(* ===== verification/Avi_Utils.thy ===== *)
theory Avi_Utils
  imports Go_Net Avi_Types
begin

text \<open>
  \<^verbatim>\<open>pkg/utils/utils.go\<close>: classifying addresses, ports and URLs, and the hash key of an object.
\<close>

definition IsV4 :: "string \<Rightarrow> bool" where
  "IsV4 addr = (let ip = ParseIP addr; v4 = To4 ip in if v4 = None then False else True)"

definition IsSvcHttp :: "string \<Rightarrow> int32 \<Rightarrow> bool" where
  "IsSvcHttp svc_name port =
     (if svc_name = ''http'' then True
      else if HasPrefix svc_name ''http-'' then True
      else if port = 80 \<or> port = 443 \<or> port = 8080 \<or> port = 8443 then True
      else False)"

text \<open>
  \<open>AviUrlToObjType\<close> indexes the third piece of the path without checking that there is one.
\<close>

definition AviUrlToObjType :: "string \<Rightarrow> (go_error + string) go" where
  "AviUrlToObjType aviurl =
     (case url_EscapedPath aviurl of
        None \<Rightarrow> Ok (Inl (ErrorString ''parse''))
      | Some path \<Rightarrow>
          (let elems = Split ''/'' path
           in go_bind (go_index elems 2) (\<lambda>t. Ok (Inr t))))"

definition CrudHashKey :: "string \<Rightarrow> k8s_obj \<Rightarrow> string go" where
  "CrudHashKey obj_type obj =
     (if obj_type = ''Endpoints'' then
        (case obj of KEndpoints ep \<Rightarrow> Ok (ep_Namespace ep @ '':'' @ ep_Name ep)
                   | _ \<Rightarrow> Panic TypeAssertionFailed)
      else if obj_type = ''Service'' then
        (case obj of KService svc \<Rightarrow> Ok (svc_Namespace svc @ '':'' @ svc_Name svc)
                   | _ \<Rightarrow> Panic TypeAssertionFailed)
      else if obj_type = ''Ingress'' then
        (case obj of KIngress ing \<Rightarrow> Ok (ing_Namespace ing @ '':'' @ ing_Name ing)
                   | _ \<Rightarrow> Panic TypeAssertionFailed)
      else Ok '':'')"

text \<open>
  The shape of the URLs the controller gives its objects, with a host, type and identifier
  made of letters, digits, hyphens, underscores and dots.
\<close>

definition url_plain :: "string \<Rightarrow> bool" where
  "url_plain s \<longleftrightarrow> (\<forall>c \<in> set s. is_alnum c \<or> c \<in> set ''-_.'')"

definition avi_url :: "string \<Rightarrow> string \<Rightarrow> string \<Rightarrow> string" where
  "avi_url host t uuid = ''https://'' @ host @ ''/api/'' @ t @ ''/'' @ uuid"

section \<open>Addresses\<close>

text \<open>A dotted quad of four decimal octets is classified as IPv4, whatever the octets.\<close>

definition dotted :: "nat \<Rightarrow> nat \<Rightarrow> nat \<Rightarrow> nat \<Rightarrow> string" where
  "dotted a b c d = nat_to_string a @ ''.'' @ nat_to_string b @ ''.'' @ nat_to_string c
     @ ''.'' @ nat_to_string d"

lemma digit_val_dot [simp]: "digit_val CHR ''.'' = None"
  by (simp add: digit_val_def upt_rec)

lemma digit_val_digits: "c \<in> set ''0123456789'' \<Longrightarrow> digit_val c \<noteq> None"
  by (auto simp: digit_val_def upt_rec)

lemma nat_to_string_digit_val: "c \<in> set (nat_to_string n) \<Longrightarrow> digit_val c \<noteq> None"
  using nat_to_string_digits [of n] digit_val_digits by blast

lemma digits_nat_snoc: "digits_nat (s @ [c]) = digits_nat s * 10 + (case digit_val c of Some d \<Rightarrow> d | None \<Rightarrow> 0)"
  by (simp add: digits_nat_def)

lemma digits_nat_to_string: "digits_nat (nat_to_string n) = n"
proof (induction n rule: nat_to_string.induct)
  case (1 n)
  show ?case
  proof (cases "n < 10")
    case True
    then show ?thesis by (subst nat_to_string.simps) (simp add: digits_nat_def)
  next
    case False
    with 1 show ?thesis by (subst nat_to_string.simps) (simp add: digits_nat_snoc)
  qed
qed

text \<open>Reading a printed number stops at a character that is no digit.\<close>

lemma dtoi_nat_to_string:
  assumes "n < 16777215" and "r = [] \<or> digit_val (hd r) = None"
  shows "dtoi (nat_to_string n @ r) = Some (n, r)"
proof -
  have "span_digits (nat_to_string n @ r) = (nat_to_string n, r)"
    using assms(2) nat_to_string_digit_val [of _ n] unfolding span_digits_def
    by (cases r) (auto simp: takeWhile_append2 dropWhile_append2 simp del: not_None_eq)
  with assms(1) show ?thesis by (simp add: dtoi_def digits_nat_to_string)
qed

lemma octets_first:
  assumes "v \<le> 255" "r = [] \<or> digit_val (hd r) = None"
  shows "octets (Suc n) True (nat_to_string v @ r) = map_option ((#) v) (octets n False r)"
proof -
  have "dtoi (nat_to_string v @ r) = Some (v, r)"
    using assms by (intro dtoi_nat_to_string) auto
  moreover have "nat_to_string v @ r \<noteq> []" by simp
  ultimately show ?thesis using assms(1) by (auto split: list.splits)
qed

lemma octets_next:
  assumes "v \<le> 255" "r = [] \<or> digit_val (hd r) = None"
  shows "octets (Suc n) False (CHR ''.'' # nat_to_string v @ r) = map_option ((#) v) (octets n False r)"
  using dtoi_nat_to_string [of v r] assms by simp

lemma parseIPv4_dotted:
  "a \<le> 255 \<Longrightarrow> b \<le> 255 \<Longrightarrow> c \<le> 255 \<Longrightarrow> d \<le> 255 \<Longrightarrow> parseIPv4 (dotted a b c d) = Some [a, b, c, d]"
  using octets_next [of d "[]"]
  by (simp add: parseIPv4_def dotted_def numeral_eq_Suc octets_first octets_next del: octets.simps(2))

lemma ParseIP_from_digits:
  "\<forall>c \<in> set p. digit_val c \<noteq> None \<Longrightarrow>
   ParseIP_from s (p @ CHR ''.'' # r) = map_option v4_in_v6 (parseIPv4 s)"
  by (induction p) (auto simp: digit_val_def upt_rec split: if_splits)

lemma IsV4_dotted:
  assumes "a \<le> 255" "b \<le> 255" "c \<le> 255" "d \<le> 255"
  shows "IsV4 (dotted a b c d)"
proof -
  have "ParseIP (dotted a b c d) = Some (v4_in_v6 [a, b, c, d])"
    using ParseIP_from_digits [of "nat_to_string a"] nat_to_string_digit_val [of _ a] assms
      parseIPv4_dotted [of a b c d]
    by (simp add: ParseIP_def dotted_def)
  then show ?thesis
    by (simp add: IsV4_def To4_def v4_in_v6_def numeral_eq_Suc)
qed

section \<open>URLs\<close>

lemma plain_chars:
  "list_all (\<lambda>c. c \<notin> set ''#?/%@:['' \<and> 32 \<le> byte c \<and> byte c < 127)
    ''abcdefghijklmnopqrstuvwxyzABCDEFGHIJKLMNOPQRSTUVWXYZ0123456789-_.''"
  by (simp add: byte_def)

lemma plain_char:
  assumes "is_alnum c \<or> c \<in> set ''-_.''"
  shows "c \<notin> set ''#?/%@:['' \<and> 32 \<le> byte c \<and> byte c < 127 \<and> \<not> shouldEscape c m"
proof -
  have "c \<in> set ''abcdefghijklmnopqrstuvwxyzABCDEFGHIJKLMNOPQRSTUVWXYZ0123456789-_.''"
    using assms unfolding is_alnum_def by auto
  moreover have "\<not> shouldEscape c m"
  proof (cases "is_alnum c")
    case False
    with assms have "c \<in> set ''-_.''" by blast
    then have "c \<in> set ''-_.~''" by auto
    then show ?thesis by (simp only: shouldEscape_def if_True if_cancel simp_thms)
  qed (simp add: shouldEscape_def)
  ultimately show ?thesis
    using plain_chars unfolding list_all_iff by blast
qed

lemma url_plain_Cons:
  "url_plain (c # s) \<longleftrightarrow> (is_alnum c \<or> c \<in> set ''-_.'') \<and> url_plain s"
  by (simp add: url_plain_def)

lemma url_unescape_plain: "url_plain s \<Longrightarrow> url_unescape m s = Some s"
proof (induction s)
  case (Cons c s)
  then have "is_alnum c \<or> c \<in> set ''-_.''" "url_plain s" by (simp_all add: url_plain_Cons)
  with Cons.IH plain_char [of c m] show ?case by simp
qed simp

lemma url_unescape_path:
  "\<forall>c \<in> set s. c \<noteq> CHR ''%'' \<Longrightarrow> url_unescape EncodePath s = Some s"
  by (induction s) auto

lemma escape_path_id: "\<forall>c \<in> set s. \<not> shouldEscape c EncodePath \<Longrightarrow> escape_path s = s"
  unfolding escape_path_def by (induction s) auto

lemma url_split_absent: "c \<notin> set s \<Longrightarrow> url_split s c b = (s, [])"
proof -
  assume "c \<notin> set s"
  then have "dropWhile (\<lambda>d. d \<noteq> c) s = []" by (auto simp: dropWhile_eq_Nil_conv)
  then show ?thesis by (simp only: url_split_def list.case)
qed

lemma url_split_at: "c \<notin> set s \<Longrightarrow> url_split (s @ c # r) c b = (s, if b then r else c # r)"
proof -
  assume "c \<notin> set s"
  then have "dropWhile (\<lambda>d. d \<noteq> c) (s @ c # r) = c # r" "takeWhile (\<lambda>d. d \<noteq> c) (s @ c # r) = s"
    by (induction s) auto
  then show ?thesis by (simp add: url_split_def)
qed

lemma url_plain_notin:
  "url_plain s \<Longrightarrow> c \<in> set ''#?/%@:['' \<Longrightarrow> c \<notin> set s"
  using plain_char [of c EncodePath] by (auto simp only: url_plain_def)

lemma url_authority_plain: "url_plain h \<Longrightarrow> url_authority_ok h"
proof -
  assume h: "url_plain h"
  have "CHR ''@'' \<notin> set h" "CHR ''['' \<notin> set h"
    by (rule url_plain_notin [OF h], simp)+
  then have "last_split h (CHR ''@'') = None" "\<not> prefix ''['' h"
    by (auto simp: last_split_def prefix_def)
  with url_unescape_plain [OF h] show ?thesis
    by (simp add: url_authority_ok_def url_host_ok_def)
qed

lemma escaped_path_plain:
  assumes "\<forall>c \<in> set p. c = CHR ''/'' \<or> is_alnum c \<or> c \<in> set ''-_.''" "p \<noteq> ''*''"
  shows "escaped_path p = Some p"
proof -
  have "\<forall>c \<in> set p. c \<noteq> CHR ''%'' \<and> \<not> shouldEscape c EncodePath"
  proof
    fix c assume "c \<in> set p"
    with assms(1) have "c = CHR ''/'' \<or> (is_alnum c \<or> c \<in> set ''-_.'')" by blast
    then show "c \<noteq> CHR ''%'' \<and> \<not> shouldEscape c EncodePath"
    proof
      assume "is_alnum c \<or> c \<in> set ''-_.''"
      from plain_char [OF this] show ?thesis by auto
    qed (simp add: shouldEscape_def)
  qed
  with assms(2) show ?thesis
    by (simp add: escaped_path_def url_unescape_path escape_path_id)
qed

lemma getscheme_https: "getscheme_from raw [] (''https:'' @ r) = Some (''https'', r)"
  by (simp add: is_alnum_def digit_val_def upt_rec)

lemma avi_path_chars:
  assumes "url_plain t" "url_plain uuid"
  shows "\<forall>c \<in> set (''/api/'' @ t @ ''/'' @ uuid). c = CHR ''/'' \<or> is_alnum c \<or> c \<in> set ''-_.''"
proof -
  have "\<forall>c \<in> set ''/api/''. c = CHR ''/'' \<or> is_alnum c" by (simp add: is_alnum_def)
  with assms show ?thesis by (simp only: url_plain_def set_append ball_Un) auto
qed

lemma avi_url_chars:
  assumes "url_plain host" "url_plain t" "url_plain uuid" "c \<in> set (avi_url host t uuid)"
  shows "c \<noteq> CHR ''#'' \<and> c \<noteq> CHR ''?'' \<and> 32 \<le> byte c \<and> byte c \<noteq> 127"
proof -
  have https: "\<forall>c \<in> set ''https://''. c = CHR ''/'' \<or> c = CHR '':'' \<or> is_alnum c"
    by (simp add: is_alnum_def)
  from assms(4) consider "c \<in> set ''https://''" | "c \<in> set host" | "c \<in> set (''/api/'' @ t @ ''/'' @ uuid)"
    by (auto simp: avi_url_def)
  then have "c = CHR '':'' \<or> c = CHR ''/'' \<or> (is_alnum c \<or> c \<in> set ''-_.'')"
    by cases (use https assms(1) avi_path_chars [OF assms(2,3)] in \<open>unfold url_plain_def, blast\<close>)+
  then show ?thesis
    using plain_char [of c EncodePath] by (elim disjE) (auto simp: byte_def)
qed

lemma url_EscapedPath_avi:
  assumes "url_plain host" "url_plain t" "url_plain uuid"
  shows "url_EscapedPath (avi_url host t uuid) = Some (''/api/'' @ t @ ''/'' @ uuid)"
proof -
  let ?p = "''/api/'' @ t @ ''/'' @ uuid"
  let ?u = "avi_url host t uuid"
  have parts: "\<forall>c \<in> set ?p. c = CHR ''/'' \<or> is_alnum c \<or> c \<in> set ''-_.''"
    using assms(2,3) by (rule avi_path_chars)
  have c: "\<forall>c \<in> set ?u. c \<noteq> CHR ''#'' \<and> c \<noteq> CHR ''?'' \<and> 32 \<le> byte c \<and> byte c \<noteq> 127"
    using avi_url_chars [OF assms] by blast
  have "url_split ?u CHR ''#'' True = (?u, [])"
    by (rule url_split_absent) (use c in auto)
  moreover have "getscheme_from ?u [] ?u = Some (''https'', ''//'' @ host @ ?p)"
    using getscheme_https [of ?u "''//'' @ host @ ?p"] by (simp add: avi_url_def)
  moreover have "cut_query (''//'' @ host @ ?p) = ''//'' @ host @ ?p"
  proof -
    have "CHR ''?'' \<notin> set ?u" using c by blast
    then have "CHR ''?'' \<notin> set (''//'' @ host @ ?p)" by (simp add: avi_url_def)
    from url_split_absent [OF this, of True] show ?thesis
      unfolding cut_query_def by (simp only: fst_conv)
  qed
  moreover have "url_parse_rest ''https'' (''//'' @ host @ ?p) = Some ?p"
    using url_split_at [of "CHR ''/''" host "''api/'' @ t @ ''/'' @ uuid" False]
      url_plain_notin [OF assms(1), of "CHR ''/''"] url_authority_plain [OF assms(1)] escaped_path_plain [OF parts]
    by (simp add: url_parse_rest_def)
  moreover have "?u \<noteq> ''*''" by (simp add: avi_url_def)
  ultimately show ?thesis
    using c by (fastforce simp: url_EscapedPath_def not_le [symmetric])
qed

lemma AviUrlToObjType_avi:
  assumes "url_plain host" "url_plain t" "url_plain uuid"
  shows "AviUrlToObjType (avi_url host t uuid) = Ok (Inr t)"
proof -
  have "CHR ''/'' \<notin> set t" using url_plain_notin [OF assms(2)] by simp
  then have "Split ''/'' (''/api/'' @ t @ ''/'' @ uuid) = [] # ''api'' # t # Split ''/'' uuid"
    using Split_char [of "CHR ''/''" "[]"] Split_char [of "CHR ''/''" "''api''"] Split_char [of "CHR ''/''" t uuid] by simp
  with url_EscapedPath_avi [OF assms] show ?thesis
    by (simp add: AviUrlToObjType_def go_index_def)
qed

section \<open>Properties\<close>

text \<open>
  The type read from a URL of the controller is the path element after \<^verbatim>\<open>/api/\<close>, whatever
  the host and the identifier.
\<close>

theorem AviUrlToObjType_reads_type:
  assumes "url_plain host" "url_plain t" "url_plain uuid"
  shows "AviUrlToObjType (avi_url host t uuid) = Ok (Inr t)"
  by (rule AviUrlToObjType_avi) (rule assms)+

theorem AviUrlToObjType_reads_type_witness:
  "AviUrlToObjType (avi_url ''10.10.1.1'' ''pool'' ''pool-1f'') = Ok (Inr ''pool'')"
  by (rule AviUrlToObjType_reads_type) (simp_all add: url_plain_def is_alnum_def)

end
