(* ===== verification/Avi_Rest.thy ===== *)
theory Avi_Rest
  imports Avi_Utils
begin

text \<open>
  \<^verbatim>\<open>pkg/utils/avi_rest_utils.go\<close>: the pool of REST clients and \<open>AviRestOperate\<close>, which sends a
  batch of operations and stops at the first that fails.

  The Avi controller behind the SDK session is the environment of the program: the record
  \<open>AviApi\<close> holds what each session method does to it, for an arbitrary type \<open>'w\<close> of
  controller states. A method returns its error and, when it decoded a response body, the
  value it stored through the response pointer (the session leaves the pointer alone when
  the request fails or the body is empty). A session method may read the session's tenant and
  version, which \<open>SetTenant\<close> and \<open>SetVersion\<close> write.

  \<open>logged\<close> turns any controller into one that also records the requests it was sent, in
  order; statements about which requests the code sends are statements about \<open>logged\<close>.
\<close>

record AviSession =
  sess_tenant :: string
  sess_version :: string

record 'w AviApi =
  api_Post :: "AviSession \<Rightarrow> string \<Rightarrow> RestObj \<Rightarrow> 'w \<Rightarrow> (go_error option \<times> jval option) \<times> 'w"
  api_Put :: "AviSession \<Rightarrow> string \<Rightarrow> RestObj \<Rightarrow> 'w \<Rightarrow> (go_error option \<times> jval option) \<times> 'w"
  api_Get :: "AviSession \<Rightarrow> string \<Rightarrow> 'w \<Rightarrow> (go_error option \<times> jval option) \<times> 'w"
  api_Patch :: "AviSession \<Rightarrow> string \<Rightarrow> RestObj \<Rightarrow> string \<Rightarrow> 'w \<Rightarrow> (go_error option \<times> jval option) \<times> 'w"
  api_Delete :: "AviSession \<Rightarrow> string \<Rightarrow> RestObj option \<Rightarrow> 'w \<Rightarrow> go_error option \<times> 'w"
  api_GetObjectByName :: "AviSession \<Rightarrow> string \<Rightarrow> string \<Rightarrow> 'w \<Rightarrow> (go_error option \<times> jval option) \<times> 'w"

definition SetTenant :: "string \<Rightarrow> AviSession \<Rightarrow> AviSession" where
  "SetTenant tenant sess = sess\<lparr>sess_tenant := tenant\<rparr>"

definition SetVersion :: "string \<Rightarrow> AviSession \<Rightarrow> AviSession" where
  "SetVersion version sess = sess\<lparr>sess_version := version\<rparr>"

section \<open>The client pool\<close>

text \<open>
  \<open>new_client i\<close> stands for the i-th call of \<^verbatim>\<open>clients.NewAviClient\<close>, which logs in to the
  controller: the session it returns, or its error. The clients made before a failure are
  returned with the error.
\<close>

fun new_clients :: "(nat \<Rightarrow> go_error + AviSession) \<Rightarrow> nat \<Rightarrow> nat \<Rightarrow> AviSession list \<times> go_error option" where
  "new_clients new_client i 0 = ([], None)"
| "new_clients new_client i (Suc n) =
     (case new_client i of
        Inl err \<Rightarrow> ([], Some err)
      | Inr c \<Rightarrow> (case new_clients new_client (Suc i) n of (cs, err) \<Rightarrow> (c # cs, err)))"

definition NewAviRestClientPool ::
  "(nat \<Rightarrow> go_error + AviSession) \<Rightarrow> uint32 \<Rightarrow> AviSession list \<times> go_error option" where
  "NewAviRestClientPool new_client num = new_clients new_client 0 (unat num)"

section \<open>AviRestOperate\<close>

text \<open>One operation: the method selects the call; the response is stored when there is one.\<close>

definition store_response :: "RestOp \<Rightarrow> go_error option \<times> jval option \<Rightarrow> RestOp" where
  "store_response op r =
     (case r of (err, resp) \<Rightarrow>
        (case resp of None \<Rightarrow> op\<lparr>op_Err := err\<rparr> | Some v \<Rightarrow> op\<lparr>op_Err := err, op_Response := v\<rparr>))"

definition rest_call :: "'w AviApi \<Rightarrow> AviSession \<Rightarrow> RestOp \<Rightarrow> 'w \<Rightarrow> RestOp \<times> 'w" where
  "rest_call api sess op w =
     (case op_Method op of
        RestPost \<Rightarrow> map_prod (store_response op) id (api_Post api sess (op_Path op) (op_Obj op) w)
      | RestPut \<Rightarrow> map_prod (store_response op) id (api_Put api sess (op_Path op) (op_Obj op) w)
      | RestGet \<Rightarrow> map_prod (store_response op) id (api_Get api sess (op_Path op) w)
      | RestPatch \<Rightarrow>
          map_prod (store_response op) id
            (api_Patch api sess (op_Path op) (op_Obj op) (op_PatchOp op) w)
      | RestDelete \<Rightarrow>
          map_prod (\<lambda>err. op\<lparr>op_Err := err\<rparr>) id (api_Delete api sess (op_Path op) None w)
      | RestOther m \<Rightarrow> (op\<lparr>op_Err := Some (ErrorString (''Unknown RestOp '' @ m))\<rparr>, w))"

definition aborted :: "RestOp \<Rightarrow> RestOp" where
  "aborted op = op\<lparr>op_Err := Some (ErrorString ''Aborted due to prev error'')\<rparr>"

text \<open>
  The result is the error, the operations with their outcome fields written, the session as
  the last request left it, and the controller.
\<close>

fun AviRestOperate ::
  "'w AviApi \<Rightarrow> AviSession \<Rightarrow> RestOp list \<Rightarrow> 'w \<Rightarrow>
   go_error option \<times> RestOp list \<times> AviSession \<times> 'w" where
  "AviRestOperate api sess [] w = (None, [], sess, w)"
| "AviRestOperate api sess (op # ops) w =
     (let sess1 = SetVersion (op_Version op) (SetTenant (op_Tenant op) sess);
          (op', w') = rest_call api sess1 op w
      in case op_Err op' of
           Some err \<Rightarrow> (Some err, op' # map aborted ops, sess1, w')
         | None \<Rightarrow>
             (case AviRestOperate api sess1 ops w' of (err, ops', sess', w'') \<Rightarrow>
                (err, op' # ops', sess', w'')))"

definition AviModelToUrl :: "string \<Rightarrow> string" where
  "AviModelToUrl model =
     (if model = ''Pool'' then ''/api/pool''
      else if model = ''VirtualService'' then ''/api/virtualservice''
      else '''')"

section \<open>The requests a run sends\<close>

datatype request =
    ReqPost AviSession string RestObj
  | ReqPut AviSession string RestObj
  | ReqGet AviSession string
  | ReqPatch AviSession string RestObj string
  | ReqDelete AviSession string "RestObj option"
  | ReqGetByName AviSession string string

definition logged :: "'w AviApi \<Rightarrow> ('w \<times> request list) AviApi" where
  "logged api =
     \<lparr>api_Post = (\<lambda>s p ob (w, l). case api_Post api s p ob w of (r, w') \<Rightarrow> (r, w', l @ [ReqPost s p ob])),
      api_Put = (\<lambda>s p ob (w, l). case api_Put api s p ob w of (r, w') \<Rightarrow> (r, w', l @ [ReqPut s p ob])),
      api_Get = (\<lambda>s p (w, l). case api_Get api s p w of (r, w') \<Rightarrow> (r, w', l @ [ReqGet s p])),
      api_Patch = (\<lambda>s p ob x (w, l). case api_Patch api s p ob x w of (r, w') \<Rightarrow> (r, w', l @ [ReqPatch s p ob x])),
      api_Delete = (\<lambda>s p ob (w, l). case api_Delete api s p ob w of (r, w') \<Rightarrow> (r, w', l @ [ReqDelete s p ob])),
      api_GetObjectByName = (\<lambda>s t n (w, l). case api_GetObjectByName api s t n w of (r, w') \<Rightarrow> (r, w', l @ [ReqGetByName s t n]))\<rparr>"

definition op_session :: "RestOp \<Rightarrow> AviSession \<Rightarrow> AviSession" where
  "op_session op sess = SetVersion (op_Version op) (SetTenant (op_Tenant op) sess)"

fun op_request :: "AviSession \<Rightarrow> RestOp \<Rightarrow> request list" where
  "op_request s op =
     (case op_Method op of
        RestPost \<Rightarrow> [ReqPost s (op_Path op) (op_Obj op)]
      | RestPut \<Rightarrow> [ReqPut s (op_Path op) (op_Obj op)]
      | RestGet \<Rightarrow> [ReqGet s (op_Path op)]
      | RestPatch \<Rightarrow> [ReqPatch s (op_Path op) (op_Obj op) (op_PatchOp op)]
      | RestDelete \<Rightarrow> [ReqDelete s (op_Path op) None]
      | RestOther m \<Rightarrow> [])"

text \<open>What the outcome fields leave of an operation.\<close>

definition same_request :: "RestOp \<Rightarrow> RestOp \<Rightarrow> bool" where
  "same_request op op' \<longleftrightarrow>
     op_Path op' = op_Path op \<and> op_Method op' = op_Method op \<and> op_Obj op' = op_Obj op
     \<and> op_Tenant op' = op_Tenant op \<and> op_PatchOp op' = op_PatchOp op \<and> op_Model op' = op_Model op
     \<and> op_Version op' = op_Version op"

section \<open>Lemmas\<close>

lemma new_clients_ok:
  "new_clients f i n = (cs, None) \<Longrightarrow> length cs = n"
  by (induction n arbitrary: i cs) (auto split: sum.splits prod.splits)

lemma new_clients_length: "length (fst (new_clients f i n)) \<le> n"
  by (induction n arbitrary: i) (auto split: sum.splits prod.splits, metis fst_conv)

lemma rest_call_same: "rest_call api s op w = (op', w') \<Longrightarrow> same_request op op'"
  by (auto simp: rest_call_def store_response_def same_request_def map_prod_def
      split: RestMethod.splits prod.splits option.splits)

lemma same_request_refl [simp]: "same_request op op"
  by (simp add: same_request_def)

lemma same_request_aborted [simp]: "same_request op (aborted op)"
  by (simp add: same_request_def aborted_def)

lemma AviRestOperate_same:
  "AviRestOperate api s ops w = (err, ops', s', w') \<Longrightarrow> list_all2 same_request ops ops'"
proof (induction ops arbitrary: s w err ops' s' w')
  case (Cons op ops)
  then show ?case
    by (auto simp: Let_def list.rel_map list_all2_refl dest!: rest_call_same
        split: prod.splits option.splits intro!: list.rel_refl_strong)
qed simp

lemma AviRestOperate_length:
  "AviRestOperate api s ops w = (err, ops', s', w') \<Longrightarrow> length ops' = length ops"
  by (drule AviRestOperate_same) (simp add: list_all2_lengthD)

text \<open>Without an error every operation was sent and succeeded.\<close>

lemma AviRestOperate_success:
  "AviRestOperate api s ops w = (None, ops', s', w') \<Longrightarrow> \<forall>op \<in> set ops'. op_Err op = None"
proof (induction ops arbitrary: s w ops' s' w')
  case (Cons op ops)
  then show ?case by (fastforce simp: Let_def split: prod.splits option.splits)
qed simp

text \<open>
  With an error the operations fall into three groups: those before the failed one
  succeeded, the failed one carries the error returned, those after it were not sent.
\<close>

lemma AviRestOperate_failure:
  "AviRestOperate api s ops w = (Some err, ops', s', w') \<Longrightarrow>
   \<exists>i < length ops. (\<forall>j < i. op_Err (ops' ! j) = None) \<and> op_Err (ops' ! i) = Some err
     \<and> (\<forall>j. i < j \<and> j < length ops \<longrightarrow> ops' ! j = aborted (ops ! j))"
proof (induction ops arbitrary: s w ops' s' w')
  case (Cons op ops)
  obtain op1 w1 where call: "rest_call api (op_session op s) op w = (op1, w1)" by fastforce
  show ?case
  proof (cases "op_Err op1")
    case (Some e)
    with Cons.prems call have "ops' = op1 # map aborted ops" "e = err"
      by (auto simp: op_session_def Let_def)
    with Some show ?thesis by (intro exI [of _ 0]) (auto simp: nth_Cons')
  next
    case None
    with Cons.prems call obtain rest where
      rest: "AviRestOperate api (op_session op s) ops w1 = (Some err, rest, s', w')" "ops' = op1 # rest"
      by (auto simp: op_session_def Let_def split: prod.splits)
    from Cons.IH [OF rest(1)] obtain i where i: "i < length ops"
      "\<forall>j < i. op_Err (rest ! j) = None" "op_Err (rest ! i) = Some err"
      "\<forall>j. i < j \<and> j < length ops \<longrightarrow> rest ! j = aborted (ops ! j)" by blast
    show ?thesis
    proof (intro exI [of _ "Suc i"] conjI allI impI)
      fix j assume "j < Suc i"
      with i(2) None rest(2) show "op_Err (ops' ! j) = None" by (cases j) auto
    next
      fix j assume "Suc i < j \<and> j < length (op # ops)"
      with i(4) rest(2) show "ops' ! j = aborted ((op # ops) ! j)" by (cases j) auto
    qed (use i rest(2) in auto)
  qed
qed simp

lemma rest_call_logged:
  "rest_call (logged api) s op (w, l) =
     (case rest_call api s op w of (op', w') \<Rightarrow> (op', w', l @ op_request s op))"
  by (auto simp: rest_call_def logged_def map_prod_def split: RestMethod.splits prod.splits)

lemma SetTenant_Version_last [simp]:
  "SetVersion v (SetTenant t (SetVersion v' (SetTenant t' s))) = SetVersion v (SetTenant t s)"
  by (simp add: SetVersion_def SetTenant_def)

lemma op_session_op_session [simp]: "op_session op (op_session op' s) = op_session op s"
  by (simp add: op_session_def)

text \<open>
  The requests sent are those of the operations up to and including the first that failed,
  in order, each under the tenant and version of its operation.
\<close>

lemma AviRestOperate_log:
  assumes "AviRestOperate (logged api) s ops (w, l) = (err, ops', s', (w', l'))"
  shows "l' = l @ concat (map (\<lambda>op. op_request (op_session op s) op)
           (take (Suc (length (takeWhile (\<lambda>op. op_Err op = None) ops'))) ops))"
  using assms
proof (induction ops arbitrary: s w l err ops')
  case (Cons op ops)
  obtain op1 w1 where call: "rest_call api (op_session op s) op w = (op1, w1)" by fastforce
  then have log: "rest_call (logged api) (op_session op s) op (w, l)
      = (op1, w1, l @ op_request (op_session op s) op)"
    by (simp add: rest_call_logged)
  show ?case
  proof (cases "op_Err op1")
    case (Some e)
    with Cons.prems log show ?thesis by (auto simp: op_session_def Let_def)
  next
    case None
    with Cons.prems log obtain rest where
      rest: "AviRestOperate (logged api) (op_session op s) ops (w1, l @ op_request (op_session op s) op)
        = (err, rest, s', w', l')" "ops' = op1 # rest"
      by (auto simp: op_session_def Let_def split: prod.splits)
    from Cons.IH [OF rest(1)] rest(2) None show ?thesis by simp
  qed
qed simp

text \<open>Operations that each succeed wherever they are sent succeed as a batch.\<close>

lemma AviRestOperate_all:
  assumes "\<And>op s w. op \<in> set ops \<Longrightarrow> \<exists>op' w'. rest_call api s op w = (op', w') \<and> op_Err op' = None \<and> R op op'"
  shows "\<exists>ops' s' w'. AviRestOperate api s ops w = (None, ops', s', w') \<and> list_all2 R ops ops'"
  using assms
proof (induction ops arbitrary: s w)
  case (Cons op ops)
  let ?s = "SetVersion (op_Version op) (SetTenant (op_Tenant op) s)"
  from Cons.prems [of op ?s w] obtain op1 w1 where
    "rest_call api ?s op w = (op1, w1)" "op_Err op1 = None" "R op op1" by auto
  moreover from Cons.IH [of ?s w1] Cons.prems obtain ops' s' w' where
    "AviRestOperate api ?s ops w1 = (None, ops', s', w')" "list_all2 R ops ops'" by auto
  ultimately show ?case by (auto simp: Let_def)
qed simp

lemma AviRestOperate_append:
  "AviRestOperate api s ops1 w = (None, ops1', s1, w1) \<Longrightarrow>
   AviRestOperate api s1 ops2 w1 = (e, ops2', s2, w2) \<Longrightarrow>
   AviRestOperate api s (ops1 @ ops2) w = (e, ops1' @ ops2', s2, w2)"
proof (induction ops1 arbitrary: s w ops1')
  case (Cons op ops1)
  then show ?case by (auto simp: Let_def split: prod.splits option.splits)
qed simp

lemma AviRestOperate_tenant:
  "AviRestOperate api s ops w = (err, ops', s', w') \<Longrightarrow> ops \<noteq> [] \<Longrightarrow>
   (\<And>op. op \<in> set ops \<Longrightarrow> op_Tenant op = t) \<Longrightarrow> sess_tenant s' = t"
proof (induction ops arbitrary: s w ops')
  case (Cons op ops)
  let ?s = "SetVersion (op_Version op) (SetTenant (op_Tenant op) s)"
  obtain op1 w1 where c: "rest_call api ?s op w = (op1, w1)" by fastforce
  have t: "sess_tenant ?s = t" using Cons.prems(3) by (simp add: SetVersion_def SetTenant_def)
  show ?case
  proof (cases "op_Err op1 = None \<and> ops \<noteq> []")
    case True
    with Cons.prems(1) c obtain rest where "AviRestOperate api ?s ops w1 = (err, rest, s', w')"
      by (auto simp: Let_def split: prod.splits)
    with True Cons.prems(3) show ?thesis by (intro Cons.IH) auto
  next
    case False
    with Cons.prems(1) c have "s' = ?s" by (auto simp: Let_def split: option.splits)
    with t show ?thesis by simp
  qed
qed simp

section \<open>Properties\<close>

text \<open>
  The outcome of a batch. Without an error every operation succeeded. With one, some
  operation carries the error returned, those before it succeeded and those after it are
  marked as aborted; in no case does an operation change what it asks for.
\<close>

theorem AviRestOperate_outcome:
  assumes "AviRestOperate api s ops w = (err, ops', s', w')"
  shows "list_all2 same_request ops ops'
    \<and> (case err of
         None \<Rightarrow> \<forall>op \<in> set ops'. op_Err op = None
       | Some e \<Rightarrow> \<exists>i < length ops. (\<forall>j < i. op_Err (ops' ! j) = None) \<and> op_Err (ops' ! i) = Some e
           \<and> (\<forall>j. i < j \<and> j < length ops \<longrightarrow> ops' ! j = aborted (ops ! j)))"
  using AviRestOperate_same [OF assms] assms
  by (cases err) (auto dest: AviRestOperate_success AviRestOperate_failure)

definition demo_op :: "RestMethod \<Rightarrow> RestOp" where
  "demo_op m = \<lparr>op_Path = ''/api/macro'', op_Method = m, op_Obj = ObjJson JNull, op_Tenant = ''t'',
     op_PatchOp = '''', op_Response = JNull, op_Err = None, op_Model = ''Pool'', op_Version = ''v''\<rparr>"

definition silent_api :: "unit AviApi" where
  "silent_api =
     \<lparr>api_Post = (\<lambda>s p ob w. ((None, None), w)), api_Put = (\<lambda>s p ob w. ((None, None), w)),
      api_Get = (\<lambda>s p w. ((None, None), w)), api_Patch = (\<lambda>s p ob x w. ((None, None), w)),
      api_Delete = (\<lambda>s p ob w. (None, w)), api_GetObjectByName = (\<lambda>s t n w. ((None, None), w))\<rparr>"

theorem AviRestOperate_outcome_witness:
  "\<exists>ops' s' w'. AviRestOperate silent_api \<lparr>sess_tenant = '''', sess_version = ''''\<rparr>
      [demo_op RestPost, demo_op (RestOther ''HEAD''), demo_op RestPost] ()
      = (Some (ErrorString ''Unknown RestOp HEAD''), ops', s', w')
    \<and> list_all2 same_request [demo_op RestPost, demo_op (RestOther ''HEAD''), demo_op RestPost] ops'"
proof -
  obtain ops' s' w' where r: "AviRestOperate silent_api \<lparr>sess_tenant = '''', sess_version = ''''\<rparr>
      [demo_op RestPost, demo_op (RestOther ''HEAD''), demo_op RestPost] ()
      = (Some (ErrorString ''Unknown RestOp HEAD''), ops', s', w')"
    by (simp add: rest_call_def store_response_def demo_op_def silent_api_def Let_def)
  from AviRestOperate_outcome [OF r] r show ?thesis by blast
qed

text \<open>
  C28: the requests a batch sends are those of its operations up to and including the first
  that failed, in order, each under the tenant and version of its operation.
\<close>

theorem AviRestOperate_requests:
  assumes "AviRestOperate (logged api) s ops (w, l) = (err, ops', s', (w', l'))"
  shows "l' = l @ concat (map (\<lambda>op. op_request (op_session op s) op)
           (take (Suc (length (takeWhile (\<lambda>op. op_Err op = None) ops'))) ops))"
  by (rule AviRestOperate_log) (rule assms)

theorem AviRestOperate_requests_witness:
  "\<exists>err ops' s' w' l'. AviRestOperate (logged silent_api) \<lparr>sess_tenant = '''', sess_version = ''''\<rparr>
      [demo_op RestPost, demo_op (RestOther ''HEAD''), demo_op RestPost] ((), []) = (err, ops', s', (w', l'))
    \<and> l' = [ReqPost \<lparr>sess_tenant = ''t'', sess_version = ''v''\<rparr> ''/api/macro'' (ObjJson JNull)]"
proof -
  obtain err ops' s' w' l' where r: "AviRestOperate (logged silent_api) \<lparr>sess_tenant = '''', sess_version = ''''\<rparr>
      [demo_op RestPost, demo_op (RestOther ''HEAD''), demo_op RestPost] ((), []) = (err, ops', s', (w', l'))"
    and e: "map (\<lambda>op. op_Err op = None) ops' = [True, False, False]"
    by (simp add: rest_call_def store_response_def demo_op_def silent_api_def logged_def aborted_def Let_def)
  from e have "length (takeWhile (\<lambda>op. op_Err op = None) ops') = 1" by auto
  with AviRestOperate_requests [OF r] have "l' = [ReqPost \<lparr>sess_tenant = ''t'', sess_version = ''v''\<rparr> ''/api/macro'' (ObjJson JNull)]"
    by (simp add: demo_op_def op_session_def SetVersion_def SetTenant_def)
  with r show ?thesis by blast
qed

lemma new_clients_error:
  "new_clients f i n = (cs, Some err) \<Longrightarrow> \<exists>j < i + n. f j = Inl err"
proof (induction n arbitrary: i cs)
  case (Suc n)
  show ?case
  proof (cases "f i")
    case (Inl e)
    with Suc.prems show ?thesis by (intro exI [of _ i]) simp
  next
    case (Inr c)
    with Suc.prems obtain cs' where "new_clients f (Suc i) n = (cs', Some err)" by (auto split: prod.splits)
    from Suc.IH [OF this] show ?thesis by auto
  qed
qed simp

text \<open>
  The pool never has more clients than asked for, and has all of them when no login
  failed.
\<close>

theorem NewAviRestClientPool_size:
  "length (fst (NewAviRestClientPool new_client num)) \<le> unat num
   \<and> (case NewAviRestClientPool new_client num of
        (clients, None) \<Rightarrow> length clients = unat num
      | (clients, Some err) \<Rightarrow> \<exists>i < unat num. new_client i = Inl err)"
  using new_clients_length [of new_client 0 "unat num"] new_clients_ok [of new_client 0 "unat num"]
    new_clients_error [of new_client 0 "unat num"]
  by (fastforce simp: NewAviRestClientPool_def split: prod.splits option.splits)

end
