(* ===== verification/Avi_Objects.thy ===== *)
theory Avi_Objects
  imports Avi_Rest
begin

text \<open>
  The package \<^verbatim>\<open>aviobjects\<close>: building the REST operations that create pools, virtual services
  and HTTP policy sets, and recording the controller's responses in the object caches.

  \<open>version\<close> is the package variable \<^verbatim>\<open>CtrlVersion\<close>, read once from the environment by
  \<open>CtrlVersion_init\<close>. The \<^verbatim>\<open>range\<close> over \<^verbatim>\<open>PoolMap\<close> takes its visiting order as an argument.
\<close>

section \<open>avi_obj_httpps.go\<close>

text \<open>\<^verbatim>\<open>os.Getenv\<close> returns the empty string for a variable that is not set.\<close>

definition CtrlVersion_init :: "(string \<Rightarrow> string) \<Rightarrow> string" where
  "CtrlVersion_init getenv =
     (if getenv ''CTRL_VERSION'' = '''' then ''19.1.1'' else getenv ''CTRL_VERSION'')"

definition tenant_ref :: "string \<Rightarrow> string" where
  "tenant_ref tenant = ''/api/tenant/?name='' @ tenant"

definition build_match :: "AviHostPathPortPoolPG \<Rightarrow> MatchTarget" where
  "build_match hppmap =
     \<lparr>mt_HostHdr = (if hpp_Host hppmap \<noteq> '''' then
          Some \<lparr>hhm_MatchCriteria = ''HDR_EQUALS'', hhm_Value = [hpp_Host hppmap]\<rparr> else None),
      mt_Path = (if hpp_Path hppmap \<noteq> '''' then
          Some \<lparr>pathm_MatchCriteria = ''BEGINS_WITH'', pathm_MatchStr = [hpp_Path hppmap]\<rparr> else None),
      mt_VsPort = (if hpp_Port hppmap \<noteq> 0 then
          Some \<lparr>portm_MatchCriteria = ''IS_IN'', portm_Ports = [ucast (hpp_Port hppmap)]\<rparr> else None)\<rparr>"

definition build_switching :: "AviHostPathPortPoolPG \<Rightarrow> HttpswitchingAction" where
  "build_switching hppmap =
     (if hpp_Pool hppmap \<noteq> '''' then
        \<lparr>sw_Action = Some ''HTTP_SWITCHING_SELECT_POOL'',
         sw_PoolRef = Some (''/api/pool/?name='' @ hpp_Pool hppmap), sw_PoolGroupRef = None\<rparr>
      else if hpp_PoolGroup hppmap \<noteq> '''' then
        \<lparr>sw_Action = Some ''HTTP_SWITCHING_SELECT_POOLGROUP'', sw_PoolRef = None,
         sw_PoolGroupRef = Some (''/api/poolgroupl/?name='' @ hpp_PoolGroup hppmap)\<rparr>
      else \<lparr>sw_Action = None, sw_PoolRef = None, sw_PoolGroupRef = None\<rparr>)"

text \<open>
  Every rule stores \<^verbatim>\<open>&idx\<close>, the address of the one counter the loop increments. The loop
  returns the rules, each as a function of what the counter finally holds, and the counter.
\<close>

fun build_rules ::
  "string \<Rightarrow> int32 \<Rightarrow> AviHostPathPortPoolPG list \<Rightarrow> (int32 \<Rightarrow> HTTPRequestRule) list \<times> int32" where
  "build_rules nm idx [] = ([], idx)"
| "build_rules nm idx (hppmap # hpps) =
     (let rule = (\<lambda>counter. \<lparr>rule_Enable = True, rule_Index = counter,
                    rule_Name = nm @ ''-'' @ Itoa (sint idx),
                    rule_Match = build_match hppmap,
                    rule_SwitchingAction = build_switching hppmap\<rparr>);
          (rules, idx') = build_rules nm (idx + 1) hpps
      in (rule # rules, idx'))"

definition AviHttpPSBuild :: "string \<Rightarrow> AviHttpPolicySetMeta \<Rightarrow> RestOp" where
  "AviHttpPSBuild version hps_meta =
     (let (rules, idx) = build_rules (hm_Name hps_meta) 0 (hm_HppMap hps_meta);
          http_req_pol = \<lparr>hrp_Rules = map (\<lambda>r. r idx) rules\<rparr>;
          hps = \<lparr>hps_Name = Some (hm_Name hps_meta),
                 hps_CloudConfigCksum = Some (hm_CloudConfigCksum hps_meta),
                 hps_CreatedBy = Some OSHIFT_K8S_CLOUD_CONNECTOR,
                 hps_TenantRef = Some (tenant_ref (hm_Tenant hps_meta)),
                 hps_HTTPRequestPolicy = Some http_req_pol\<rparr>;
          macro = \<lparr>macro_ModelName = ''HTTPRequestPolicy'', macro_Data = DataHTTPPolicySet hps\<rparr>
      in \<lparr>op_Path = ''/api/macro'', op_Method = RestPost, op_Obj = ObjMacro macro,
          op_Tenant = hm_Tenant hps_meta, op_PatchOp = '''', op_Response = JNull, op_Err = None,
          op_Model = ''HTTPRequestPolicy'', op_Version = version\<rparr>)"

section \<open>avi_obj_pool.go\<close>

definition build_server :: "int32 \<Rightarrow> AviPoolMetaServer \<Rightarrow> Server" where
  "build_server port server =
     \<lparr>srv_IP = Some (ms_Ip server), srv_Port = Some port,
      srv_ServerNode = (if ms_ServerNode server \<noteq> '''' then Some (ms_ServerNode server) else None)\<rparr>"

definition AviPoolBuild :: "string \<Rightarrow> K8sAviPoolMeta \<Rightarrow> RestOp" where
  "AviPoolBuild version pool_meta =
     (let hm = (if pm_Protocol pool_meta = ''udp''
                then ''/api/healthmonitor/?name='' @ AVI_DEFAULT_UDP_HM
                else ''/api/healthmonitor/?name='' @ AVI_DEFAULT_TCP_HM);
          pool = \<lparr>pool_Name = Some (pm_Name pool_meta),
                  pool_CloudConfigCksum = Some (pm_CloudConfigCksum pool_meta),
                  pool_CreatedBy = Some OSHIFT_K8S_CLOUD_CONNECTOR,
                  pool_TenantRef = Some (tenant_ref (pm_Tenant pool_meta)),
                  pool_ServiceMetadata = Some (marshal_metadata (pm_ServiceMetadata pool_meta)),
                  pool_Servers = map (build_server (pm_Port pool_meta)) (pm_Servers pool_meta),
                  pool_HealthMonitorRefs = [hm]\<rparr>;
          macro = \<lparr>macro_ModelName = ''Pool'', macro_Data = DataPool pool\<rparr>
      in \<lparr>op_Path = ''/api/macro'', op_Method = RestPost, op_Obj = ObjMacro macro,
          op_Tenant = pm_Tenant pool_meta, op_PatchOp = '''', op_Response = JNull, op_Err = None,
          op_Model = ''Pool'', op_Version = version\<rparr>)"

text \<open>\<^verbatim>\<open>m[k]\<close> on a decoded object (\<^verbatim>\<open>nil\<close> when absent), and the assertion \<^verbatim>\<open>.(string)\<close>.\<close>

definition jget :: "(string \<times> jval) list \<Rightarrow> string \<Rightarrow> jval" where
  "jget m k = (case map_of m k of None \<Rightarrow> JNull | Some v \<Rightarrow> v)"

definition jstring :: "jval \<Rightarrow> string option" where
  "jstring v = (case v of JStr s \<Rightarrow> Some s | _ \<Rightarrow> None)"

definition must_string :: "jval \<Rightarrow> string go" where
  "must_string v = (case v of JStr s \<Rightarrow> Ok s | _ \<Rightarrow> Panic TypeAssertionFailed)"

text \<open>The map is given in the order the loop visits it.\<close>

definition SvcMdataMapToObj ::
  "(string \<times> jval) list \<Rightarrow> ServiceMetadataObj \<Rightarrow> ServiceMetadataObj" where
  "SvcMdataMapToObj svc_mdata_map svc_mdata =
     fold (\<lambda>(k, val) m.
       if k = ''crud_hash_key'' then
         (case jstring val of Some crkhey \<Rightarrow> m\<lparr>CrudHashKey_field := crkhey\<rparr> | None \<Rightarrow> m)
       else m) svc_mdata_map svc_mdata"

definition empty_metadata :: ServiceMetadataObj where
  "empty_metadata = \<lparr>CrudHashKey_field = ''''\<rparr>"

text \<open>The \<^verbatim>\<open>service_metadata\<close> of a response: empty unless it is the JSON of an object.\<close>

definition decode_metadata :: "string \<Rightarrow> ServiceMetadataObj" where
  "decode_metadata s =
     (case json_Unmarshal s of
        Some (JObj m) \<Rightarrow> SvcMdataMapToObj m empty_metadata
      | _ \<Rightarrow> empty_metadata)"

definition select_resp ::
  "string \<Rightarrow> jval \<Rightarrow> (string \<times> jval) list list \<Rightarrow> (string \<times> jval) list list go" where
  "select_resp obj_type resp_elem acc =
     (case resp_elem of
        JObj resp \<Rightarrow>
          (case jstring (jget resp ''url'') of
             None \<Rightarrow> Ok acc
           | Some aurl \<Rightarrow>
               go_bind (AviUrlToObjType aurl) (\<lambda>r.
                 case r of
                   Inr avi_obj_type \<Rightarrow> Ok (if avi_obj_type = obj_type then acc @ [resp] else acc)
                 | Inl err \<Rightarrow> Ok acc))
      | _ \<Rightarrow> Ok acc)"

definition RestRespArrToObjByType ::
  "RestOp \<Rightarrow> string \<Rightarrow> (go_error + (string \<times> jval) list list) go" where
  "RestRespArrToObjByType rest_op obj_type =
     (case op_Response rest_op of
        JArr resp_arr \<Rightarrow> go_bind (go_fold (select_resp obj_type) resp_arr []) (\<lambda>es. Ok (Inr es))
      | _ \<Rightarrow> Ok (Inl (ErrorString ''Malformed response'')))"

text \<open>
  The guards the three cache updates share: an errored or empty operation, a malformed or
  irrelevant response.
\<close>

definition pool_resp_elems ::
  "RestOp \<Rightarrow> string \<Rightarrow> (go_error + (string \<times> jval) list list) go" where
  "pool_resp_elems rest_op obj_type =
     (if op_Err rest_op \<noteq> None \<or> op_Response rest_op = JNull
      then Ok (Inl (ErrorString ''Errored rest_op''))
      else go_bind (RestRespArrToObjByType rest_op obj_type) (\<lambda>r.
        case r of
          Inl err \<Rightarrow> Ok (Inl (ErrorString ''pool not found''))
        | Inr resp_elems \<Rightarrow>
            if resp_elems = [] then Ok (Inl (ErrorString ''pool not found''))
            else Ok (Inr resp_elems)))"

definition pool_cache_resp ::
  "string \<Rightarrow> (string \<times> jval) list \<Rightarrow> (iface, iface) AviCache \<Rightarrow> (iface, iface) AviCache go" where
  "pool_cache_resp tenant resp c =
     (case jstring (jget resp ''name'') of
        None \<Rightarrow> Ok c
      | Some name \<Rightarrow>
          (case jstring (jget resp ''uuid'') of
             None \<Rightarrow> Ok c
           | Some uuid \<Rightarrow>
               go_bind (must_string (jget resp ''lb_algorithm'')) (\<lambda>lb.
               go_bind (must_string (jget resp ''cloud_config_cksum'')) (\<lambda>cksum.
               go_bind (must_string (jget resp ''service_metadata'')) (\<lambda>mdata.
                 Ok (AviCacheAdd c (nsname tenant name)
                   (IPool \<lparr>pc_Name = name, pc_Tenant = tenant, pc_Uuid = uuid, pc_LbAlgorithm = lb,
                           pc_ServiceMetadata = decode_metadata mdata,
                           pc_CloudConfigCksum = cksum\<rparr>)))))))"

definition AviPoolCacheAdd ::
  "(iface, iface) AviCache \<Rightarrow> RestOp \<Rightarrow> (go_error option \<times> (iface, iface) AviCache) go" where
  "AviPoolCacheAdd pool_cache rest_op =
     go_bind (pool_resp_elems rest_op ''pool'') (\<lambda>r.
       case r of
         Inl err \<Rightarrow> Ok (Some err, pool_cache)
       | Inr resp_elems \<Rightarrow>
           go_bind (go_fold (pool_cache_resp (op_Tenant rest_op)) resp_elems pool_cache)
             (\<lambda>c. Ok (None, c)))"

definition AviPoolCacheDel ::
  "(iface, iface) AviCache \<Rightarrow> NamespaceName \<Rightarrow> (iface, iface) AviCache" where
  "AviPoolCacheDel pool_cache key = AviCacheDelete pool_cache (INsName key)"

definition svc_pool_resp ::
  "string \<Rightarrow> NamespaceName \<Rightarrow> (string \<times> jval) list \<Rightarrow> (iface, iface) AviMultiCache
   \<Rightarrow> (iface, iface) AviMultiCache" where
  "svc_pool_resp pre key resp mc =
     (case jstring (jget resp ''name'') of
        None \<Rightarrow> mc
      | Some name \<Rightarrow> AviMultiCacheAdd mc (INsName key) (IStr (pre @ ''/'' @ name)))"

definition AviSvcToPoolCacheAdd ::
  "(iface, iface) AviMultiCache \<Rightarrow> RestOp \<Rightarrow> string \<Rightarrow> NamespaceName
   \<Rightarrow> (go_error option \<times> (iface, iface) AviMultiCache) go" where
  "AviSvcToPoolCacheAdd svc_to_pool_cache rest_op pre key =
     go_bind (pool_resp_elems rest_op ''pool'') (\<lambda>r.
       case r of
         Inl err \<Rightarrow> Ok (Some err, svc_to_pool_cache)
       | Inr resp_elems \<Rightarrow> Ok (None, fold (svc_pool_resp pre key) resp_elems svc_to_pool_cache))"

text \<open>
  \<open>AviSvcToPoolCacheDel\<close> ranges over a row of the cache while deleting the entry just visited
  from it, which Go allows; the entries visited are those the row had at the start.
\<close>

definition has_prefix_elem :: "string \<Rightarrow> iface \<Rightarrow> bool" where
  "has_prefix_elem pre v = (case v of IStr s \<Rightarrow> pre = hd (Split ''/'' s) | _ \<Rightarrow> False)"

definition AviSvcToPoolCacheDel ::
  "(iface list \<Rightarrow> iface list) \<Rightarrow> (iface, iface) AviMultiCache \<Rightarrow> string \<Rightarrow> NamespaceName
   \<Rightarrow> (iface, iface) AviMultiCache" where
  "AviSvcToPoolCacheDel ord svc_to_pool_cache pre key =
     (case AviMultiCacheGetKey svc_to_pool_cache (INsName key) of
        None \<Rightarrow> svc_to_pool_cache
      | Some mkey_map \<Rightarrow>
          fold (\<lambda>ppool_name mc.
            if has_prefix_elem pre ppool_name then AviMultiCacheDeleteVal mc (INsName key) ppool_name
            else mc) (ord mkey_map) svc_to_pool_cache)"

section \<open>avi_obj_vs.go\<close>

definition build_service :: "string \<Rightarrow> AviPortProtocol \<Rightarrow> AviService" where
  "build_service network_profile pp =
     \<lparr>as_Port = Some (pp_Port pp),
      as_OverrideNetworkProfileRef =
        (if pp_Protocol pp = ''tcp'' \<and> network_profile = ''System-UDP-Fast-Path''
         then Some ''/api/networkprofile/?name=System-TCP-Proxy''
         else if pp_Protocol pp = ''udp'' \<and> network_profile = ''System-TCP-Proxy''
         then Some ''/api/networkprofile/?name=System-UDP-Fast-Path''
         else None)\<rparr>"

definition build_selector :: "AviPortProtocol \<times> string \<Rightarrow> ServicePoolSelector" where
  "build_selector = (\<lambda>(pp, pool_name).
     \<lparr>sps_ServicePoolRef = Some (''/api/pool/?name='' @ pool_name),
      sps_ServicePort = Some (pp_Port pp),
      sps_ServiceProtocol = Some (if pp_Protocol pp = ''tcp'' then ''PROTOCOL_TYPE_TCP_PROXY''
                                  else ''PROTOCOL_TYPE_UDP_PROXY'')\<rparr>)"

definition build_hpp :: "AviPortProtocol \<times> string \<Rightarrow> AviHostPathPortPoolPG" where
  "build_hpp = (\<lambda>(pp, pool_name).
     \<lparr>hpp_Host = '''', hpp_Path = '''', hpp_Port = pp_Port pp, hpp_Pool = pool_name,
      hpp_PoolGroup = ''''\<rparr>)"

definition ew_vip :: "bool \<Rightarrow> Vip" where
  "ew_vip east_west =
     \<lparr>vip_AutoAllocateIP = Some True,
      vip_Subnet = (if east_west then
          Some \<lparr>ipp_IPAddr = Some \<lparr>ip_Type = Some ''V4'', ip_Addr = Some ''172.18.0.0''\<rparr>,
                ipp_Mask = Some 24\<rparr> else None)\<rparr>"

definition vs_model ::
  "((AviPortProtocol \<times> string) list \<Rightarrow> (AviPortProtocol \<times> string) list) \<Rightarrow> K8sAviVsMeta \<Rightarrow> VirtualService" where
  "vs_model ord vs_meta =
     \<lparr>vs_Name = Some (vm_Name vs_meta),
      vs_NetworkProfileRef = Some (''/api/networkprofile/?name='' @ vm_NetworkProfile vs_meta),
      vs_ApplicationProfileRef = Some (''/api/applicationprofile/?name='' @ vm_ApplicationProfile vs_meta),
      vs_CloudConfigCksum = Some (vm_CloudConfigCksum vs_meta),
      vs_CreatedBy = Some OSHIFT_K8S_CLOUD_CONNECTOR,
      vs_EastWestPlacement = Some (vm_EastWest vs_meta),
      vs_PoolRef = (if vm_DefaultPool vs_meta \<noteq> ''''
                    then Some (''/api/pool/?name='' @ vm_DefaultPool vs_meta) else None),
      vs_Vip = [ew_vip (vm_EastWest vs_meta)],
      vs_TenantRef = Some (tenant_ref (vm_Tenant vs_meta)),
      vs_ServiceMetadata = Some (marshal_metadata (vm_ServiceMetadata vs_meta)),
      vs_Services = map (build_service (vm_NetworkProfile vs_meta)) (vm_PortProto vs_meta),
      vs_ServicePoolSelect =
        (if length (vm_PortProto vs_meta) > 1 \<and> vm_ApplicationProfile vs_meta = ''System-L4-Application''
         then map build_selector (ord (vm_PoolMap vs_meta)) else [])\<rparr>"

definition AviVsBuild ::
  "((AviPortProtocol \<times> string) list \<Rightarrow> (AviPortProtocol \<times> string) list) \<Rightarrow> string
   \<Rightarrow> K8sAviVsMeta \<Rightarrow> RestOp list" where
  "AviVsBuild ord version vs_meta =
     (let hps_rest_ops =
            (if length (vm_PortProto vs_meta) > 1
                \<and> vm_ApplicationProfile vs_meta \<noteq> ''System-L4-Application''
                \<and> vm_ApplicationProfile vs_meta = ''System-HTTP''
             then [AviHttpPSBuild version
                    \<lparr>hm_Name = vm_Name vs_meta @ ''-httppolicyset'', hm_Tenant = vm_Tenant vs_meta,
                     hm_CloudConfigCksum = vm_CloudConfigCksum vs_meta,
                     hm_HppMap = map build_hpp (ord (vm_PoolMap vs_meta))\<rparr>]
             else []);
          macro = \<lparr>macro_ModelName = ''VirtualService'',
                   macro_Data = DataVirtualService (vs_model ord vs_meta)\<rparr>;
          rest_op = \<lparr>op_Path = ''/api/macro'', op_Method = RestPost, op_Obj = ObjMacro macro,
                     op_Tenant = vm_Tenant vs_meta, op_PatchOp = '''', op_Response = JNull,
                     op_Err = None, op_Model = ''VirtualService'', op_Version = version\<rparr>
      in hps_rest_ops @ [rest_op])"

text \<open>
  Unlike the pool cache, the virtual service cache update returns at the first element without a
  name or a UUID, keeping what it added before.
\<close>

fun vs_cache_resps ::
  "string \<Rightarrow> (string \<times> jval) list list \<Rightarrow> (iface, iface) AviCache
   \<Rightarrow> (go_error option \<times> (iface, iface) AviCache) go" where
  "vs_cache_resps tenant [] c = Ok (None, c)"
| "vs_cache_resps tenant (resp # resps) c =
     (case jstring (jget resp ''name'') of
        None \<Rightarrow> Ok (Some (ErrorString ''Name not present in response''), c)
      | Some name \<Rightarrow>
          (case jstring (jget resp ''uuid'') of
             None \<Rightarrow> Ok (Some (ErrorString ''Uuid not present in response''), c)
           | Some uuid \<Rightarrow>
               go_bind (must_string (jget resp ''cloud_config_cksum'')) (\<lambda>cksum.
               go_bind (must_string (jget resp ''service_metadata'')) (\<lambda>mdata.
                 vs_cache_resps tenant resps (AviCacheAdd c (nsname tenant name)
                   (IVs \<lparr>vc_Name = name, vc_Tenant = tenant, vc_Uuid = uuid,
                         vc_ServiceMetadata = decode_metadata mdata,
                         vc_CloudConfigCksum = cksum\<rparr>))))))"

definition AviVsCacheAdd ::
  "(iface, iface) AviCache \<Rightarrow> RestOp \<Rightarrow> (go_error option \<times> (iface, iface) AviCache) go" where
  "AviVsCacheAdd vs_cache rest_op =
     go_bind (pool_resp_elems rest_op ''virtualservice'') (\<lambda>r.
       case r of
         Inl err \<Rightarrow> Ok (Some err, vs_cache)
       | Inr resp_elems \<Rightarrow> vs_cache_resps (op_Tenant rest_op) resp_elems vs_cache)"

definition AviVsCacheDel ::
  "(iface, iface) AviCache \<Rightarrow> NamespaceName \<Rightarrow> (iface, iface) AviCache" where
  "AviVsCacheDel vs_cache key = AviCacheDelete vs_cache (INsName key)"

section \<open>The rules of an HTTP policy set\<close>

lemma build_rules_counter: "snd (build_rules nm idx hpps) = idx + of_nat (length hpps)"
proof (induction hpps arbitrary: idx)
  case (Cons hpp hpps)
  from Cons.IH [of "idx + 1"] show ?case by (simp add: case_prod_beta Let_def)
qed simp

lemma build_rules_length: "length (fst (build_rules nm idx hpps)) = length hpps"
  by (induction hpps arbitrary: idx) (simp_all add: Let_def case_prod_beta)

lemma build_rules_nth:
  "i < length hpps \<Longrightarrow> (fst (build_rules nm idx hpps) ! i) counter =
     \<lparr>rule_Enable = True, rule_Index = counter,
      rule_Name = nm @ ''-'' @ Itoa (sint (idx + of_nat i)),
      rule_Match = build_match (hpps ! i), rule_SwitchingAction = build_switching (hpps ! i)\<rparr>"
proof (induction hpps arbitrary: idx i)
  case (Cons hpp hpps)
  show ?case
  proof (cases i)
    case (Suc j)
    with Cons.IH [of j "idx + 1"] Cons.prems show ?thesis
      by (simp add: case_prod_beta Let_def add.assoc)
  qed (simp add: case_prod_beta Let_def)
qed simp

definition hps_rules :: "RestOp \<Rightarrow> HTTPRequestRule list" where
  "hps_rules op =
     (case op_Obj op of
        ObjMacro m \<Rightarrow> (case macro_Data m of
            DataHTTPPolicySet hps \<Rightarrow>
              (case hps_HTTPRequestPolicy hps of Some pol \<Rightarrow> hrp_Rules pol | None \<Rightarrow> [])
          | _ \<Rightarrow> [])
      | _ \<Rightarrow> [])"

lemma hps_rules_build:
  "hps_rules (AviHttpPSBuild v m) =
     map (\<lambda>i. \<lparr>rule_Enable = True, rule_Index = of_nat (length (hm_HppMap m)),
       rule_Name = hm_Name m @ ''-'' @ Itoa (sint (of_nat i :: int32)),
       rule_Match = build_match (hm_HppMap m ! i),
       rule_SwitchingAction = build_switching (hm_HppMap m ! i)\<rparr>) [0..<length (hm_HppMap m)]"
proof -
  obtain rules idx where b: "build_rules (hm_Name m) 0 (hm_HppMap m) = (rules, idx)" by fastforce
  then have "idx = of_nat (length (hm_HppMap m))" "length rules = length (hm_HppMap m)"
    using build_rules_counter [of "hm_Name m" 0 "hm_HppMap m"]
      build_rules_length [of "hm_Name m" 0 "hm_HppMap m"] by auto
  moreover have "(rules ! i) c = \<lparr>rule_Enable = True, rule_Index = c,
      rule_Name = hm_Name m @ ''-'' @ Itoa (sint (of_nat i :: int32)),
      rule_Match = build_match (hm_HppMap m ! i),
      rule_SwitchingAction = build_switching (hm_HppMap m ! i)\<rparr>" if "i < length (hm_HppMap m)" for i c
    using build_rules_nth [OF that, of "hm_Name m" 0 c] b by simp
  ultimately have "map (\<lambda>r. r idx) rules =
     map (\<lambda>i. \<lparr>rule_Enable = True, rule_Index = of_nat (length (hm_HppMap m)),
       rule_Name = hm_Name m @ ''-'' @ Itoa (sint (of_nat i :: int32)),
       rule_Match = build_match (hm_HppMap m ! i),
       rule_SwitchingAction = build_switching (hm_HppMap m ! i)\<rparr>) [0..<length (hm_HppMap m)]"
    by (intro nth_equalityI) simp_all
  then show ?thesis
    using b by (simp add: hps_rules_def AviHttpPSBuild_def del: map_map)
qed

section \<open>Service metadata\<close>

definition mdata_field :: "string \<Rightarrow> string \<times> jval \<Rightarrow> ServiceMetadataObj \<Rightarrow> ServiceMetadataObj" where
  "mdata_field key = (\<lambda>(k, val) m.
     if k = key then (case jstring val of Some s \<Rightarrow> m\<lparr>CrudHashKey_field := s\<rparr> | None \<Rightarrow> m) else m)"

lemma fold_mdata_field:
  "distinct (map fst m) \<Longrightarrow> fold (mdata_field key) m md =
     (case map_of m key of
        Some (JStr s) \<Rightarrow> md\<lparr>CrudHashKey_field := s\<rparr> | _ \<Rightarrow> md)"
proof (induction m arbitrary: md)
  case (Cons kv m)
  obtain k v where kv: "kv = (k, v)" by fastforce
  then have "map_of m k = None" using Cons.prems by (auto simp: map_of_eq_None_iff)
  with Cons kv show ?case
    by (auto simp: mdata_field_def jstring_def split: option.splits jval.splits)
qed simp

lemma SvcMdataMapToObj_map_of:
  "distinct (map fst m) \<Longrightarrow> SvcMdataMapToObj m md =
     (case map_of m ''crud_hash_key'' of
        Some (JStr s) \<Rightarrow> md\<lparr>CrudHashKey_field := s\<rparr> | _ \<Rightarrow> md)"
  using fold_mdata_field [of m "''crud_hash_key''" md]
  unfolding SvcMdataMapToObj_def mdata_field_def .

lemma SvcMdataMapToObj_order:
  assumes "distinct (map fst m)" "mset m' = mset m"
  shows "SvcMdataMapToObj m' md = SvcMdataMapToObj m md"
proof -
  have "mset (map fst m') = mset (map fst m)" using assms(2) by (metis mset_map)
  then have "distinct (map fst m')" using assms(1) mset_eq_imp_distinct_iff by blast
  moreover from this assms have "map_of m' = map_of m"
    by (metis map_of_eqI map_of_inject_set mset_eq_setD)
  ultimately show ?thesis using assms(1) by (simp add: SvcMdataMapToObj_map_of)
qed

lemma decode_marshal_metadata:
  assumes "ascii (CrudHashKey_field m)"
  shows "decode_metadata (marshal_metadata m) = m"
proof -
  have "ascii ''crud_hash_key''" by (simp add: ascii_def byte_def)
  then have "json_Unmarshal (marshal_metadata m) = Some (JObj [(''crud_hash_key'', JStr (CrudHashKey_field m))])"
    using assms by (simp add: marshal_metadata_def json_Unmarshal_member)
  then show ?thesis
    by (cases m) (simp add: decode_metadata_def SvcMdataMapToObj_def jstring_def empty_metadata_def)
qed

section \<open>Cache updates\<close>

text \<open>
  The type invariants of the two object caches: every entry of the pool cache is a pool
  recorded under its own tenant and name, and likewise for virtual services.
\<close>

definition pool_cache_ok :: "(iface, iface) AviCache \<Rightarrow> bool" where
  "pool_cache_ok c \<longleftrightarrow> (\<forall>k v. AviCacheGet c k = Some v \<longrightarrow>
     (\<exists>p. v = IPool p \<and> k = nsname (pc_Tenant p) (pc_Name p)))"

definition vs_cache_ok :: "(iface, iface) AviCache \<Rightarrow> bool" where
  "vs_cache_ok c \<longleftrightarrow> (\<forall>k v. AviCacheGet c k = Some v \<longrightarrow>
     (\<exists>p. v = IVs p \<and> k = nsname (vc_Tenant p) (vc_Name p)))"

lemma cache_ok_new: "pool_cache_ok NewAviCache" "vs_cache_ok NewAviCache"
  by (simp_all add: pool_cache_ok_def vs_cache_ok_def cache_simps)

lemma pool_cache_resp_ok:
  "pool_cache_ok c \<Longrightarrow> pool_cache_resp t resp c = Ok c' \<Longrightarrow> pool_cache_ok c'"
  by (auto simp: pool_cache_resp_def pool_cache_ok_def cache_simps split: option.splits if_splits)

lemma AviPoolCacheAdd_ok:
  assumes "AviPoolCacheAdd c op = Ok (err, c')" "pool_cache_ok c"
  shows "pool_cache_ok c'"
proof -
  obtain r where r: "pool_resp_elems op ''pool'' = Ok r"
    using assms(1) unfolding AviPoolCacheAdd_def go_bind_eq_Ok by blast
  show ?thesis
  proof (cases r)
    case (Inr es)
    with assms(1) r have "go_fold (pool_cache_resp (op_Tenant op)) es c = Ok c'"
      by (simp add: AviPoolCacheAdd_def)
    then show ?thesis
      by (rule go_fold_inv [where I = pool_cache_ok]) (use assms(2) pool_cache_resp_ok in blast)+
  qed (use assms r in \<open>simp add: AviPoolCacheAdd_def\<close>)
qed

lemma vs_cache_ok_add:
  "vs_cache_ok c \<Longrightarrow> vs_cache_ok (AviCacheAdd c (nsname (vc_Tenant p) (vc_Name p)) (IVs p))"
  by (simp add: vs_cache_ok_def cache_simps)

lemma vs_cache_resps_ok:
  "vs_cache_resps t resps c = Ok (err, c') \<Longrightarrow> vs_cache_ok c \<Longrightarrow> vs_cache_ok c'"
proof (induction resps arbitrary: c)
  case (Cons resp resps)
  show ?case
  proof (cases "jstring (jget resp ''name'') = None \<or> jstring (jget resp ''uuid'') = None")
    case True
    with Cons.prems show ?thesis by (auto split: option.splits)
  next
    case False
    then obtain name uuid where "jstring (jget resp ''name'') = Some name"
      "jstring (jget resp ''uuid'') = Some uuid"
      by (cases "jstring (jget resp ''name'')"; cases "jstring (jget resp ''uuid'')") simp_all
    with Cons.prems(1) obtain ck md where
      "vs_cache_resps t resps (AviCacheAdd c (nsname t name) (IVs \<lparr>vc_Name = name, vc_Tenant = t,
         vc_Uuid = uuid, vc_ServiceMetadata = md, vc_CloudConfigCksum = ck\<rparr>)) = Ok (err, c')"
      by (simp, blast)
    then obtain p where
      "vs_cache_resps t resps (AviCacheAdd c (nsname (vc_Tenant p) (vc_Name p)) (IVs p)) = Ok (err, c')"
      by (metis AviVsCache.select_convs(1,2))
    from Cons.IH [OF this] vs_cache_ok_add [OF Cons.prems(2)] show ?thesis by blast
  qed
qed simp

lemma AviVsCacheAdd_ok:
  assumes "AviVsCacheAdd c op = Ok (err, c')" "vs_cache_ok c"
  shows "vs_cache_ok c'"
proof -
  obtain r where r: "pool_resp_elems op ''virtualservice'' = Ok r"
    using assms(1) unfolding AviVsCacheAdd_def go_bind_eq_Ok by blast
  then show ?thesis
    using assms vs_cache_resps_ok by (cases r) (fastforce simp: AviVsCacheAdd_def)+
qed

lemma cache_ok_del:
  "pool_cache_ok c \<Longrightarrow> pool_cache_ok (AviPoolCacheDel c k)"
  "vs_cache_ok c \<Longrightarrow> vs_cache_ok (AviVsCacheDel c k)"
  by (simp_all add: pool_cache_ok_def vs_cache_ok_def AviPoolCacheDel_def AviVsCacheDel_def cache_simps)

text \<open>
  What the cache updates need of the controller's answer: a list of one object with a URL of its
  type on the controller, its name and UUID, and the checksum and metadata the request carried; a
  pool also has a load balancing algorithm. The object may have any other fields.
\<close>

definition answered ::
  "string \<Rightarrow> string \<Rightarrow> string \<Rightarrow> string \<Rightarrow> string \<Rightarrow> string \<Rightarrow> string \<Rightarrow> jval \<Rightarrow> bool" where
  "answered host t uuid name lb cksum mdata resp \<longleftrightarrow>
     (\<exists>obj. resp = JArr [JObj obj] \<and> jget obj ''url'' = JStr (avi_url host t uuid) \<and> jget obj ''name'' = JStr name
        \<and> jget obj ''uuid'' = JStr uuid \<and> (t = ''pool'' \<longrightarrow> jget obj ''lb_algorithm'' = JStr lb)
        \<and> jget obj ''cloud_config_cksum'' = JStr cksum \<and> jget obj ''service_metadata'' = JStr mdata)"

lemma pool_resp_elems_one:
  assumes "op_Err op = None" "op_Response op = JArr [JObj obj]" "jget obj ''url'' = JStr (avi_url host t uuid)"
    "url_plain host" "url_plain t" "url_plain uuid"
  shows "pool_resp_elems op t = Ok (Inr [obj])"
  using assms(1-3) AviUrlToObjType_avi [OF assms(4-6)]
  by (simp add: pool_resp_elems_def RestRespArrToObjByType_def select_resp_def jstring_def)

lemma AviPoolCacheAdd_one:
  assumes "op_Err op = None" "answered host ''pool'' uuid name lb cksum mdata (op_Response op)"
    "url_plain host" "url_plain uuid"
  shows "AviPoolCacheAdd c op = Ok (None, AviCacheAdd c (nsname (op_Tenant op) name)
    (IPool \<lparr>pc_Name = name, pc_Tenant = op_Tenant op, pc_Uuid = uuid, pc_LbAlgorithm = lb,
      pc_ServiceMetadata = decode_metadata mdata, pc_CloudConfigCksum = cksum\<rparr>))"
proof -
  have "url_plain ''pool''" by (simp add: url_plain_def is_alnum_def)
  with assms show ?thesis
    by (auto simp: answered_def pool_resp_elems_one AviPoolCacheAdd_def pool_cache_resp_def jstring_def must_string_def)
qed

lemma AviVsCacheAdd_one:
  assumes "op_Err op = None" "answered host ''virtualservice'' uuid name lb cksum mdata (op_Response op)"
    "url_plain host" "url_plain uuid"
  shows "AviVsCacheAdd c op = Ok (None, AviCacheAdd c (nsname (op_Tenant op) name)
    (IVs \<lparr>vc_Name = name, vc_Tenant = op_Tenant op, vc_Uuid = uuid,
      vc_ServiceMetadata = decode_metadata mdata, vc_CloudConfigCksum = cksum\<rparr>))"
proof -
  have "url_plain ''virtualservice''" by (simp add: url_plain_def is_alnum_def)
  with assms show ?thesis
    by (auto simp: answered_def pool_resp_elems_one AviVsCacheAdd_def jstring_def must_string_def)
qed

lemma AviSvcToPoolCacheAdd_one:
  assumes "op_Err op = None" "answered host ''pool'' uuid name lb cksum mdata (op_Response op)"
    "url_plain host" "url_plain uuid"
  shows "AviSvcToPoolCacheAdd mc op pre key =
    Ok (None, AviMultiCacheAdd mc (INsName key) (IStr (pre @ ''/'' @ name)))"
proof -
  have "url_plain ''pool''" by (simp add: url_plain_def is_alnum_def)
  with assms show ?thesis
    by (auto simp: answered_def pool_resp_elems_one AviSvcToPoolCacheAdd_def svc_pool_resp_def jstring_def)
qed

text \<open>The multi-cache invariant is kept, and the rows the updates touch hold strings only.\<close>

definition svc_pool_ok :: "(iface, iface) AviMultiCache \<Rightarrow> bool" where
  "svc_pool_ok mc \<longleftrightarrow> mc_ok mc \<and> (\<forall>(k, v) \<in> mc_rel mc.
     \<exists>nn pre name. k = INsName nn \<and> v = IStr (pre @ ''/'' @ name))"

lemma svc_pool_ok_new: "svc_pool_ok NewAviMultiCache"
  by (simp add: svc_pool_ok_def avi_mcache.rels avi_mcache.oks)

lemma svc_pool_resp_ok: "svc_pool_ok mc \<Longrightarrow> svc_pool_ok (svc_pool_resp pre key resp mc)"
  by (simp add: svc_pool_resp_def svc_pool_ok_def avi_mcache.rels avi_mcache.oks split: option.splits)
    blast

lemma fold_svc_pool_resp_ok:
  "svc_pool_ok mc \<Longrightarrow> svc_pool_ok (fold (svc_pool_resp pre key) resps mc)"
  by (induction resps arbitrary: mc) (simp_all add: svc_pool_resp_ok)

lemma AviSvcToPoolCacheAdd_ok:
  assumes "AviSvcToPoolCacheAdd mc op pre key = Ok (err, mc')" "svc_pool_ok mc"
  shows "svc_pool_ok mc'"
proof -
  obtain r where r: "pool_resp_elems op ''pool'' = Ok r"
    using assms(1) unfolding AviSvcToPoolCacheAdd_def go_bind_eq_Ok by blast
  then show ?thesis
    using assms fold_svc_pool_resp_ok by (cases r) (fastforce simp: AviSvcToPoolCacheAdd_def)+
qed

text \<open>
  Deleting a prefix removes exactly the entries of that key whose text up to the first slash
  is the prefix, in whatever order the map is visited.
\<close>

lemma AviSvcToPoolCacheDel_rel:
  assumes "mc_ok mc" "reordering ord"
  shows "mc_rel (AviSvcToPoolCacheDel ord mc pre key) =
    {(k, v). (k, v) \<in> mc_rel mc \<and> \<not> (k = INsName key \<and> has_prefix_elem pre v)}"
    and "mc_ok (AviSvcToPoolCacheDel ord mc pre key)"
proof -
  show "mc_rel (AviSvcToPoolCacheDel ord mc pre key) =
    {(k, v). (k, v) \<in> mc_rel mc \<and> \<not> (k = INsName key \<and> has_prefix_elem pre v)}"
  proof (cases "AviMultiCacheGetKey mc (INsName key)")
    case None
    then have "\<forall>v. (INsName key, v) \<notin> mc_rel mc" by (rule avi_mcache.row_None [OF assms(1), THEN iffD1])
    with None show ?thesis by (auto simp: AviSvcToPoolCacheDel_def)
  next
    case (Some row)
    from avi_mcache.rel_purge [OF assms(1) Some, of "ord row" "has_prefix_elem pre"] Some show ?thesis
      by (simp add: AviSvcToPoolCacheDel_def reordering_set [OF assms(2)])
  qed
  show "mc_ok (AviSvcToPoolCacheDel ord mc pre key)"
    using assms(1) by (auto simp: AviSvcToPoolCacheDel_def avi_mcache.ok_purge split: option.splits)
qed

lemma has_prefix_elem_slash:
  "CHR ''/'' \<notin> set p \<Longrightarrow> has_prefix_elem pre (IStr (p @ ''/'' @ name)) \<longleftrightarrow> p = pre"
  by (auto simp: has_prefix_elem_def string_simps)

lemma AviSvcToPoolCacheDel_ok:
  assumes "svc_pool_ok mc" "reordering ord"
  shows "svc_pool_ok (AviSvcToPoolCacheDel ord mc pre key)"
  using assms AviSvcToPoolCacheDel_rel [of mc ord pre key] by (auto simp: svc_pool_ok_def)

section \<open>Properties\<close>

text \<open>
  C30: the service metadata written into an object is read back from the controller's
  response, for a hash key of ASCII characters (Kubernetes names are).
\<close>

theorem service_metadata_roundtrip:
  assumes "ascii (CrudHashKey_field m)"
  shows "decode_metadata (marshal_metadata m) = m"
  by (rule decode_marshal_metadata) (rule assms)

theorem service_metadata_roundtrip_witness:
  "decode_metadata (marshal_metadata \<lparr>CrudHashKey_field = ''default:web''\<rparr>) = \<lparr>CrudHashKey_field = ''default:web''\<rparr>"
  by (rule service_metadata_roundtrip) (simp add: ascii_def byte_def)

text \<open>
  The metadata read from a decoded object does not depend on the order in which the loop
  visits the Go map.
\<close>

theorem SvcMdataMapToObj_any_order:
  assumes "distinct (map fst m)" "reordering ord"
  shows "SvcMdataMapToObj (ord m) md = SvcMdataMapToObj m md"
  using SvcMdataMapToObj_order [OF assms(1), of "ord m" md] reordering_mset [OF assms(2)] by blast

theorem SvcMdataMapToObj_any_order_witness:
  "SvcMdataMapToObj (rev [(''a'', JNull), (''crud_hash_key'', JStr ''k'')]) empty_metadata
   = SvcMdataMapToObj [(''a'', JNull), (''crud_hash_key'', JStr ''k'')] empty_metadata"
  by (rule SvcMdataMapToObj_any_order) simp_all

text \<open>
  The rules of an HTTP policy set. Rule \<open>i\<close> is enabled, named after its position and
  matches and switches by the i-th entry, but every rule has the same index, the number of
  rules, since all share one counter.
\<close>

theorem AviHttpPSBuild_rules:
  "hps_rules (AviHttpPSBuild v m) =
     map (\<lambda>i. \<lparr>rule_Enable = True, rule_Index = of_nat (length (hm_HppMap m)),
       rule_Name = hm_Name m @ ''-'' @ Itoa (sint (of_nat i :: int32)),
       rule_Match = build_match (hm_HppMap m ! i),
       rule_SwitchingAction = build_switching (hm_HppMap m ! i)\<rparr>) [0..<length (hm_HppMap m)]"
  by (rule hps_rules_build)

text \<open>
  Deleting a kind from the row of a Service removes exactly the entries of that Service
  whose text up to the first slash is the kind, in whatever order the row is visited.
\<close>

theorem AviSvcToPoolCacheDel_exact:
  assumes "mc_ok mc" "reordering ord"
  shows "mc_rel (AviSvcToPoolCacheDel ord mc pre key) =
      mc_rel mc - {(INsName key, v) | v. has_prefix_elem pre v}
    \<and> mc_ok (AviSvcToPoolCacheDel ord mc pre key)"
  using AviSvcToPoolCacheDel_rel [OF assms, of pre key] by auto

theorem AviSvcToPoolCacheDel_exact_witness:
  "mc_rel (AviSvcToPoolCacheDel rev (NewAviMultiCache :: (iface, iface) AviMultiCache) ''service'' \<lparr>nn_Namespace = ''n'', nn_Name = ''s''\<rparr>) = {}"
  using AviSvcToPoolCacheDel_exact [of "NewAviMultiCache :: (iface, iface) AviMultiCache" rev "''service''"
      "\<lparr>nn_Namespace = ''n'', nn_Name = ''s''\<rparr>"] avi_mcache.ok_empty avi_mcache.rel_empty by auto

end
