(* ===== verification/K8s_Keys.thy ===== *)
theory K8s_Keys
  imports Avi_Utils
begin

text \<open>
  The keys of Kubernetes objects, as \<^verbatim>\<open>client-go\<close> makes, splits and looks them up
  (\<^verbatim>\<open>tools/cache/store.go\<close>, \<^verbatim>\<open>tools/cache/controller.go\<close>, \<^verbatim>\<open>listers\<close>). \<open>KOther\<close> stands for a value
  without object metadata. Of an error message that quotes the key with \<^verbatim>\<open>%q\<close> the key is kept
  as it is.

  The contract between the event handlers and the synchronisation, that splitting a key gives
  back the namespace and name it was made of, is the locale \<open>object_keys\<close>.
\<close>

fun obj_meta :: "k8s_obj \<Rightarrow> (string \<times> string) option" where
  "obj_meta (KEndpoints ep) = Some (ep_Namespace ep, ep_Name ep)"
| "obj_meta (KService svc) = Some (svc_Namespace svc, svc_Name svc)"
| "obj_meta (KIngress ing) = Some (ing_Namespace ing, ing_Name ing)"
| "obj_meta (DeletedFinalStateUnknown key obj) = None"
| "obj_meta KOther = None"

definition meta_key :: "string \<Rightarrow> string \<Rightarrow> string" where
  "meta_key ns name = (if length ns > 0 then ns @ ''/'' @ name else name)"

definition MetaNamespaceKeyFunc :: "k8s_obj \<Rightarrow> string \<times> go_error option" where
  "MetaNamespaceKeyFunc obj =
     (case obj_meta obj of
        None \<Rightarrow> ('''', Some (ErrorString ''object has no meta''))
      | Some (ns, name) \<Rightarrow> (meta_key ns name, None))"

definition DeletionHandlingMetaNamespaceKeyFunc :: "k8s_obj \<Rightarrow> string \<times> go_error option" where
  "DeletionHandlingMetaNamespaceKeyFunc obj =
     (case obj of
        DeletedFinalStateUnknown key _ \<Rightarrow> (key, None)
      | _ \<Rightarrow> MetaNamespaceKeyFunc obj)"

definition SplitMetaNamespaceKey :: "string \<Rightarrow> go_error + string \<times> string" where
  "SplitMetaNamespaceKey key =
     (case Split ''/'' key of
        [name] \<Rightarrow> Inr ('''', name)
      | [ns, name] \<Rightarrow> Inr (ns, name)
      | _ \<Rightarrow> Inl (ErrorString (''unexpected key format: '' @ key)))"

text \<open>
  \<^verbatim>\<open>Lister().Services(ns).Get(name)\<close> and its siblings: the store is keyed by \<^verbatim>\<open>ns/name\<close>.
\<close>

definition lister_Get :: "string \<Rightarrow> (string \<rightharpoonup> 'o) \<Rightarrow> string \<Rightarrow> string \<Rightarrow> go_error + 'o" where
  "lister_Get resource store ns name =
     (case store (ns @ ''/'' @ name) of
        None \<Rightarrow> Inl (StatusNotFound (resource @ [CHR '' '', CHR 0x22] @ name @ CHR 0x22 # '' not found''))
      | Some obj \<Rightarrow> Inr obj)"

definition IsNotFound :: "go_error \<Rightarrow> bool" where
  "IsNotFound err = (case err of StatusNotFound _ \<Rightarrow> True | _ \<Rightarrow> False)"

text \<open>API names have no slash.\<close>

definition api_name :: "string \<Rightarrow> bool" where
  "api_name s \<longleftrightarrow> CHR ''/'' \<notin> set s"

section \<open>The contract\<close>

locale object_keys =
  fixes mk :: "'n \<Rightarrow> 'n \<Rightarrow> 'k"
    and split_key :: "'k \<Rightarrow> 'e + 'n \<times> 'n"
    and plain :: "'n \<Rightarrow> bool"
  assumes split_mk: "plain ns \<Longrightarrow> plain name \<Longrightarrow> split_key (mk ns name) = Inr (ns, name)"
begin

lemma mk_inject:
  assumes "plain ns" "plain name" "plain ns'" "plain name'"
  shows "mk ns name = mk ns' name' \<longleftrightarrow> ns = ns' \<and> name = name'"
  using split_mk [of ns name] split_mk [of ns' name'] assms by (metis sum.inject(2) prod.inject)

end

interpretation meta: object_keys meta_key SplitMetaNamespaceKey api_name
proof
  fix ns name assume "api_name ns" "api_name name"
  then show "SplitMetaNamespaceKey (meta_key ns name) = Inr (ns, name)"
    using Split_char [of "CHR ''/''" ns name]
    by (simp add: SplitMetaNamespaceKey_def meta_key_def api_name_def Split_char_end)
qed

lemma SplitMetaNamespaceKey_error:
  "(\<exists>e. SplitMetaNamespaceKey key = Inl e) \<longleftrightarrow> count_list key CHR ''/'' \<ge> 2"
proof -
  have "length (Split ''/'' key) = Suc (count_list key CHR ''/'')" by (rule Split_length_char)
  then show ?thesis
    by (auto simp: SplitMetaNamespaceKey_def split: list.splits)
qed

lemma lister_Get_error: "lister_Get r store ns name = Inl e \<Longrightarrow> IsNotFound e"
  by (auto simp: lister_Get_def IsNotFound_def split: option.splits)

end
