(* ===== verification/K8s_Ep.thy ===== *)
theory K8s_Ep
  imports Avi_Objects K8s_Keys
begin

text \<open>
  \<^verbatim>\<open>pkg/k8s/k8s_ep.go\<close>: the handler of Endpoints, which builds or updates the pools of a
  Service.

  \<open>'w K8sState\<close> is the state the two handlers share through their pointers: the object caches,
  the cache from Services to pools, the REST clients, and the controller behind them. \<open>'w Env\<close>
  is what a call reads and does not change: the SDK calls, the package variable
  \<^verbatim>\<open>CtrlVersion\<close>, what the informer stores hold when the call reads them, and the orders in
  which the \<^verbatim>\<open>range\<close> loops over Go maps visit their entries. A handler reads each informer
  store at most once, so one record of stores covers every interleaving with the informers.
\<close>

record 'w K8sState =
  avi_obj_cache :: AviObjCache
  AviClient :: "AviSession list"
  svc_to_pool_cache :: "(iface, iface) AviMultiCache"
  svc_to_pg_cache :: "(iface, iface) AviMultiCache"
  world :: 'w

record 'w Env =
  env_api :: "'w AviApi"
  env_version :: string
  env_informers :: Informers
  ord_ports :: "AviPortStrProtocol list \<Rightarrow> AviPortStrProtocol list"
  ord_pools :: "iface list \<Rightarrow> iface list"
  ord_poolmap :: "(AviPortProtocol \<times> string) list \<Rightarrow> (AviPortProtocol \<times> string) list"

text \<open>\<open>NewK8sEp\<close> makes the two Service caches and keeps the object cache and clients it is given.\<close>

definition NewK8sEp :: "AviObjCache \<Rightarrow> AviSession list \<Rightarrow> 'w \<Rightarrow> 'w K8sState" where
  "NewK8sEp obj_cache clients w =
     \<lparr>avi_obj_cache = obj_cache, AviClient = clients, svc_to_pool_cache = NewAviMultiCache,
      svc_to_pg_cache = NewAviMultiCache, world = w\<rparr>"

section \<open>The ports with ready endpoints\<close>

fun target_port_by_name :: "ServicePort list \<Rightarrow> string \<Rightarrow> string" where
  "target_port_by_name [] name = ''''"
| "target_port_by_name (pp # pps) name =
     (if sp_Name pp = name then IntOrString_String (sp_TargetPort pp)
      else target_port_by_name pps name)"

text \<open>\<open>None\<close> is the early \<^verbatim>\<open>return nil, nil\<close> of the handler.\<close>

definition ep_target_port :: "Service \<Rightarrow> EndpointPort \<Rightarrow> string option go" where
  "ep_target_port svc ep_port =
     (if epp_Name ep_port \<noteq> '''' then
        (let tgt_port = target_port_by_name (svc_Ports svc) (epp_Name ep_port)
         in if tgt_port = '''' then Ok None else Ok (Some tgt_port))
      else go_bind (go_index (svc_Ports svc) 0)
             (\<lambda>sp. Ok (Some (IntOrString_String (sp_TargetPort sp)))))"

definition proto_name :: "string \<Rightarrow> string" where
  "proto_name protocol = (if protocol = '''' then ''tcp'' else ToLower protocol)"

text \<open>The map \<^verbatim>\<open>port_protocols\<close> is the list of its keys in insertion order.\<close>

fun subset_ports ::
  "Service \<Rightarrow> EndpointPort list \<Rightarrow> AviPortStrProtocol list \<Rightarrow> AviPortStrProtocol list option go" where
  "subset_ports svc [] acc = Ok (Some acc)"
| "subset_ports svc (ep_port # ep_ports) acc =
     go_bind (ep_target_port svc ep_port) (\<lambda>r.
       case r of
         None \<Rightarrow> Ok None
       | Some tgt_port \<Rightarrow>
           (let pp = \<lparr>psp_Port = tgt_port, psp_Protocol = proto_name (epp_Protocol ep_port)\<rparr>
            in subset_ports svc ep_ports (if pp \<in> set acc then acc else acc @ [pp])))"

fun ready_ports ::
  "Service \<Rightarrow> EndpointSubset list \<Rightarrow> AviPortStrProtocol list \<Rightarrow> AviPortStrProtocol list option go" where
  "ready_ports svc [] acc = Ok (Some acc)"
| "ready_ports svc (ss # sss) acc =
     (if length (ss_Addresses ss) > 0 then
        go_bind (subset_ports svc (ss_Ports ss) acc) (\<lambda>r.
          case r of None \<Rightarrow> Ok None | Some acc' \<Rightarrow> ready_ports svc sss acc')
      else ready_ports svc sss acc)"

section \<open>The pools to update\<close>

definition pool_name_of :: "string \<Rightarrow> string \<Rightarrow> string \<Rightarrow> string" where
  "pool_name_of name_prefix port protocol = name_prefix @ ''-pool-'' @ port @ ''-'' @ protocol"

definition visit_pool ::
  "string \<Rightarrow> (iface, iface) AviCache \<Rightarrow> iface \<Rightarrow> string list \<times> ServiceMetadataObj
   \<Rightarrow> (string list \<times> ServiceMetadataObj) go" where
  "visit_pool tenant pool_cache ppool_name_intf = (\<lambda>(pool_names, service_metadata).
     (case ppool_name_intf of
        IStr ppool_name \<Rightarrow>
          go_bind (go_index (Split ''/'' ppool_name) 1) (\<lambda>pool_name.
            Ok (pool_names @ [pool_name],
                case AviCacheGet pool_cache (nsname tenant pool_name) of
                  None \<Rightarrow> service_metadata
                | Some (IPool pool_cache_obj) \<Rightarrow> pc_ServiceMetadata pool_cache_obj
                | Some _ \<Rightarrow> empty_metadata))
      | _ \<Rightarrow> Ok (pool_names, service_metadata)))"

text \<open>\<open>None\<close> when \<^verbatim>\<open>process_pool\<close> is false: the Endpoints have no pools yet.\<close>

definition pools_to_update ::
  "'w Env \<Rightarrow> 'w K8sState \<Rightarrow> Endpoints \<Rightarrow> string \<Rightarrow> string \<Rightarrow> AviPortStrProtocol list
   \<Rightarrow> (string list \<times> ServiceMetadataObj) option go" where
  "pools_to_update env st ep name_prefix crud_hash_key port_protocols =
     (if name_prefix = '''' then
        (case AviMultiCacheGetKey (svc_to_pool_cache st) (nsname (ep_Namespace ep) (ep_Name ep)) of
           None \<Rightarrow> Ok None
         | Some pools \<Rightarrow>
             go_bind (go_fold (visit_pool (ep_Namespace ep) (PoolCache (avi_obj_cache st)))
                        (ord_pools env pools) ([], empty_metadata))
               (\<lambda>r. Ok (Some r)))
      else Ok (Some (map (\<lambda>pp. pool_name_of name_prefix (psp_Port pp) (psp_Protocol pp))
                       (ord_ports env port_protocols),
                     \<lparr>CrudHashKey_field = crud_hash_key\<rparr>)))"

section \<open>Building a pool\<close>

definition same_cksum :: "(iface, iface) AviCache \<Rightarrow> string \<Rightarrow> string \<Rightarrow> string \<Rightarrow> bool" where
  "same_cksum pool_cache tenant pool_name version =
     (case AviCacheGet pool_cache (nsname tenant pool_name) of
        Some (IPool pool_cache_obj) \<Rightarrow> version = pc_CloudConfigCksum pool_cache_obj
      | _ \<Rightarrow> False)"

fun match_port :: "string \<Rightarrow> string \<Rightarrow> EndpointPort list \<Rightarrow> int32 option" where
  "match_port port protocol [] = None"
| "match_port port protocol (epp # epps) =
     (if (int32_of_int (Atoi port) = epp_Port epp \<or> port = epp_Name epp)
         \<and> protocol = ToLower (epp_Protocol epp)
      then Some (epp_Port epp)
      else match_port port protocol epps)"

definition meta_server :: "EndpointAddress \<Rightarrow> AviPoolMetaServer" where
  "meta_server addr =
     \<lparr>ms_Ip = \<lparr>ip_Type = Some (if IsV4 (ea_IP addr) then ''V4'' else ''V6''),
               ip_Addr = Some (ea_IP addr)\<rparr>,
      ms_ServerNode = (case ea_NodeName addr of None \<Rightarrow> '''' | Some n \<Rightarrow> n)\<rparr>"

definition add_subset :: "string \<Rightarrow> string \<Rightarrow> EndpointSubset \<Rightarrow> K8sAviPoolMeta \<Rightarrow> K8sAviPoolMeta" where
  "add_subset port protocol ss pool_meta =
     (case match_port port protocol (ss_Ports ss) of
        None \<Rightarrow> pool_meta
      | Some epp_port \<Rightarrow>
          pool_meta\<lparr>pm_Port := epp_port,
                    pm_Servers := pm_Servers pool_meta @ map meta_server (ss_Addresses ss)\<rparr>)"

text \<open>The port and protocol are read back from the name of the pool.\<close>

definition split_pool_name :: "string \<Rightarrow> (string \<times> string) go" where
  "split_pool_name pool_name =
     go_bind (go_index (Split ''-pool-'' pool_name) 1) (\<lambda>s.
       let s1 = Split ''-'' s
       in go_bind (go_index s1 0) (\<lambda>port. go_bind (go_index s1 1) (\<lambda>protocol. Ok (port, protocol))))"

definition build_pool_meta ::
  "Endpoints \<Rightarrow> ServiceMetadataObj \<Rightarrow> string \<Rightarrow> string \<times> string \<Rightarrow> K8sAviPoolMeta" where
  "build_pool_meta ep service_metadata pool_name = (\<lambda>(port, protocol).
     fold (add_subset port protocol) (ep_Subsets ep)
       \<lparr>pm_Name = pool_name, pm_Tenant = ep_Namespace ep, pm_ServiceMetadata = service_metadata,
        pm_CloudConfigCksum = ep_ResourceVersion ep, pm_Port = 0, pm_Servers = [],
        pm_Protocol = protocol\<rparr>)"

definition pool_rest_op ::
  "'w Env \<Rightarrow> 'w K8sState \<Rightarrow> Endpoints \<Rightarrow> ServiceMetadataObj \<Rightarrow> string \<Rightarrow> RestOp list
   \<Rightarrow> RestOp list go" where
  "pool_rest_op env st ep service_metadata pool_name rest_ops =
     (if same_cksum (PoolCache (avi_obj_cache st)) (ep_Namespace ep) pool_name (ep_ResourceVersion ep)
      then Ok rest_ops
      else go_bind (split_pool_name pool_name) (\<lambda>pp.
        Ok (rest_ops @ [AviPoolBuild (env_version env)
                          (build_pool_meta ep service_metadata pool_name pp)])))"

section \<open>K8sObjCrUpd\<close>

definition set_pool_cache :: "'w K8sState \<Rightarrow> (iface, iface) AviCache \<Rightarrow> 'w K8sState" where
  "set_pool_cache st c = st\<lparr>avi_obj_cache := (avi_obj_cache st)\<lparr>PoolCache := c\<rparr>\<rparr>"

definition set_vs_cache :: "'w K8sState \<Rightarrow> (iface, iface) AviCache \<Rightarrow> 'w K8sState" where
  "set_vs_cache st c = st\<lparr>avi_obj_cache := (avi_obj_cache st)\<lparr>VsCache := c\<rparr>\<rparr>"

text \<open>
  \<^verbatim>\<open>AviRestOperate(AviClient[shard], rest_ops)\<close> on the shared state, which panics when there is
  no such client.
\<close>

definition rest_operate ::
  "'w Env \<Rightarrow> uint32 \<Rightarrow> RestOp list \<Rightarrow> 'w K8sState \<Rightarrow> (go_error option \<times> RestOp list \<times> 'w K8sState) go" where
  "rest_operate env shard rest_ops st =
     go_bind (go_index (AviClient st) (unat shard)) (\<lambda>sess.
       case AviRestOperate (env_api env) sess rest_ops (world st) of
         (err, rest_ops', sess', w') \<Rightarrow>
           Ok (err, rest_ops',
               st\<lparr>AviClient := (AviClient st)[unat shard := sess'], world := w'\<rparr>))"

text \<open>A cache update whose error the caller ignores, applied to the operations that succeeded.\<close>

definition add_pool_op :: "RestOp \<Rightarrow> 'w K8sState \<Rightarrow> 'w K8sState go" where
  "add_pool_op rest_op st =
     (if op_Err rest_op = None then
        go_bind (AviPoolCacheAdd (PoolCache (avi_obj_cache st)) rest_op)
          (\<lambda>(err, c). Ok (set_pool_cache st c))
      else Ok st)"

definition K8sEp_K8sObjCrUpd ::
  "'w Env \<Rightarrow> uint32 \<Rightarrow> Endpoints \<Rightarrow> string \<Rightarrow> string \<Rightarrow> 'w K8sState
   \<Rightarrow> (RestOp list \<times> go_error option \<times> 'w K8sState) go" where
  "K8sEp_K8sObjCrUpd env shard ep name_prefix crud_hash_key st =
     (case lister_Get ''service'' (ServiceInformer (env_informers env)) (ep_Namespace ep) (ep_Name ep) of
        Inl err \<Rightarrow> Ok ([], Some (SkipSyncError ''Skip sync''), st)
      | Inr svc \<Rightarrow>
          go_bind (ready_ports svc (ep_Subsets ep) []) (\<lambda>ports.
          case ports of
            None \<Rightarrow> Ok ([], None, st)
          | Some port_protocols \<Rightarrow>
              go_bind (pools_to_update env st ep name_prefix crud_hash_key port_protocols) (\<lambda>pools.
              case pools of
                None \<Rightarrow> Ok ([], None, st)
              | Some (pool_names, service_metadata) \<Rightarrow>
                  go_bind (go_fold (pool_rest_op env st ep service_metadata) pool_names []) (\<lambda>rest_ops.
                    if name_prefix = '''' then
                      go_bind (rest_operate env shard rest_ops st) (\<lambda>(err, rest_ops', st1).
                      go_bind (go_fold add_pool_op rest_ops' st1) (\<lambda>st2. Ok ([], None, st2)))
                    else Ok (rest_ops, None, st)))))"

definition K8sEp_K8sObjDelete ::
  "uint32 \<Rightarrow> string \<Rightarrow> 'w K8sState \<Rightarrow> (RestOp list \<times> go_error option \<times> 'w K8sState) go" where
  "K8sEp_K8sObjDelete shard key st = Ok ([], None, st)"

section \<open>The cache from Services to pools\<close>

definition K8sEpSvcToPoolCacheAdd ::
  "NamespaceName \<Rightarrow> string \<Rightarrow> RestOp \<Rightarrow> 'w K8sState \<Rightarrow> (go_error option \<times> 'w K8sState) go" where
  "K8sEpSvcToPoolCacheAdd key pre rest_op st =
     go_bind (AviSvcToPoolCacheAdd (svc_to_pool_cache st) rest_op pre key)
       (\<lambda>(err, mc). Ok (err, st\<lparr>svc_to_pool_cache := mc\<rparr>))"

definition K8sEpSvcToPoolCacheGet :: "NamespaceName \<Rightarrow> 'w K8sState \<Rightarrow> iface list option" where
  "K8sEpSvcToPoolCacheGet key st = AviMultiCacheGetKey (svc_to_pool_cache st) (INsName key)"

definition K8sEpSvcToPoolCacheDel ::
  "'w Env \<Rightarrow> NamespaceName \<Rightarrow> string \<Rightarrow> 'w K8sState \<Rightarrow> 'w K8sState" where
  "K8sEpSvcToPoolCacheDel env key pre st =
     st\<lparr>svc_to_pool_cache := AviSvcToPoolCacheDel (ord_pools env) (svc_to_pool_cache st) pre key\<rparr>"

section \<open>Pool names\<close>

text \<open>
  A prefix is plain when the text \<^verbatim>\<open>-pool-\<close> appended to it occurs there for the first time.
\<close>

definition plain_prefix :: "string \<Rightarrow> bool" where
  "plain_prefix p \<longleftrightarrow> clear_of ''-pool-'' p ''-pool-''"

lemma clear_of_extend: "clear_of sep p (sep @ r) \<longleftrightarrow> clear_of sep p sep"
proof (induction p)
  case (Cons c p)
  have "prefix sep ((c # p @ sep) @ r) \<longleftrightarrow> prefix sep (c # p @ sep)"
    by (metis le_add2 length_Cons length_append le_SucI prefix_length_prefix prefix_prefix prefixI)
  with Cons show ?case by simp
qed simp

lemma clear_of_two_dashes:
  "CHR ''-'' \<notin> set a \<Longrightarrow> CHR ''-'' \<notin> set b \<Longrightarrow> CHR ''-'' \<in> set sep \<Longrightarrow>
   clear_of (CHR ''-'' # sep) (a @ CHR ''-'' # b) []"
proof (induction a)
  case Nil
  have "\<not> prefix sep b" using Nil by (meson set_mono_prefix subsetD)
  with Nil show ?case by (simp add: clear_of_char)
qed auto

lemma split_pool_name_of:
  assumes "plain_prefix p" "CHR ''-'' \<notin> set port" "CHR ''-'' \<notin> set protocol"
  shows "split_pool_name (pool_name_of p port protocol) = Ok (port, protocol)"
proof -
  have "Split ''-pool-'' (pool_name_of p port protocol)
      = p # Split ''-pool-'' (port @ ''-'' @ protocol)"
    using Split_clear [of "''-pool-''" p "port @ ''-'' @ protocol"] assms(1)
    unfolding pool_name_of_def plain_prefix_def clear_of_extend by blast
  moreover have "Split ''-pool-'' (port @ ''-'' @ protocol) = [port @ ''-'' @ protocol]"
    using Split_clear_end [of "''-pool-''" "port @ ''-'' @ protocol"]
      clear_of_two_dashes [OF assms(2,3), of "''pool-''"] by simp
  moreover have "Split ''-'' (port @ ''-'' @ protocol) = [port, protocol]"
    using assms(2,3) Split_char [of "CHR ''-''" port protocol] by (simp add: Split_char_end)
  ultimately show ?thesis by (simp add: split_pool_name_def go_index_def)
qed

text \<open>A Service whose name contains the separator gives pools whose names do not split.\<close>

lemma split_pool_name_panics:
  assumes "plain_prefix p" "CHR ''-'' \<notin> set q"
  shows "split_pool_name (pool_name_of (p @ ''-pool-'' @ q) port protocol) = Panic IndexOutOfRange"
proof -
  let ?r = "port @ ''-'' @ protocol"
  have "Split ''-pool-'' (p @ ''-pool-'' @ q @ ''-pool-'' @ ?r)
      = p # Split ''-pool-'' (q @ ''-pool-'' @ ?r)"
    using Split_clear [of "''-pool-''" p "q @ ''-pool-'' @ ?r"] assms(1)
    unfolding plain_prefix_def clear_of_extend by blast
  moreover have "Split ''-pool-'' (q @ ''-pool-'' @ ?r) = q # Split ''-pool-'' ?r"
    using Split_clear [of "''-pool-''" q ?r] clear_of_char [OF assms(2)] by blast
  ultimately show ?thesis
    using assms(2) by (simp add: split_pool_name_def pool_name_of_def go_index_def Split_char_end)
qed

section \<open>The ports with ready endpoints\<close>

lemma subset_ports_spec:
  assumes "subset_ports svc epps acc = Ok (Some pps)" "distinct acc"
  shows "distinct pps \<and> set pps = set acc \<union>
    {pp. \<exists>epp \<in> set epps. ep_target_port svc epp = Ok (Some (psp_Port pp))
         \<and> psp_Protocol pp = proto_name (epp_Protocol epp)}"
  using assms
proof (induction epps arbitrary: acc)
  case (Cons epp epps)
  from Cons.prems(1) obtain t where t: "ep_target_port svc epp = Ok (Some t)"
    by (auto split: option.splits)
  let ?pp = "\<lparr>psp_Port = t, psp_Protocol = proto_name (epp_Protocol epp)\<rparr>"
  let ?acc = "if ?pp \<in> set acc then acc else acc @ [?pp]"
  have "distinct ?acc" "set ?acc = insert ?pp (set acc)" using Cons.prems(2) by auto
  moreover from Cons.prems(1) t have "subset_ports svc epps ?acc = Ok (Some pps)"
    by (simp add: Let_def)
  ultimately have "distinct pps" and s: "set pps = insert ?pp (set acc) \<union>
     {pp. \<exists>epp \<in> set epps. ep_target_port svc epp = Ok (Some (psp_Port pp))
         \<and> psp_Protocol pp = proto_name (epp_Protocol epp)}"
    using Cons.IH [of ?acc] by simp_all
  moreover have "{pp. ep_target_port svc epp = Ok (Some (psp_Port pp))
      \<and> psp_Protocol pp = proto_name (epp_Protocol epp)} = {?pp}"
    using t by auto
  ultimately show ?case by auto
qed simp

definition ready_pp :: "Service \<Rightarrow> EndpointSubset list \<Rightarrow> AviPortStrProtocol set" where
  "ready_pp svc sss = {pp. \<exists>ss \<in> set sss. ss_Addresses ss \<noteq> [] \<and> (\<exists>epp \<in> set (ss_Ports ss).
     ep_target_port svc epp = Ok (Some (psp_Port pp)) \<and> psp_Protocol pp = proto_name (epp_Protocol epp))}"

lemma ready_ports_spec:
  assumes "ready_ports svc sss acc = Ok (Some pps)" "distinct acc"
  shows "distinct pps \<and> set pps = set acc \<union> ready_pp svc sss"
  using assms
proof (induction sss arbitrary: acc)
  case (Cons ss sss)
  show ?case
  proof (cases "ss_Addresses ss = []")
    case True
    with Cons show ?thesis by (auto simp: ready_pp_def)
  next
    case False
    with Cons.prems obtain acc' where a: "subset_ports svc (ss_Ports ss) acc = Ok (Some acc')"
      "ready_ports svc sss acc' = Ok (Some pps)" by (auto split: option.splits)
    from subset_ports_spec [OF a(1) Cons.prems(2)] Cons.IH [OF a(2)] False show ?thesis
      by (auto simp: ready_pp_def)
  qed
qed (simp add: ready_pp_def)

text \<open>A Service with a port makes the scan return.\<close>

lemma subset_ports_total: "svc_Ports svc \<noteq> [] \<Longrightarrow> \<exists>r. subset_ports svc epps acc = Ok r"
proof (induction epps arbitrary: acc)
  case (Cons epp epps)
  have "\<exists>r. ep_target_port svc epp = Ok r"
    using Cons.prems by (auto simp: ep_target_port_def go_index_def Let_def)
  then obtain r where "ep_target_port svc epp = Ok r" by blast
  with Cons show ?case by (cases r) (simp_all add: Let_def del: go_bind_eq_Ok)
qed simp

lemma ready_ports_total: "svc_Ports svc \<noteq> [] \<Longrightarrow> \<exists>r. ready_ports svc sss acc = Ok r"
proof (induction sss arbitrary: acc)
  case (Cons ss sss)
  from subset_ports_total [OF Cons.prems] obtain r where "subset_ports svc (ss_Ports ss) acc = Ok r" by blast
  with Cons show ?case by (cases r) auto
qed simp

section \<open>The servers of a pool\<close>

lemma fold_add_subset:
  "fold (add_subset port protocol) sss m = m
     \<lparr>pm_Servers := pm_Servers m @ concat (map (\<lambda>ss. map meta_server (ss_Addresses ss))
        (filter (\<lambda>ss. match_port port protocol (ss_Ports ss) \<noteq> None) sss)),
      pm_Port := last (pm_Port m # List.map_filter (\<lambda>ss. match_port port protocol (ss_Ports ss)) sss)\<rparr>"
proof (induction sss arbitrary: m)
  case (Cons ss sss)
  then show ?case
    by (cases "match_port port protocol (ss_Ports ss)") (simp_all add: add_subset_def map_filter_simps)
qed simp

lemma build_pool_meta_servers:
  "pm_Servers (build_pool_meta ep md n (port, protocol)) =
     concat (map (\<lambda>ss. map meta_server (ss_Addresses ss))
       (filter (\<lambda>ss. match_port port protocol (ss_Ports ss) \<noteq> None) (ep_Subsets ep)))"
  by (simp add: build_pool_meta_def fold_add_subset)

lemma build_pool_meta_port:
  "pm_Port (build_pool_meta ep md n (port, protocol)) =
     last (0 # List.map_filter (\<lambda>ss. match_port port protocol (ss_Ports ss)) (ep_Subsets ep))"
  by (simp add: build_pool_meta_def fold_add_subset)

lemma build_pool_meta_fields:
  "pm_Name (build_pool_meta ep md n pp) = n"
  "pm_Tenant (build_pool_meta ep md n pp) = ep_Namespace ep"
  "pm_ServiceMetadata (build_pool_meta ep md n pp) = md"
  "pm_CloudConfigCksum (build_pool_meta ep md n pp) = ep_ResourceVersion ep"
  "pm_Protocol (build_pool_meta ep md n pp) = snd pp"
  by (simp_all add: build_pool_meta_def fold_add_subset split: prod.split)

section \<open>The operations on pools\<close>

text \<open>The operations of a batch of pools are the builds of the pools whose checksum differs.\<close>

definition stale :: "'w K8sState \<Rightarrow> Endpoints \<Rightarrow> string \<Rightarrow> bool" where
  "stale st ep pool_name \<longleftrightarrow>
     \<not> same_cksum (PoolCache (avi_obj_cache st)) (ep_Namespace ep) pool_name (ep_ResourceVersion ep)"

definition pool_op :: "'w Env \<Rightarrow> Endpoints \<Rightarrow> ServiceMetadataObj \<Rightarrow> string \<Rightarrow> RestOp go" where
  "pool_op env ep md pool_name = go_bind (split_pool_name pool_name)
     (\<lambda>pp. Ok (AviPoolBuild (env_version env) (build_pool_meta ep md pool_name pp)))"

lemma pool_rest_op_alt:
  "pool_rest_op env st ep md n ops =
     (if stale st ep n then go_bind (pool_op env ep md n) (\<lambda>op. Ok (ops @ [op])) else Ok ops)"
  by (simp add: pool_rest_op_def stale_def pool_op_def go_bind_assoc)

lemma pool_rest_ops_eq:
  "go_fold (pool_rest_op env st ep md) names ops =
     go_bind (go_map (pool_op env ep md) (filter (stale st ep) names)) (\<lambda>ops'. Ok (ops @ ops'))"
proof (induction names arbitrary: ops)
  case (Cons n names)
  show ?case
  proof (cases "stale st ep n")
    case True
    with Cons.IH show ?thesis
      by (cases "pool_op env ep md n") (simp_all add: pool_rest_op_alt [of _ _ _ _ n] go_bind_assoc)
  qed (simp add: pool_rest_op_alt [of _ _ _ _ n] Cons)
qed simp

lemma pool_op_shape:
  assumes "pool_op env ep md n = Ok op"
  shows "op_Path op = ''/api/macro'' \<and> op_Method op = RestPost \<and> op_Model op = ''Pool''
    \<and> op_Tenant op = ep_Namespace ep \<and> op_Version op = env_version env \<and> op_Err op = None
    \<and> (\<exists>pp pool. split_pool_name n = Ok pp
        \<and> op_Obj op = ObjMacro \<lparr>macro_ModelName = ''Pool'', macro_Data = DataPool pool\<rparr>
        \<and> pool_Name pool = Some n \<and> pool_CloudConfigCksum pool = Some (ep_ResourceVersion ep)
        \<and> pool_ServiceMetadata pool = Some (marshal_metadata md)
        \<and> pool_Servers pool = map (build_server (pm_Port (build_pool_meta ep md n pp)))
              (pm_Servers (build_pool_meta ep md n pp)))"
proof -
  from assms obtain pp where "split_pool_name n = Ok pp"
    "op = AviPoolBuild (env_version env) (build_pool_meta ep md n pp)" by (auto simp: pool_op_def)
  then show ?thesis
    by (simp add: AviPoolBuild_def Let_def build_pool_meta_fields)
qed

section \<open>The state invariant\<close>

definition st_ok :: "'w K8sState \<Rightarrow> bool" where
  "st_ok st \<longleftrightarrow> pool_cache_ok (PoolCache (avi_obj_cache st))
     \<and> vs_cache_ok (VsCache (avi_obj_cache st)) \<and> svc_pool_ok (svc_to_pool_cache st)"

definition env_ok :: "'w Env \<Rightarrow> bool" where
  "env_ok env \<longleftrightarrow> reordering (ord_ports env) \<and> reordering (ord_pools env) \<and> reordering (ord_poolmap env)"

lemma st_ok_new: "st_ok (NewK8sEp NewAviObjCache clients w)"
  by (simp add: st_ok_def NewK8sEp_def NewAviObjCache_def cache_ok_new svc_pool_ok_new)

lemma set_cache_sel [simp]:
  "PoolCache (avi_obj_cache (set_pool_cache st c)) = c"
  "VsCache (avi_obj_cache (set_pool_cache st c)) = VsCache (avi_obj_cache st)"
  "svc_to_pool_cache (set_pool_cache st c) = svc_to_pool_cache st"
  "AviClient (set_pool_cache st c) = AviClient st"
  "world (set_pool_cache st c) = world st"
  "VsCache (avi_obj_cache (set_vs_cache st d)) = d"
  "PoolCache (avi_obj_cache (set_vs_cache st d)) = PoolCache (avi_obj_cache st)"
  "svc_to_pool_cache (set_vs_cache st d) = svc_to_pool_cache st"
  "AviClient (set_vs_cache st d) = AviClient st"
  "world (set_vs_cache st d) = world st"
  by (simp_all add: set_pool_cache_def set_vs_cache_def)

lemma rest_operate_eq_Ok:
  "rest_operate env shard ops st = Ok (err, ops', st') \<longleftrightarrow>
     unat shard < length (AviClient st) \<and>
     (\<exists>sess' w'. AviRestOperate (env_api env) (AviClient st ! unat shard) ops (world st) = (err, ops', sess', w')
        \<and> st' = st\<lparr>AviClient := (AviClient st)[unat shard := sess'], world := w'\<rparr>)"
  by (cases "AviRestOperate (env_api env) (AviClient st ! unat shard) ops (world st)")
    (auto simp: rest_operate_def go_index_def)

lemma rest_operate_frame:
  assumes "rest_operate env shard ops st = Ok (err, ops', st')"
  shows "avi_obj_cache st' = avi_obj_cache st" "svc_to_pool_cache st' = svc_to_pool_cache st"
    "svc_to_pg_cache st' = svc_to_pg_cache st" "length (AviClient st') = length (AviClient st)"
  using assms by (auto simp: rest_operate_eq_Ok)

lemma rest_operate_Ok:
  "unat shard < length (AviClient st) \<Longrightarrow> \<exists>r. rest_operate env shard ops st = Ok r"
  by (auto simp: rest_operate_def go_index_def split: prod.split)

lemma rest_operate_Nil:
  "unat shard < length (AviClient st) \<Longrightarrow> rest_operate env shard [] st = Ok (None, [], st)"
  by (simp add: rest_operate_def go_index_def)

lemma add_pool_op_ok:
  assumes "add_pool_op op st = Ok st'" "st_ok st"
  shows "st_ok st' \<and> length (AviClient st') = length (AviClient st)"
proof (cases "op_Err op = None")
  case True
  with assms(1) obtain err c where c: "AviPoolCacheAdd (PoolCache (avi_obj_cache st)) op = Ok (err, c)"
    "st' = set_pool_cache st c" by (auto simp: add_pool_op_def)
  with AviPoolCacheAdd_ok [OF c(1)] assms(2) show ?thesis by (simp add: st_ok_def)
next
  case False
  with assms show ?thesis by (simp add: add_pool_op_def del: not_None_eq)
qed

lemma K8sEp_K8sObjCrUpd_cases:
  assumes "K8sEp_K8sObjCrUpd env shard ep pre key st = Ok (ops, err, st')"
  obtains "st' = st"
  | ops1 e ops2 st1 where "pre = []" "rest_operate env shard ops1 st = Ok (e, ops2, st1)"
      "go_fold add_pool_op ops2 st1 = Ok st'" "ops = []" "err = None"
proof (cases "lister_Get ''service'' (ServiceInformer (env_informers env)) (ep_Namespace ep) (ep_Name ep)")
  case (Inl e)
  with assms that(1) show ?thesis by (simp add: K8sEp_K8sObjCrUpd_def)
next
  case (Inr svc)
  with assms obtain ports where p: "ready_ports svc (ep_Subsets ep) [] = Ok ports"
    by (auto simp: K8sEp_K8sObjCrUpd_def)
  show ?thesis
  proof (cases ports)
    case None
    with assms Inr p that(1) show ?thesis by (simp add: K8sEp_K8sObjCrUpd_def)
  next
    case (Some pps)
    with assms Inr p obtain pools where q: "pools_to_update env st ep pre key pps = Ok pools"
      by (auto simp: K8sEp_K8sObjCrUpd_def)
    show ?thesis
    proof (cases pools)
      case None
      with assms Inr p Some q that(1) show ?thesis by (simp add: K8sEp_K8sObjCrUpd_def)
    next
      case (Some r)
      with assms Inr p \<open>ports = Some pps\<close> q show ?thesis
        by (cases "pre = []") (auto simp: K8sEp_K8sObjCrUpd_def split: prod.splits intro: that)
    qed
  qed
qed

lemma K8sEp_K8sObjCrUpd_ok:
  assumes "K8sEp_K8sObjCrUpd env shard ep pre key st = Ok (ops, err, st')" "st_ok st"
  shows "st_ok st' \<and> length (AviClient st') = length (AviClient st)"
  using assms(1)
proof (cases rule: K8sEp_K8sObjCrUpd_cases)
  case (2 ops1 e ops2 st1)
  have "st_ok st1 \<and> length (AviClient st1) = length (AviClient st)"
    using rest_operate_frame [OF 2(2)] assms(2) by (simp add: st_ok_def)
  with 2(3) show ?thesis
    by (rule go_fold_inv [where I = "\<lambda>s. st_ok s \<and> length (AviClient s) = length (AviClient st)"])
      (use add_pool_op_ok in fastforce)
qed (use assms(2) in simp)

section \<open>What an event on Endpoints does\<close>

text \<open>The name of the pool in an entry \<^verbatim>\<open>kind/pool\<close> of the cache from Services to pools.\<close>

definition entry_name :: "iface \<Rightarrow> string" where
  "entry_name v = (case v of IStr s \<Rightarrow> Split ''/'' s ! 1 | _ \<Rightarrow> [])"

definition entry_ok :: "iface \<Rightarrow> bool" where
  "entry_ok v = (case v of IStr s \<Rightarrow> CHR ''/'' \<in> set s | _ \<Rightarrow> False)"

lemma entry_ok_go_index:
  "CHR ''/'' \<in> set s \<Longrightarrow> go_index (Split ''/'' s) (Suc 0) = Ok (Split ''/'' s ! Suc 0)"
  using Split_length_char [of "CHR ''/''" s] count_list_0_iff [of s "CHR ''/''"] by (simp add: go_index_def)

lemma visit_pool_entry:
  "entry_ok v \<Longrightarrow> visit_pool t c v (ns, md) =
     Ok (ns @ [entry_name v],
         case AviCacheGet c (nsname t (entry_name v)) of
           None \<Rightarrow> md | Some (IPool p) \<Rightarrow> pc_ServiceMetadata p | Some _ \<Rightarrow> empty_metadata)"
  by (auto simp: visit_pool_def entry_ok_def entry_name_def entry_ok_go_index split: iface.splits)

lemma fold_visit_pool:
  "(\<And>v. v \<in> set vs \<Longrightarrow> entry_ok v) \<Longrightarrow>
   \<exists>md'. go_fold (visit_pool t c) vs (ns, md) = Ok (ns @ map entry_name vs, md')"
proof (induction vs arbitrary: ns md)
  case (Cons v vs)
  have "\<exists>md'. go_fold (visit_pool t c) vs (ns @ [entry_name v], md1)
      = Ok ((ns @ [entry_name v]) @ map entry_name vs, md')" for md1
    by (rule Cons.IH) (use Cons.prems in simp)
  with Cons.prems show ?case by (simp add: visit_pool_entry)
qed simp

text \<open>Pools that share their metadata keep it.\<close>

lemma fold_visit_pool_metadata:
  "(\<And>v. v \<in> set vs \<Longrightarrow> entry_ok v) \<Longrightarrow>
   (\<And>v. v \<in> set vs \<Longrightarrow> \<exists>p. AviCacheGet c (nsname t (entry_name v)) = Some (IPool p) \<and> pc_ServiceMetadata p = m)
   \<Longrightarrow> go_fold (visit_pool t c) vs (ns, md)
     = Ok (ns @ map entry_name vs, if vs = [] then md else m)"
proof (induction vs arbitrary: ns md)
  case (Cons v vs)
  from Cons.prems(2) [of v] obtain p where "AviCacheGet c (nsname t (entry_name v)) = Some (IPool p)"
    "pc_ServiceMetadata p = m" by auto
  with Cons.IH [of "ns @ [entry_name v]" m] Cons.prems show ?case by (simp add: visit_pool_entry)
qed simp

lemma svc_pool_ok_entries:
  assumes "svc_pool_ok mc" "AviMultiCacheGetKey mc k = Some row" "v \<in> set row"
  shows "entry_ok v"
proof -
  have "(k, v) \<in> mc_rel mc"
    using avi_mcache.row_rel [of mc k row] assms by (simp add: svc_pool_ok_def)
  with assms(1) show ?thesis by (fastforce simp: svc_pool_ok_def entry_ok_def)
qed

lemma pools_to_update_row:
  assumes "st_ok st" "env_ok env"
    "AviMultiCacheGetKey (svc_to_pool_cache st) (nsname (ep_Namespace ep) (ep_Name ep)) = Some row"
  shows "\<exists>md. pools_to_update env st ep [] key pps = Ok (Some (map entry_name (ord_pools env row), md))"
proof -
  have "\<forall>v \<in> set (ord_pools env row). entry_ok v"
    using assms svc_pool_ok_entries [OF _ assms(3)]
    by (simp add: st_ok_def env_ok_def reordering_set)
  then obtain md where "go_fold (visit_pool (ep_Namespace ep) (PoolCache (avi_obj_cache st)))
      (ord_pools env row) ([], empty_metadata) = Ok (map entry_name (ord_pools env row), md)"
    using fold_visit_pool [of "ord_pools env row" "ep_Namespace ep" "PoolCache (avi_obj_cache st)" "[]" empty_metadata]
    by auto
  with assms(3) show ?thesis by (simp add: pools_to_update_def)
qed

abbreviation svc_of :: "'w Env \<Rightarrow> Endpoints \<Rightarrow> Service option" where
  "svc_of env ep \<equiv> ServiceInformer (env_informers env) (ep_Namespace ep @ ''/'' @ ep_Name ep)"

lemma ep_event_no_service:
  "svc_of env ep = None \<Longrightarrow>
   K8sEp_K8sObjCrUpd env shard ep pre key st = Ok ([], Some (SkipSyncError ''Skip sync''), st)"
  by (simp add: K8sEp_K8sObjCrUpd_def lister_Get_def)

lemma ep_event_no_pools:
  assumes "svc_of env ep = Some svc" "svc_Ports svc \<noteq> []"
    "AviMultiCacheGetKey (svc_to_pool_cache st) (nsname (ep_Namespace ep) (ep_Name ep)) = None"
  shows "K8sEp_K8sObjCrUpd env shard ep [] key st = Ok ([], None, st)"
proof -
  obtain r where "ready_ports svc (ep_Subsets ep) [] = Ok r"
    using ready_ports_total [OF assms(2)] by blast
  with assms show ?thesis
    by (cases r) (simp_all add: K8sEp_K8sObjCrUpd_def lister_Get_def pools_to_update_def)
qed

lemma ep_event_fresh:
  assumes "st_ok st" "env_ok env" "svc_of env ep = Some svc" "svc_Ports svc \<noteq> []"
    "AviMultiCacheGetKey (svc_to_pool_cache st) (nsname (ep_Namespace ep) (ep_Name ep)) = Some row"
    "\<forall>v \<in> set row. \<not> stale st ep (entry_name v)" "unat shard < length (AviClient st)"
  shows "K8sEp_K8sObjCrUpd env shard ep [] key st = Ok ([], None, st)"
proof -
  obtain r where r: "ready_ports svc (ep_Subsets ep) [] = Ok r"
    using ready_ports_total [OF assms(4)] by blast
  obtain md where md: "pools_to_update env st ep [] key pps = Ok (Some (map entry_name (ord_pools env row), md pps))" for pps
    using pools_to_update_row [OF assms(1,2,5), of key] by metis
  have "filter (stale st ep) (map entry_name (ord_pools env row)) = []"
    using assms(2,6) by (simp add: filter_empty_conv env_ok_def reordering_set)
  with r md assms(3,7) show ?thesis
    by (cases r) (simp_all add: K8sEp_K8sObjCrUpd_def lister_Get_def pool_rest_ops_eq rest_operate_Nil)
qed

text \<open>
  Called for a Service, the handler builds a pool for every port with ready endpoints whose
  pool is not cached under the same version, and changes nothing.
\<close>

definition pool_build :: "'w Env \<Rightarrow> Endpoints \<Rightarrow> ServiceMetadataObj \<Rightarrow> string \<Rightarrow> AviPortStrProtocol \<Rightarrow> RestOp" where
  "pool_build env ep md pre pp =
     AviPoolBuild (env_version env)
       (build_pool_meta ep md (pool_name_of pre (psp_Port pp) (psp_Protocol pp)) (psp_Port pp, psp_Protocol pp))"

lemma svc_pools:
  assumes "svc_of env ep = Some svc" "ready_ports svc (ep_Subsets ep) [] = Ok (Some pps)"
    "env_ok env" "pre \<noteq> []" "plain_prefix pre"
    "\<forall>pp \<in> set pps. CHR ''-'' \<notin> set (psp_Port pp) \<and> CHR ''-'' \<notin> set (psp_Protocol pp)"
  shows "K8sEp_K8sObjCrUpd env shard ep pre key st =
    Ok (map (pool_build env ep \<lparr>CrudHashKey_field = key\<rparr> pre)
          (filter (\<lambda>pp. stale st ep (pool_name_of pre (psp_Port pp) (psp_Protocol pp))) (ord_ports env pps)),
        None, st)"
proof -
  let ?name = "\<lambda>pp. pool_name_of pre (psp_Port pp) (psp_Protocol pp)"
  let ?md = "\<lparr>CrudHashKey_field = key\<rparr>"
  let ?todo = "filter (\<lambda>pp. stale st ep (?name pp)) (ord_ports env pps)"
  have "set ?todo \<subseteq> set pps" using assms(3) by (auto simp: env_ok_def reordering_set)
  then have "go_map (\<lambda>pp. pool_op env ep ?md (?name pp)) ?todo = Ok (map (pool_build env ep ?md pre) ?todo)"
    using assms(5,6) by (intro go_map_all_Ok) (auto simp: pool_op_def split_pool_name_of pool_build_def)
  with assms(1,2,4) show ?thesis
    by (simp add: go_map_map K8sEp_K8sObjCrUpd_def lister_Get_def pools_to_update_def pool_rest_ops_eq filter_map o_def)
qed

section \<open>Properties\<close>

text \<open>
  The name of a pool is read back as the port and protocol it was made of, when the
  prefix does not contain the separator \<^verbatim>\<open>-pool-\<close>, also not across its end, and port and
  protocol have no hyphen.
\<close>

theorem pool_name_roundtrip:
  assumes "plain_prefix p" "CHR ''-'' \<notin> set port" "CHR ''-'' \<notin> set protocol"
  shows "split_pool_name (pool_name_of p port protocol) = Ok (port, protocol)"
  by (rule split_pool_name_of) (rule assms)+

theorem pool_name_roundtrip_witness:
  "split_pool_name (pool_name_of ''web-ui'' ''8080'' ''tcp'') = Ok (''8080'', ''tcp'')"
  by (rule pool_name_roundtrip) (simp_all add: plain_prefix_def)

text \<open>
  A Service whose name contains the separator \<^verbatim>\<open>-pool-\<close>, followed by text without a hyphen,
  makes the handler panic when it splits the name of a pool.
\<close>

theorem pool_name_panics:
  assumes "plain_prefix p" "CHR ''-'' \<notin> set q"
  shows "split_pool_name (pool_name_of (p @ ''-pool-'' @ q) port protocol) = Panic IndexOutOfRange"
  by (rule split_pool_name_panics) (rule assms)+

theorem pool_name_panics_witness:
  "split_pool_name (pool_name_of ''car-pool-app'' ''8080'' ''tcp'') = Panic IndexOutOfRange"
  using pool_name_panics [of "''car''" "''app''" "''8080''" "''tcp''"] by (simp add: plain_prefix_def)

text \<open>
  C26: the ports a Service gets pools for are, without repetition, the target ports and
  protocols of the ports of those subsets of the Endpoints that have a ready address.
\<close>

theorem ready_ports_exact:
  assumes "ready_ports svc subsets [] = Ok (Some pps)"
  shows "distinct pps \<and> (\<forall>pp. (pp \<in> set pps) = (\<exists>ss \<in> set subsets. ss_Addresses ss \<noteq> []
     \<and> (\<exists>epp \<in> set (ss_Ports ss). ep_target_port svc epp = Ok (Some (psp_Port pp))
          \<and> psp_Protocol pp = proto_name (epp_Protocol epp))))"
  using ready_ports_spec [OF assms] by (simp add: ready_pp_def)

definition small_svc :: Service where
  "small_svc = \<lparr>svc_Namespace = ''n'', svc_Name = ''s'', svc_ResourceVersion = ''1'',
     svc_Ports = [\<lparr>sp_Name = ''p'', sp_Protocol = ''UDP'', sp_Port = 53, sp_TargetPort = FromString ''dns''\<rparr>]\<rparr>"

definition small_subset :: EndpointSubset where
  "small_subset = \<lparr>ss_Addresses = [\<lparr>ea_IP = ''10.0.0.1'', ea_Hostname = '''', ea_NodeName = None, ea_TargetRef = None\<rparr>],
     ss_NotReadyAddresses = [], ss_Ports = [\<lparr>epp_Name = ''p'', epp_Port = 53, epp_Protocol = ''''\<rparr>]\<rparr>"

theorem ready_ports_exact_witness:
  "ready_ports small_svc [small_subset] [] = Ok (Some [\<lparr>psp_Port = ''dns'', psp_Protocol = ''tcp''\<rparr>])
   \<and> distinct [\<lparr>psp_Port = ''dns'', psp_Protocol = ''tcp''\<rparr>]"
proof -
  have r: "ready_ports small_svc [small_subset] [] = Ok (Some [\<lparr>psp_Port = ''dns'', psp_Protocol = ''tcp''\<rparr>])"
    by (simp add: small_svc_def small_subset_def ep_target_port_def IntOrString_String_def proto_name_def Let_def)
  from ready_ports_exact [OF r] r show ?thesis by blast
qed

text \<open>
  A port of the Endpoints belongs to a pool when its number is the one the pool's name carries or
  its name is the text there, and its protocol, in lower case, is the pool's.
\<close>

definition port_of_pool :: "string \<Rightarrow> string \<Rightarrow> EndpointPort \<Rightarrow> bool" where
  "port_of_pool port protocol epp \<longleftrightarrow>
     (epp_Port epp = int32_of_int (Atoi port) \<or> epp_Name epp = port) \<and> ToLower (epp_Protocol epp) = protocol"

lemma match_port_filter:
  "match_port port protocol epps = (case filter (port_of_pool port protocol) epps of [] \<Rightarrow> None | epp # _ \<Rightarrow> Some (epp_Port epp))"
  by (induction epps) (auto simp: port_of_pool_def)

text \<open>
  C27: the servers of a pool that is sent are, in order, the ready addresses of the subsets that
  have a port of the pool, each with its address family and node; not-ready addresses and other
  subsets give none. Every server gets the number of the first port of the pool in the last such
  subset, also the servers of the subsets before it. The pool is sent when the cache has it not
  yet under the version of the Endpoints and its name can be split.
\<close>

theorem pool_servers_exact:
  assumes "\<not> same_cksum (PoolCache (avi_obj_cache st)) (ep_Namespace ep) n (ep_ResourceVersion ep)"
    "split_pool_name n = Ok (port, protocol)"
    "matching = filter (\<lambda>ss. \<exists>epp \<in> set (ss_Ports ss). port_of_pool port protocol epp) (ep_Subsets ep)"
    "number = epp_Port (hd (filter (port_of_pool port protocol) (ss_Ports (last matching))))"
  shows "\<exists>op pool. pool_rest_op env st ep md n ops = Ok (ops @ [op])
    \<and> op_Obj op = ObjMacro \<lparr>macro_ModelName = ''Pool'', macro_Data = DataPool pool\<rparr> \<and> pool_Name pool = Some n
    \<and> pool_Servers pool = map (\<lambda>addr.
        \<lparr>srv_IP = Some \<lparr>ip_Type = Some (if IsV4 (ea_IP addr) then ''V4'' else ''V6''), ip_Addr = Some (ea_IP addr)\<rparr>,
         srv_Port = Some number, srv_ServerNode = (if ea_NodeName addr = Some '''' then None else ea_NodeName addr)\<rparr>)
        (concat (map ss_Addresses matching))"
proof -
  let ?m = "build_pool_meta ep md n (port, protocol)"
  have none: "match_port port protocol epps = None \<longleftrightarrow> filter (port_of_pool port protocol) epps = []" for epps
    by (simp add: match_port_filter split: list.split)
  have m: "filter (\<lambda>ss. match_port port protocol (ss_Ports ss) \<noteq> None) (ep_Subsets ep) = matching"
    unfolding assms(3) none by (simp add: filter_empty_conv)
  have port: "pm_Port ?m = number" if "matching \<noteq> []"
  proof -
    have "filter (port_of_pool port protocol) (ss_Ports (last matching)) \<noteq> []"
      using that last_in_set [OF that] unfolding m [symmetric] by (simp add: none)
    then have "match_port port protocol (ss_Ports (last matching)) = Some number"
      unfolding assms(4) by (simp add: match_port_filter neq_Nil_conv split: list.split)
    moreover have "List.map_filter (\<lambda>ss. match_port port protocol (ss_Ports ss)) (ep_Subsets ep) =
        map (\<lambda>ss. the (match_port port protocol (ss_Ports ss))) matching"
      unfolding map_filter_def m by (simp add: comp_def)
    ultimately show ?thesis using that by (simp add: build_pool_meta_port last_map)
  qed
  have "map (build_server (pm_Port ?m)) (pm_Servers ?m) = map (\<lambda>addr. build_server number (meta_server addr)) (concat (map ss_Addresses matching))"
    unfolding build_pool_meta_servers m using port by (cases "matching = []") (simp_all add: map_concat comp_def)
  moreover have "build_server number (meta_server addr) =
    \<lparr>srv_IP = Some \<lparr>ip_Type = Some (if IsV4 (ea_IP addr) then ''V4'' else ''V6''), ip_Addr = Some (ea_IP addr)\<rparr>,
         srv_Port = Some number, srv_ServerNode = (if ea_NodeName addr = Some '''' then None else ea_NodeName addr)\<rparr>" for addr
    by (auto simp: build_server_def meta_server_def split: option.split)
  ultimately show ?thesis
    using assms(1,2) by (simp add: pool_rest_op_def AviPoolBuild_def build_pool_meta_fields Let_def)
qed

definition two_subsets :: Endpoints where
  "two_subsets = \<lparr>ep_Namespace = ''n'', ep_Name = ''s'', ep_ResourceVersion = ''3'', ep_Subsets =
     [\<lparr>ss_Addresses = [\<lparr>ea_IP = ''10.0.0.1'', ea_Hostname = '''', ea_NodeName = Some ''node1'', ea_TargetRef = None\<rparr>],
       ss_NotReadyAddresses = [\<lparr>ea_IP = ''10.0.0.9'', ea_Hostname = '''', ea_NodeName = None, ea_TargetRef = None\<rparr>],
       ss_Ports = [\<lparr>epp_Name = ''dns'', epp_Port = 53, epp_Protocol = ''TCP''\<rparr>]\<rparr>,
      \<lparr>ss_Addresses = [\<lparr>ea_IP = ''10.0.0.2'', ea_Hostname = '''', ea_NodeName = None, ea_TargetRef = None\<rparr>],
       ss_NotReadyAddresses = [],
       ss_Ports = [\<lparr>epp_Name = ''dns'', epp_Port = 53, epp_Protocol = ''UDP''\<rparr>]\<rparr>,
      \<lparr>ss_Addresses = [\<lparr>ea_IP = ''10.0.0.3'', ea_Hostname = '''', ea_NodeName = None, ea_TargetRef = None\<rparr>],
       ss_NotReadyAddresses = [],
       ss_Ports = [\<lparr>epp_Name = ''web'', epp_Port = 80, epp_Protocol = ''TCP''\<rparr>,
                   \<lparr>epp_Name = ''dns'', epp_Port = 5353, epp_Protocol = ''TCP''\<rparr>]\<rparr>]\<rparr>"

definition quiet_env :: "unit Env" where
  "quiet_env = \<lparr>env_api = silent_api, env_version = ''19.1.1'',
     env_informers = \<lparr>ServiceInformer = Map.empty, EpInformer = Map.empty, IngInformer = Map.empty\<rparr>,
     ord_ports = (\<lambda>xs. xs), ord_pools = (\<lambda>xs. xs), ord_poolmap = (\<lambda>xs. xs)\<rparr>"

theorem pool_servers_exact_witness:
  "\<exists>op pool. pool_rest_op quiet_env (NewK8sEp NewAviObjCache [] ()) two_subsets empty_metadata ''s-pool-dns-tcp'' [] = Ok [op]
    \<and> op_Obj op = ObjMacro \<lparr>macro_ModelName = ''Pool'', macro_Data = DataPool pool\<rparr>
    \<and> map (\<lambda>s. (map_option ip_Addr (srv_IP s), srv_Port s)) (pool_Servers pool) =
       [(Some (Some ''10.0.0.1''), Some 5353), (Some (Some ''10.0.0.3''), Some 5353)]"
proof -
  let ?st = "NewK8sEp NewAviObjCache [] ()"
  have c: "\<not> same_cksum (PoolCache (avi_obj_cache ?st)) (ep_Namespace two_subsets) ''s-pool-dns-tcp'' (ep_ResourceVersion two_subsets)"
    by (simp add: same_cksum_def NewK8sEp_def NewAviObjCache_def cache_simps)
  have s: "split_pool_name ''s-pool-dns-tcp'' = Ok (''dns'', ''tcp'')" by code_simp
  have p: "int32_of_int (Atoi ''dns'') = 0" "ToLower ''TCP'' = ''tcp''" "ToLower ''UDP'' = ''udp''" by code_simp+
  from pool_servers_exact [OF c s refl refl, of quiet_env empty_metadata "[]"] obtain op pool where
    r: "pool_rest_op quiet_env ?st two_subsets empty_metadata ''s-pool-dns-tcp'' [] = Ok [op]"
      "op_Obj op = ObjMacro \<lparr>macro_ModelName = ''Pool'', macro_Data = DataPool pool\<rparr>"
    and "pool_Servers pool = map (\<lambda>addr.
        \<lparr>srv_IP = Some \<lparr>ip_Type = Some (if IsV4 (ea_IP addr) then ''V4'' else ''V6''), ip_Addr = Some (ea_IP addr)\<rparr>,
         srv_Port = Some 5353, srv_ServerNode = (if ea_NodeName addr = Some '''' then None else ea_NodeName addr)\<rparr>)
        [\<lparr>ea_IP = ''10.0.0.1'', ea_Hostname = '''', ea_NodeName = Some ''node1'', ea_TargetRef = None\<rparr>,
         \<lparr>ea_IP = ''10.0.0.3'', ea_Hostname = '''', ea_NodeName = None, ea_TargetRef = None\<rparr>]"
    by (elim exE conjE) (rule that, auto simp: two_subsets_def port_of_pool_def p)
  then have "map (\<lambda>s. (map_option ip_Addr (srv_IP s), srv_Port s)) (pool_Servers pool) =
       [(Some (Some ''10.0.0.1''), Some 5353), (Some (Some ''10.0.0.3''), Some 5353)]" by simp
  with r show ?thesis by (intro exI conjI)
qed

end
