(* ===== verification/K8s_Svc.thy ===== *)
theory K8s_Svc
  imports K8s_Ep
begin

text \<open>
  \<^verbatim>\<open>pkg/k8s/k8s_svc.go\<close>: the handler of Services, which creates the pools and the virtual service
  of a Service in one batch, undoes the batch when it fails, and records it when it succeeds.
  The \<^verbatim>\<open>K8sSvc\<close> struct holds pointers to what \<open>K8sState\<close> holds, so \<^verbatim>\<open>NewK8sSvc\<close> adds no state.
\<close>

section \<open>The metadata of the virtual service\<close>

text \<open>Assignment to a Go map listed in insertion order.\<close>

fun map_put :: "'k \<Rightarrow> 'v \<Rightarrow> ('k \<times> 'v) list \<Rightarrow> ('k \<times> 'v) list" where
  "map_put k v [] = [(k, v)]"
| "map_put k v ((k', v') # m) = (if k' = k then (k, v) # m else (k', v') # map_put k v m)"

record PortScan =
  scan_meta :: K8sAviVsMeta
  is_http :: bool
  is_udp :: bool

definition port_proto :: "ServicePort \<Rightarrow> AviPortProtocol" where
  "port_proto svc_port =
     \<lparr>pp_Port = sp_Port svc_port, pp_Protocol = proto_name (sp_Protocol svc_port)\<rparr>"

definition svc_pool_name :: "Service \<Rightarrow> ServicePort \<Rightarrow> string" where
  "svc_pool_name svc svc_port =
     pool_name_of (svc_Name svc) (IntOrString_String (sp_TargetPort svc_port))
       (proto_name (sp_Protocol svc_port))"

definition scan_port :: "Service \<Rightarrow> ServicePort \<Rightarrow> PortScan \<Rightarrow> PortScan" where
  "scan_port svc svc_port sc =
     (let prot = proto_name (sp_Protocol svc_port);
          pp = port_proto svc_port;
          m1 = (scan_meta sc)\<lparr>vm_PortProto := vm_PortProto (scan_meta sc) @ [pp]\<rparr>;
          http1 = (if prot \<noteq> ''tcp'' then False else is_http sc);
          udp1 = (if prot \<noteq> ''tcp'' then is_udp sc else False);
          m2 = (if length (svc_Ports svc) > 1
                then m1\<lparr>vm_PoolMap := map_put pp (svc_pool_name svc svc_port) (vm_PoolMap m1)\<rparr>
                else m1);
          http2 = (if \<not> IsSvcHttp (sp_Name svc_port) (sp_Port svc_port) then False else http1)
      in \<lparr>scan_meta = m2, is_http = http2, is_udp = udp1\<rparr>)"

text \<open>The name of the first pool operation, for a Service with a single port.\<close>

fun default_pool :: "RestOp list \<Rightarrow> string go" where
  "default_pool [] = Ok ''''"
| "default_pool (op # ops) =
     (if op_Model op = ''Pool'' then
        (case op_Obj op of
           ObjMacro macro \<Rightarrow>
             (case macro_Data macro of
                DataPool pool \<Rightarrow>
                  (case pool_Name pool of Some n \<Rightarrow> Ok n | None \<Rightarrow> Panic NilDereference)
              | _ \<Rightarrow> Ok '''')
         | _ \<Rightarrow> Ok '''')
      else default_pool ops)"

definition svc_vs_meta :: "Service \<Rightarrow> string \<Rightarrow> RestOp list \<Rightarrow> K8sAviVsMeta go" where
  "svc_vs_meta svc crud_hash_key pool_rest_ops =
     (let meta0 = \<lparr>vm_Name = svc_Name svc, vm_Tenant = svc_Namespace svc,
                   vm_ServiceMetadata = \<lparr>CrudHashKey_field = crud_hash_key\<rparr>,
                   vm_ApplicationProfile = '''', vm_NetworkProfile = '''', vm_PortProto = [],
                   vm_PoolMap = [], vm_DefaultPool = '''', vm_EastWest = True,
                   vm_CloudConfigCksum = svc_ResourceVersion svc\<rparr>;
          sc = fold (scan_port svc) (svc_Ports svc)
                 \<lparr>scan_meta = meta0, is_http = True, is_udp = True\<rparr>
      in go_bind (if length (svc_Ports svc) = 1 then default_pool pool_rest_ops else Ok '''') (\<lambda>dpool.
           Ok ((scan_meta sc)
             \<lparr>vm_DefaultPool := dpool,
              vm_ApplicationProfile := (if is_http sc then ''System-HTTP'' else ''System-L4-Application''),
              vm_NetworkProfile := (if is_udp sc then ''System-UDP-Fast-Path'' else ''System-TCP-Proxy'')\<rparr>)))"

section \<open>Undoing and recording a batch\<close>

text \<open>The body of the rollback loop: the first object of a response is deleted by its UUID.\<close>

definition rollback_url :: "RestOp \<Rightarrow> string option go" where
  "rollback_url op =
     (if op_Err op = None then
        (case op_Response op of
           JArr resp_arr \<Rightarrow>
             go_bind (go_index resp_arr 0) (\<lambda>r.
               case r of
                 JObj resp \<Rightarrow>
                   (case jstring (jget resp ''uuid'') of
                      None \<Rightarrow> Ok None
                    | Some uuid \<Rightarrow> Ok (Some (AviModelToUrl (op_Model op) @ ''/'' @ uuid)))
               | _ \<Rightarrow> Ok None)
         | _ \<Rightarrow> Ok None)
      else Ok None)"

definition rollback_op :: "'w AviApi \<Rightarrow> AviSession \<Rightarrow> RestOp \<Rightarrow> 'w \<Rightarrow> 'w go" where
  "rollback_op api sess op w =
     go_bind (rollback_url op) (\<lambda>url.
       Ok (case url of None \<Rightarrow> w | Some u \<Rightarrow> snd (api_Delete api sess u None w)))"

definition rollback ::
  "'w Env \<Rightarrow> uint32 \<Rightarrow> RestOp list \<Rightarrow> 'w K8sState \<Rightarrow> 'w K8sState go" where
  "rollback env shard rest_ops st =
     go_bind (go_index (AviClient st) (unat shard)) (\<lambda>sess.
     go_bind (go_fold (rollback_op (env_api env) sess) (rev rest_ops) (world st)) (\<lambda>w.
       Ok (st\<lparr>world := w\<rparr>)))"

definition record_op :: "NamespaceName \<Rightarrow> RestOp \<Rightarrow> 'w K8sState \<Rightarrow> 'w K8sState go" where
  "record_op vs_cache_key op st =
     (if op_Err op = None then
        if op_Model op = ''Pool'' then
          go_bind (AviPoolCacheAdd (PoolCache (avi_obj_cache st)) op) (\<lambda>(err, c).
          go_bind (K8sEpSvcToPoolCacheAdd vs_cache_key ''service'' op (set_pool_cache st c))
            (\<lambda>(err, st'). Ok st'))
        else if op_Model op = ''VirtualService'' then
          go_bind (AviVsCacheAdd (VsCache (avi_obj_cache st)) op) (\<lambda>(err, c).
            Ok (set_vs_cache st c))
        else Ok st
      else Ok st)"

section \<open>K8sObjCrUpd\<close>

definition svc_unchanged :: "'w K8sState \<Rightarrow> Service \<Rightarrow> bool" where
  "svc_unchanged st svc =
     (case AviCacheGet (VsCache (avi_obj_cache st)) (nsname (svc_Namespace svc) (svc_Name svc)) of
        Some (IVs vs_cache_obj) \<Rightarrow> vc_CloudConfigCksum vs_cache_obj = svc_ResourceVersion svc
      | _ \<Rightarrow> False)"

definition K8sSvc_K8sObjCrUpd ::
  "'w Env \<Rightarrow> uint32 \<Rightarrow> Service \<Rightarrow> 'w K8sState \<Rightarrow> (RestOp list \<times> go_error option \<times> 'w K8sState) go" where
  "K8sSvc_K8sObjCrUpd env shard svc st =
     (case lister_Get ''endpoints'' (EpInformer (env_informers env)) (svc_Namespace svc) (svc_Name svc) of
        Inl err \<Rightarrow>
          Ok ([], Some (ErrorString (''Svc ep Namespace '' @ svc_Namespace svc @ '' Name ''
                                     @ svc_Name svc @ '' not found'')), st)
      | Inr ep \<Rightarrow>
          if svc_unchanged st svc then Ok ([], None, st)
          else
            go_bind (CrudHashKey ''Service'' (KService svc)) (\<lambda>crud_hash_key.
            go_bind (K8sEp_K8sObjCrUpd env shard ep (svc_Name svc) crud_hash_key st)
              (\<lambda>(pool_rest_ops, ep_err, st1).
            go_bind (svc_vs_meta svc crud_hash_key pool_rest_ops) (\<lambda>avi_vs_meta.
            let rest_ops = pool_rest_ops @ AviVsBuild (ord_poolmap env) (env_version env) avi_vs_meta;
                vs_cache_key = \<lparr>nn_Namespace = svc_Namespace svc, nn_Name = svc_Name svc\<rparr>
            in go_bind (rest_operate env shard rest_ops st1) (\<lambda>(err, rest_ops', st2).
               case err of
                 Some e \<Rightarrow>
                   go_bind (rollback env shard rest_ops' st2) (\<lambda>st3. Ok ([], Some e, st3))
               | None \<Rightarrow>
                   go_bind (go_fold (record_op vs_cache_key) rest_ops' st2)
                     (\<lambda>st3. Ok ([], None, st3)))))))"

section \<open>K8sObjDelete\<close>

text \<open>One entry of the row of a Service: a pool of the Service is dropped from the pool cache.\<close>

definition drop_pool ::
  "string \<Rightarrow> iface \<Rightarrow> (iface, iface) AviCache \<Rightarrow> (iface, iface) AviCache go" where
  "drop_pool ns ppool_name_intf c =
     (case ppool_name_intf of
        IStr ppool_name \<Rightarrow>
          (let elems = Split ''/'' ppool_name
           in go_bind (go_index elems 0) (\<lambda>kind.
                if kind = ''service'' then
                  go_bind (go_index elems 1) (\<lambda>pool_name.
                    Ok (AviPoolCacheDel c \<lparr>nn_Namespace = ns, nn_Name = pool_name\<rparr>))
                else Ok c))
      | _ \<Rightarrow> Ok c)"

definition forget_svc :: "'w Env \<Rightarrow> string \<Rightarrow> string \<Rightarrow> 'w K8sState \<Rightarrow> 'w K8sState go" where
  "forget_svc env ns name st =
     (let cache_key = \<lparr>nn_Namespace = ns, nn_Name = name\<rparr>
      in go_bind
           (case K8sEpSvcToPoolCacheGet cache_key st of
              None \<Rightarrow> Ok (PoolCache (avi_obj_cache st))
            | Some ppool_map \<Rightarrow>
                go_fold (drop_pool ns) (ord_pools env ppool_map) (PoolCache (avi_obj_cache st)))
           (\<lambda>pc. let st1 = K8sEpSvcToPoolCacheDel env cache_key ''service'' (set_pool_cache st pc)
                 in Ok (set_vs_cache st1 (AviVsCacheDel (VsCache (avi_obj_cache st1)) cache_key))))"

definition K8sSvc_K8sObjDelete ::
  "'w Env \<Rightarrow> uint32 \<Rightarrow> string \<Rightarrow> 'w K8sState \<Rightarrow> (RestOp list \<times> go_error option \<times> 'w K8sState) go" where
  "K8sSvc_K8sObjDelete env shard key st =
     (let key_elems = SplitN 3 ''/'' key
      in go_bind (go_index key_elems 2) (\<lambda>ns_name.
         case SplitMetaNamespaceKey ns_name of
           Inl err \<Rightarrow> Ok ([], Some err, st)
         | Inr (ns, name) \<Rightarrow>
             go_bind (go_index (AviClient st) (unat shard)) (\<lambda>client.
             let sess = SetTenant ns client;
                 ((err, obj), w1) =
                   api_GetObjectByName (env_api env) sess ''virtualservice'' name (world st);
                 st1 = st\<lparr>AviClient := (AviClient st)[unat shard := sess], world := w1\<rparr>
             in case err of
                  Some e \<Rightarrow> Ok ([], Some e, st1)
                | None \<Rightarrow>
                    (let payload = ObjMacro \<lparr>macro_ModelName = ''VirtualService'',
                                             macro_Data = DataJson (case obj of Some v \<Rightarrow> v | None \<Rightarrow> JNull)\<rparr>;
                         path = ''/api/macro/?created_by='' @ OSHIFT_K8S_CLOUD_CONNECTOR;
                         (rerror, w2) = api_Delete (env_api env) sess path (Some payload) w1
                     in go_bind (forget_svc env ns name (st1\<lparr>world := w2\<rparr>))
                          (\<lambda>st2. Ok ([], None, st2))))))"

section \<open>The listeners and the pool map\<close>

lemma map_of_map_put: "map_of (map_put k v m) = (map_of m)(k \<mapsto> v)"
  by (induction k v m rule: map_put.induct) auto

lemma map_put_keys: "fst ` set (map_put k v m) = insert k (fst ` set m)"
  by (induction k v m rule: map_put.induct) auto

lemma distinct_map_put: "distinct (map fst m) \<Longrightarrow> distinct (map fst (map_put k v m))"
proof (induction k v m rule: map_put.induct)
  case (2 k v k' v' m)
  then show ?case using map_put_keys [of k v m] by (auto simp flip: set_map)
qed simp

definition tcp_port :: "ServicePort \<Rightarrow> bool" where
  "tcp_port sp \<longleftrightarrow> proto_name (sp_Protocol sp) = ''tcp''"

definition http_port :: "ServicePort \<Rightarrow> bool" where
  "http_port sp \<longleftrightarrow> tcp_port sp \<and> IsSvcHttp (sp_Name sp) (sp_Port sp)"

lemma fold_scan_port:
  "fold (scan_port svc) sps sc =
     \<lparr>scan_meta = (scan_meta sc)
        \<lparr>vm_PortProto := vm_PortProto (scan_meta sc) @ map port_proto sps,
         vm_PoolMap := (if length (svc_Ports svc) > 1
            then fold (\<lambda>sp. map_put (port_proto sp) (svc_pool_name svc sp)) sps (vm_PoolMap (scan_meta sc))
            else vm_PoolMap (scan_meta sc))\<rparr>,
      is_http = (is_http sc \<and> (\<forall>sp \<in> set sps. http_port sp)),
      is_udp = (is_udp sc \<and> (\<forall>sp \<in> set sps. \<not> tcp_port sp))\<rparr>"
proof (induction sps arbitrary: sc)
  case (Cons sp sps)
  have "scan_port svc sp sc =
     \<lparr>scan_meta = (scan_meta sc)
        \<lparr>vm_PortProto := vm_PortProto (scan_meta sc) @ [port_proto sp],
         vm_PoolMap := (if length (svc_Ports svc) > 1
            then map_put (port_proto sp) (svc_pool_name svc sp) (vm_PoolMap (scan_meta sc))
            else vm_PoolMap (scan_meta sc))\<rparr>,
      is_http = (is_http sc \<and> http_port sp), is_udp = (is_udp sc \<and> \<not> tcp_port sp)\<rparr>"
    by (auto simp: scan_port_def Let_def http_port_def tcp_port_def)
  then show ?case by (simp add: Cons del: split_paired_Ex)
qed simp

lemma fold_map_put_keys:
  "fst ` set (fold (\<lambda>x. map_put (f x) (g x)) xs m) = f ` set xs \<union> fst ` set m"
  by (induction xs arbitrary: m) (auto simp: map_put_keys)

lemma fold_map_put_distinct:
  "distinct (map fst m) \<Longrightarrow> distinct (map fst (fold (\<lambda>x. map_put (f x) (g x)) xs m))"
  by (induction xs arbitrary: m) (auto simp: distinct_map_put)

lemma fold_map_put_last:
  "map_of (fold (\<lambda>x. map_put (f x) (g x)) xs m) k =
     (case find (\<lambda>x. f x = k) (rev xs) of Some x \<Rightarrow> Some (g x) | None \<Rightarrow> map_of m k)"
proof (induction xs arbitrary: m rule: rev_induct)
  case (snoc x xs)
  then show ?case by (auto simp: map_of_map_put)
qed simp

lemma fold_map_put_unique:
  assumes "inj_on f (set xs)" "x \<in> set xs"
  shows "map_of (fold (\<lambda>x. map_put (f x) (g x)) xs m) (f x) = Some (g x)"
proof -
  show ?thesis
  proof (cases "find (\<lambda>z. f z = f x) (rev xs)")
    case None
    with assms(2) show ?thesis by (auto simp: find_None_iff)
  next
    case (Some y)
    then obtain i where i: "i < length (rev xs)" "f (rev xs ! i) = f x" "y = rev xs ! i"
      unfolding find_Some_iff by blast
    from i(1) have "rev xs ! i \<in> set (rev xs)" by (rule nth_mem)
    with i(2,3) have "f y = f x" "y \<in> set xs" by (simp_all only: set_rev)
    with assms have "y = x" by (simp add: inj_on_eq_iff)
    with Some show ?thesis by (simp add: fold_map_put_last)
  qed
qed

lemma svc_vs_meta_fields:
  assumes "svc_vs_meta svc key ops = Ok m"
  shows "vm_Name m = svc_Name svc" "vm_Tenant m = svc_Namespace svc"
    "vm_CloudConfigCksum m = svc_ResourceVersion svc"
    "vm_ServiceMetadata m = \<lparr>CrudHashKey_field = key\<rparr>" "vm_EastWest m"
    "vm_PortProto m = map port_proto (svc_Ports svc)"
    "vm_PoolMap m = (if length (svc_Ports svc) > 1
       then fold (\<lambda>sp. map_put (port_proto sp) (svc_pool_name svc sp)) (svc_Ports svc) [] else [])"
    "vm_ApplicationProfile m =
       (if \<forall>sp \<in> set (svc_Ports svc). http_port sp then ''System-HTTP'' else ''System-L4-Application'')"
    "vm_NetworkProfile m =
       (if \<forall>sp \<in> set (svc_Ports svc). \<not> tcp_port sp then ''System-UDP-Fast-Path'' else ''System-TCP-Proxy'')"
    "length (svc_Ports svc) \<noteq> 1 \<Longrightarrow> vm_DefaultPool m = []"
    "length (svc_Ports svc) = 1 \<Longrightarrow> default_pool ops = Ok (vm_DefaultPool m)"
  using assms by (auto simp: svc_vs_meta_def fold_scan_port Let_def simp del: One_nat_def split: if_splits)

section \<open>The invariant\<close>

lemma K8sEpSvcToPoolCacheAdd_ok:
  assumes "K8sEpSvcToPoolCacheAdd key pre op st = Ok (err, st')" "st_ok st"
  shows "st_ok st' \<and> AviClient st' = AviClient st"
proof -
  from assms(1) obtain mc where "AviSvcToPoolCacheAdd (svc_to_pool_cache st) op pre key = Ok (err, mc)"
    "st' = st\<lparr>svc_to_pool_cache := mc\<rparr>" by (auto simp: K8sEpSvcToPoolCacheAdd_def)
  with AviSvcToPoolCacheAdd_ok [OF this(1)] assms(2) show ?thesis by (simp add: st_ok_def)
qed

lemma record_op_ok:
  assumes "record_op key op st = Ok st'" "st_ok st"
  shows "st_ok st' \<and> AviClient st' = AviClient st"
proof -
  consider "op_Err op = None" "op_Model op = ''Pool''"
    | "op_Err op = None" "op_Model op = ''VirtualService''"
    | "op_Err op \<noteq> None \<or> op_Model op \<noteq> ''Pool'' \<and> op_Model op \<noteq> ''VirtualService''" by blast
  then show ?thesis
  proof cases
    case 1
    with assms(1) obtain e c e' where c: "AviPoolCacheAdd (PoolCache (avi_obj_cache st)) op = Ok (e, c)"
      "K8sEpSvcToPoolCacheAdd key ''service'' op (set_pool_cache st c) = Ok (e', st')"
      by (auto simp: record_op_def)
    with AviPoolCacheAdd_ok [OF c(1)] assms(2) have "st_ok (set_pool_cache st c)" by (simp add: st_ok_def)
    from K8sEpSvcToPoolCacheAdd_ok [OF c(2) this] show ?thesis by simp
  next
    case 2
    with assms(1) obtain e c where c: "AviVsCacheAdd (VsCache (avi_obj_cache st)) op = Ok (e, c)"
      "st' = set_vs_cache st c" by (auto simp: record_op_def)
    with AviVsCacheAdd_ok [OF c(1)] assms(2) show ?thesis by (simp add: st_ok_def)
  next
    case 3
    with assms show ?thesis by (auto simp: record_op_def split: if_splits)
  qed
qed

lemma rollback_frame:
  assumes "rollback env shard ops st = Ok st'"
  shows "\<exists>w. st' = st\<lparr>world := w\<rparr>"
  using assms by (auto simp: rollback_def)

text \<open>The three ways a call of the handler ends.\<close>

lemma K8sSvc_K8sObjCrUpd_cases:
  assumes "K8sSvc_K8sObjCrUpd env shard svc st = Ok (ops, err, st')"
  obtains (early) "ops = []" "st' = st"
      "EpInformer (env_informers env) (svc_Namespace svc @ ''/'' @ svc_Name svc) = None \<or> svc_unchanged st svc"
  | (failed) e pool_ops ep_err meta st1 st2 ops' ep where "ops = []" "err = Some e"
      "EpInformer (env_informers env) (svc_Namespace svc @ ''/'' @ svc_Name svc) = Some ep"
      "K8sEp_K8sObjCrUpd env shard ep (svc_Name svc) (svc_Namespace svc @ '':'' @ svc_Name svc) st
         = Ok (pool_ops, ep_err, st1)"
      "svc_vs_meta svc (svc_Namespace svc @ '':'' @ svc_Name svc) pool_ops = Ok meta"
      "rest_operate env shard (pool_ops @ AviVsBuild (ord_poolmap env) (env_version env) meta) st1
         = Ok (Some e, ops', st2)"
      "rollback env shard ops' st2 = Ok st'"
  | (sent) pool_ops ep_err meta st1 st2 ops' ep where "ops = []" "err = None"
      "EpInformer (env_informers env) (svc_Namespace svc @ ''/'' @ svc_Name svc) = Some ep"
      "K8sEp_K8sObjCrUpd env shard ep (svc_Name svc) (svc_Namespace svc @ '':'' @ svc_Name svc) st
         = Ok (pool_ops, ep_err, st1)"
      "svc_vs_meta svc (svc_Namespace svc @ '':'' @ svc_Name svc) pool_ops = Ok meta"
      "rest_operate env shard (pool_ops @ AviVsBuild (ord_poolmap env) (env_version env) meta) st1
         = Ok (None, ops', st2)"
      "go_fold (record_op \<lparr>nn_Namespace = svc_Namespace svc, nn_Name = svc_Name svc\<rparr>) ops' st2 = Ok st'"
proof (cases "EpInformer (env_informers env) (svc_Namespace svc @ ''/'' @ svc_Name svc) = None \<or> svc_unchanged st svc")
  case True
  with assms have "ops = []" "st' = st"
    by (auto simp: K8sSvc_K8sObjCrUpd_def lister_Get_def split: option.splits)
  then show ?thesis using True by (rule early)
next
  case False
  then obtain ep where ep: "EpInformer (env_informers env) (svc_Namespace svc @ ''/'' @ svc_Name svc) = Some ep"
    by auto
  have key: "CrudHashKey ''Service'' (KService svc) = Ok (svc_Namespace svc @ '':'' @ svc_Name svc)"
    by (simp add: CrudHashKey_def)
  let ?key = "svc_Namespace svc @ '':'' @ svc_Name svc"
  from assms False ep key obtain pool_ops ep_err st1 meta e ops' st2 where
    r: "K8sEp_K8sObjCrUpd env shard ep (svc_Name svc) ?key st = Ok (pool_ops, ep_err, st1)"
      "svc_vs_meta svc ?key pool_ops = Ok meta"
      "rest_operate env shard (pool_ops @ AviVsBuild (ord_poolmap env) (env_version env) meta) st1
         = Ok (e, ops', st2)"
    and rest: "(case e of
         Some e \<Rightarrow> go_bind (rollback env shard ops' st2) (\<lambda>st3. Ok ([], Some e, st3))
       | None \<Rightarrow> go_bind (go_fold (record_op \<lparr>nn_Namespace = svc_Namespace svc, nn_Name = svc_Name svc\<rparr>) ops' st2)
                     (\<lambda>st3. Ok ([], None, st3))) = Ok (ops, err, st')"
    by (auto simp: K8sSvc_K8sObjCrUpd_def lister_Get_def Let_def simp del: append_Cons)
  show ?thesis
  proof (cases e)
    case None
    with rest have "ops = []" "err = None"
      "go_fold (record_op \<lparr>nn_Namespace = svc_Namespace svc, nn_Name = svc_Name svc\<rparr>) ops' st2 = Ok st'"
      by auto
    with ep r None show ?thesis by (intro sent) auto
  next
    case (Some e')
    with rest have "ops = []" "err = Some e'" "rollback env shard ops' st2 = Ok st'" by auto
    with ep r Some show ?thesis by (intro failed) auto
  qed
qed

lemma K8sSvc_K8sObjCrUpd_ok:
  assumes "K8sSvc_K8sObjCrUpd env shard svc st = Ok (ops, err, st')" "st_ok st"
  shows "st_ok st' \<and> length (AviClient st') = length (AviClient st)"
  using assms(1)
proof (cases rule: K8sSvc_K8sObjCrUpd_cases)
  case (failed e pool_ops ep_err meta st1 st2 ops' ep)
  with K8sEp_K8sObjCrUpd_ok [OF failed(4) assms(2)] rest_operate_frame [OF failed(6)]
    rollback_frame [OF failed(7)] show ?thesis by (auto simp: st_ok_def)
next
  case (sent pool_ops ep_err meta st1 st2 ops' ep)
  have "st_ok st2 \<and> length (AviClient st2) = length (AviClient st)"
    using K8sEp_K8sObjCrUpd_ok [OF sent(4) assms(2)] rest_operate_frame [OF sent(6)]
    by (simp add: st_ok_def)
  with sent(7) show ?thesis
    by (rule go_fold_inv [where I = "\<lambda>s. st_ok s \<and> length (AviClient s) = length (AviClient st)"])
      (use record_op_ok in fastforce)
qed (use assms(2) in simp)

section \<open>Deleting a Service\<close>

lemma drop_pool_entry:
  "entry_ok v \<Longrightarrow> drop_pool ns v c =
     Ok (if has_prefix_elem ''service'' v
         then AviPoolCacheDel c \<lparr>nn_Namespace = ns, nn_Name = entry_name v\<rparr> else c)"
  using entry_ok_go_index Split_ne
  by (auto simp: drop_pool_def entry_ok_def entry_name_def has_prefix_elem_def go_index_def hd_conv_nth
      split: iface.splits)

definition svc_pool_entry :: "string \<Rightarrow> iface list \<Rightarrow> iface \<Rightarrow> bool" where
  "svc_pool_entry ns vs k \<longleftrightarrow> (\<exists>v \<in> set vs. has_prefix_elem ''service'' v \<and> k = nsname ns (entry_name v))"

lemma fold_drop_pool:
  "(\<And>v. v \<in> set vs \<Longrightarrow> entry_ok v) \<Longrightarrow> \<exists>c'. go_fold (drop_pool ns) vs c = Ok c'
     \<and> (\<forall>k. AviCacheGet c' k = (if svc_pool_entry ns vs k then None else AviCacheGet c k))"
proof (induction vs arbitrary: c)
  case (Cons v vs)
  let ?c = "if has_prefix_elem ''service'' v
    then AviPoolCacheDel c \<lparr>nn_Namespace = ns, nn_Name = entry_name v\<rparr> else c"
  from Cons obtain c' where c': "go_fold (drop_pool ns) vs ?c = Ok c'"
    "\<forall>k. AviCacheGet c' k = (if svc_pool_entry ns vs k then None else AviCacheGet ?c k)" by force
  have "svc_pool_entry ns (v # vs) k \<longleftrightarrow>
      has_prefix_elem ''service'' v \<and> k = nsname ns (entry_name v) \<or> svc_pool_entry ns vs k" for k
    by (auto simp: svc_pool_entry_def)
  with c' show ?case
    using drop_pool_entry [of v ns c] Cons.prems by (simp add: AviPoolCacheDel_def cache_simps)
qed (simp add: svc_pool_entry_def)

lemma pool_cache_ok_sub:
  "pool_cache_ok c \<Longrightarrow> \<forall>k. AviCacheGet c' k = (if P k then None else AviCacheGet c k) \<Longrightarrow> pool_cache_ok c'"
  by (simp add: pool_cache_ok_def)

text \<open>What forgetting a Service leaves: everything but its virtual service, its pools and its entries.\<close>

definition forgotten :: "'w K8sState \<Rightarrow> string \<Rightarrow> string \<Rightarrow> 'w K8sState \<Rightarrow> bool" where
  "forgotten st ns name st' \<longleftrightarrow>
     (let row = (case AviMultiCacheGetKey (svc_to_pool_cache st) (nsname ns name) of Some r \<Rightarrow> r | None \<Rightarrow> [])
      in (\<forall>k. AviCacheGet (VsCache (avi_obj_cache st')) k =
             (if k = nsname ns name then None else AviCacheGet (VsCache (avi_obj_cache st)) k))
       \<and> (\<forall>k. AviCacheGet (PoolCache (avi_obj_cache st')) k =
             (if svc_pool_entry ns row k then None else AviCacheGet (PoolCache (avi_obj_cache st)) k))
       \<and> mc_rel (svc_to_pool_cache st') =
           {(k, v). (k, v) \<in> mc_rel (svc_to_pool_cache st) \<and> \<not> (k = nsname ns name \<and> has_prefix_elem ''service'' v)})"

lemma forget_svc_spec:
  assumes "st_ok st" "env_ok env"
  shows "\<exists>st'. forget_svc env ns name st = Ok st' \<and> forgotten st ns name st' \<and> st_ok st'
    \<and> AviClient st' = AviClient st \<and> world st' = world st"
proof -
  let ?key = "\<lparr>nn_Namespace = ns, nn_Name = name\<rparr>"
  let ?row = "case AviMultiCacheGetKey (svc_to_pool_cache st) (INsName ?key) of Some r \<Rightarrow> r | None \<Rightarrow> []"
  let ?pc = "PoolCache (avi_obj_cache st)"
  have sp: "svc_pool_ok (svc_to_pool_cache st)" and po: "pool_cache_ok ?pc" and vo: "vs_cache_ok (VsCache (avi_obj_cache st))"
    and ro: "reordering (ord_pools env)"
    using assms by (simp_all add: st_ok_def env_ok_def)
  obtain c' where c': "(case K8sEpSvcToPoolCacheGet ?key st of None \<Rightarrow> Ok ?pc
      | Some m \<Rightarrow> go_fold (drop_pool ns) (ord_pools env m) ?pc) = Ok c'"
    "\<forall>k. AviCacheGet c' k = (if svc_pool_entry ns ?row k then None else AviCacheGet ?pc k)"
  proof (cases "AviMultiCacheGetKey (svc_to_pool_cache st) (INsName ?key)")
    case None
    then show ?thesis
      by (intro that [of ?pc]) (simp_all add: K8sEpSvcToPoolCacheGet_def svc_pool_entry_def)
  next
    case (Some r)
    have "\<forall>v \<in> set (ord_pools env r). entry_ok v"
      using svc_pool_ok_entries [OF sp Some] by (simp add: reordering_set [OF ro])
    then obtain d where "go_fold (drop_pool ns) (ord_pools env r) ?pc = Ok d"
      "\<forall>k. AviCacheGet d k = (if svc_pool_entry ns (ord_pools env r) k then None else AviCacheGet ?pc k)"
      using fold_drop_pool by blast
    with Some show ?thesis
      by (intro that [of d]) (simp_all add: K8sEpSvcToPoolCacheGet_def svc_pool_entry_def reordering_set [OF ro])
  qed
  let ?st1 = "K8sEpSvcToPoolCacheDel env ?key ''service'' (set_pool_cache st c')"
  let ?st2 = "set_vs_cache ?st1 (AviVsCacheDel (VsCache (avi_obj_cache ?st1)) ?key)"
  have f: "forget_svc env ns name st = Ok ?st2"
    using c'(1) by (simp add: forget_svc_def Let_def)
  have sel: "PoolCache (avi_obj_cache ?st2) = c'"
    "VsCache (avi_obj_cache ?st2) = AviVsCacheDel (VsCache (avi_obj_cache st)) ?key"
    "svc_to_pool_cache ?st2 = AviSvcToPoolCacheDel (ord_pools env) (svc_to_pool_cache st) ''service'' ?key"
    by (simp_all add: K8sEpSvcToPoolCacheDel_def set_pool_cache_def set_vs_cache_def)
  have "forgotten st ns name ?st2"
    unfolding forgotten_def Let_def sel
    using c'(2) AviSvcToPoolCacheDel_rel(1) [OF _ ro, of "svc_to_pool_cache st" "''service''" ?key] sp
    by (simp add: svc_pool_ok_def AviVsCacheDel_def cache_simps)
  moreover have "st_ok ?st2"
    unfolding st_ok_def sel
    using pool_cache_ok_sub [OF po c'(2)] cache_ok_del(2) [OF vo] AviSvcToPoolCacheDel_ok [OF sp ro] by blast
  moreover have "AviClient ?st2 = AviClient st" "world ?st2 = world st"
    by (simp_all add: K8sEpSvcToPoolCacheDel_def)
  ultimately show ?thesis using f by blast
qed

lemma svc_delete_spec:
  assumes "st_ok st" "env_ok env" "unat shard < length (AviClient st)"
    "SplitN 3 ''/'' key = [kind, h, nskey]" "SplitMetaNamespaceKey nskey = Inr (ns, name)"
    "api_GetObjectByName (env_api env) (SetTenant ns (AviClient st ! unat shard)) ''virtualservice'' name (world st)
       = ((None, obj), w1)"
  shows "\<exists>st'. K8sSvc_K8sObjDelete env shard key st = Ok ([], None, st') \<and> forgotten st ns name st' \<and> st_ok st'
    \<and> length (AviClient st') = length (AviClient st)"
proof -
  let ?sess = "SetTenant ns (AviClient st ! unat shard)"
  let ?payload = "ObjMacro \<lparr>macro_ModelName = ''VirtualService'',
     macro_Data = DataJson (case obj of Some v \<Rightarrow> v | None \<Rightarrow> JNull)\<rparr>"
  obtain r w2 where d: "api_Delete (env_api env) ?sess
      (''/api/macro/?created_by='' @ OSHIFT_K8S_CLOUD_CONNECTOR) (Some ?payload) w1 = (r, w2)" by fastforce
  let ?st1 = "st\<lparr>AviClient := (AviClient st)[unat shard := ?sess], world := w2\<rparr>"
  have "st_ok ?st1" using assms(1) by (simp add: st_ok_def)
  from forget_svc_spec [OF this assms(2)] obtain st' where
    st': "forget_svc env ns name ?st1 = Ok st'" "forgotten ?st1 ns name st'" "st_ok st'"
      "AviClient st' = AviClient ?st1" by blast
  have "K8sSvc_K8sObjDelete env shard key st = Ok ([], None, st')"
    using assms(3-6) d st'(1)
    by (simp add: K8sSvc_K8sObjDelete_def go_index_def)
  with st' show ?thesis by (simp add: forgotten_def)
qed

lemma svc_delete_error:
  assumes "unat shard < length (AviClient st)"
    "SplitN 3 ''/'' key = [kind, h, nskey]" "SplitMetaNamespaceKey nskey = Inr (ns, name)"
    "api_GetObjectByName (env_api env) (SetTenant ns (AviClient st ! unat shard)) ''virtualservice'' name (world st)
       = ((Some e, obj), w1)"
  shows "K8sSvc_K8sObjDelete env shard key st = Ok ([], Some e,
    st\<lparr>AviClient := (AviClient st)[unat shard := SetTenant ns (AviClient st ! unat shard)], world := w1\<rparr>)"
  using assms by (simp add: K8sSvc_K8sObjDelete_def go_index_def)

lemma K8sSvc_K8sObjDelete_ok:
  assumes "K8sSvc_K8sObjDelete env shard key st = Ok (ops, err, st')" "st_ok st" "env_ok env"
  shows "st_ok st' \<and> length (AviClient st') = length (AviClient st)"
proof -
  obtain nskey where k: "go_index (SplitN 3 ''/'' key) 2 = Ok nskey"
    using assms(1) by (auto simp: K8sSvc_K8sObjDelete_def)
  show ?thesis
  proof (cases "SplitMetaNamespaceKey nskey")
    case (Inl e)
    with assms k show ?thesis by (simp add: K8sSvc_K8sObjDelete_def)
  next
    case (Inr nn)
    obtain ns name where nn: "nn = (ns, name)" by fastforce
    obtain sess where s: "go_index (AviClient st) (unat shard) = Ok sess"
      using assms(1) k Inr nn by (auto simp: K8sSvc_K8sObjDelete_def)
    obtain e obj w1 where g: "api_GetObjectByName (env_api env) (SetTenant ns sess) ''virtualservice'' name (world st)
        = ((e, obj), w1)"
      by (cases "api_GetObjectByName (env_api env) (SetTenant ns sess) ''virtualservice'' name (world st)")
        fastforce
    show ?thesis
    proof (cases e)
      case (Some e')
      with assms(1,2) k Inr nn s g show ?thesis
        by (auto simp: K8sSvc_K8sObjDelete_def st_ok_def)
    next
      case None
      obtain r w2 where d: "api_Delete (env_api env) (SetTenant ns sess)
          (''/api/macro/?created_by='' @ OSHIFT_K8S_CLOUD_CONNECTOR)
          (Some (ObjMacro \<lparr>macro_ModelName = ''VirtualService'',
             macro_Data = DataJson (case obj of Some v \<Rightarrow> v | None \<Rightarrow> JNull)\<rparr>)) w1 = (r, w2)" by fastforce
      let ?st1 = "st\<lparr>AviClient := (AviClient st)[unat shard := SetTenant ns sess], world := w2\<rparr>"
      have "st_ok ?st1" using assms(2) by (simp add: st_ok_def)
      from forget_svc_spec [OF this assms(3), of ns name] assms(1) k Inr nn s g None d show ?thesis
        by (auto simp: K8sSvc_K8sObjDelete_def)
    qed
  qed
qed

section \<open>A controller that accepts what it is sent\<close>

text \<open>
  \<open>accepting host api\<close>: the controller answers a macro request for a pool or a virtual service
  with the object made, carrying the name, checksum and metadata of the request and whatever
  other fields it has, and does not fail on an HTTP policy set. This is an assumption on the
  controller the program talks to, not code of the program: with a response that lacks one of
  these fields the cache updates log an error or, for the fields they assert, panic.
\<close>

definition accepting :: "string \<Rightarrow> 'w AviApi \<Rightarrow> bool" where
  "accepting host api \<longleftrightarrow> url_plain host
     \<and> (\<forall>sess pool w n ck md. pool_Name pool = Some n \<and> pool_CloudConfigCksum pool = Some ck
            \<and> pool_ServiceMetadata pool = Some md \<longrightarrow>
          (\<exists>uuid lb resp w'. url_plain uuid \<and> answered host ''pool'' uuid n lb ck md resp \<and> api_Post api sess ''/api/macro''
             (ObjMacro \<lparr>macro_ModelName = ''Pool'', macro_Data = DataPool pool\<rparr>) w
             = ((None, Some resp), w')))
     \<and> (\<forall>sess vs w n ck md. vs_Name vs = Some n \<and> vs_CloudConfigCksum vs = Some ck
            \<and> vs_ServiceMetadata vs = Some md \<longrightarrow>
          (\<exists>uuid lb resp w'. url_plain uuid \<and> answered host ''virtualservice'' uuid n lb ck md resp \<and> api_Post api sess ''/api/macro''
             (ObjMacro \<lparr>macro_ModelName = ''VirtualService'', macro_Data = DataVirtualService vs\<rparr>) w
             = ((None, Some resp), w')))
     \<and> (\<forall>sess hps w. \<exists>r w'. api_Post api sess ''/api/macro''
             (ObjMacro \<lparr>macro_ModelName = ''HTTPRequestPolicy'', macro_Data = DataHTTPPolicySet hps\<rparr>) w
             = ((None, r), w'))"

lemma accepting_logged:
  assumes "accepting host api"
  shows "accepting host (logged api)"
proof -
  have "\<exists>w''. api_Post (logged api) sess path obj w = (r, w'')" if "api_Post api sess path obj (fst w) = (r, w')" for sess path obj w r w'
    using that by (cases w) (simp add: logged_def)
  with assms show ?thesis unfolding accepting_def by meson
qed

text \<open>The outcome of an operation that was accepted, by its model.\<close>

definition pool_made :: "string \<Rightarrow> string \<Rightarrow> string \<Rightarrow> RestOp \<Rightarrow> string \<Rightarrow> bool" where
  "pool_made host t ck op n \<longleftrightarrow> op_Model op = ''Pool'' \<and> op_Err op = None \<and> op_Tenant op = t \<and> url_plain host
     \<and> (\<exists>uuid lb md. url_plain uuid
         \<and> answered host ''pool'' uuid n lb ck md (op_Response op))"

definition vs_made :: "string \<Rightarrow> string \<Rightarrow> string \<Rightarrow> string \<Rightarrow> RestOp \<Rightarrow> string \<Rightarrow> bool" where
  "vs_made host t ck md op n \<longleftrightarrow> op_Model op = ''VirtualService'' \<and> op_Err op = None \<and> op_Tenant op = t \<and> url_plain host
     \<and> (\<exists>uuid lb. url_plain uuid
         \<and> answered host ''virtualservice'' uuid n lb ck md (op_Response op))"

lemma pool_call_made:
  assumes "accepting host (env_api env)" "pool_op env ep md n = Ok op"
  shows "\<exists>op' w'. rest_call (env_api env) s op w = (op', w')
    \<and> pool_made host (ep_Namespace ep) (ep_ResourceVersion ep) op' n"
proof -
  from pool_op_shape [OF assms(2)] obtain pool where op: "op_Method op = RestPost" "op_Path op = ''/api/macro''"
    "op_Model op = ''Pool''" "op_Tenant op = ep_Namespace ep"
    "op_Obj op = ObjMacro \<lparr>macro_ModelName = ''Pool'', macro_Data = DataPool pool\<rparr>"
    "pool_Name pool = Some n" "pool_CloudConfigCksum pool = Some (ep_ResourceVersion ep)"
    "pool_ServiceMetadata pool = Some (marshal_metadata md)" by blast
  from assms(1) op(6-8) obtain uuid lb resp w' where "url_plain uuid" "url_plain host"
    "answered host ''pool'' uuid n lb (ep_ResourceVersion ep) (marshal_metadata md) resp"
    "api_Post (env_api env) s ''/api/macro'' (op_Obj op) w = ((None, Some resp), w')"
    unfolding accepting_def op(5) by blast
  with op show ?thesis
    by (auto simp: rest_call_def store_response_def pool_made_def)
qed

lemma vs_call_made:
  assumes "accepting host api"
    "op = last (AviVsBuild ord v m)"
  shows "\<exists>op' w'. rest_call api s op w = (op', w')
    \<and> vs_made host (vm_Tenant m) (vm_CloudConfigCksum m) (marshal_metadata (vm_ServiceMetadata m)) op' (vm_Name m)"
proof -
  let ?vs = "vs_model ord m"
  have op: "op_Method op = RestPost" "op_Path op = ''/api/macro''" "op_Model op = ''VirtualService''"
    "op_Tenant op = vm_Tenant m"
    "op_Obj op = ObjMacro \<lparr>macro_ModelName = ''VirtualService'', macro_Data = DataVirtualService ?vs\<rparr>"
    using assms(2) by (simp_all add: AviVsBuild_def Let_def)
  have "vs_Name ?vs = Some (vm_Name m) \<and> vs_CloudConfigCksum ?vs = Some (vm_CloudConfigCksum m)
    \<and> vs_ServiceMetadata ?vs = Some (marshal_metadata (vm_ServiceMetadata m))"
    by (simp add: vs_model_def)
  with assms(1) obtain uuid lb resp w' where "url_plain uuid" "url_plain host"
    "answered host ''virtualservice'' uuid (vm_Name m) lb (vm_CloudConfigCksum m) (marshal_metadata (vm_ServiceMetadata m)) resp"
    "api_Post api s ''/api/macro'' (op_Obj op) w = ((None, Some resp), w')"
    unfolding accepting_def op(5) by blast
  with op show ?thesis
    by (auto simp: rest_call_def store_response_def vs_made_def)
qed

lemma hps_call_made:
  assumes "accepting host api" "op = AviHttpPSBuild v m"
  shows "\<exists>op' w'. rest_call api s op w = (op', w') \<and> op_Model op' = ''HTTPRequestPolicy'' \<and> op_Err op' = None"
proof -
  obtain hps where op: "op_Method op = RestPost" "op_Path op = ''/api/macro''" "op_Model op = ''HTTPRequestPolicy''"
    "op_Obj op = ObjMacro \<lparr>macro_ModelName = ''HTTPRequestPolicy'', macro_Data = DataHTTPPolicySet hps\<rparr>"
    using assms(2) by (auto simp: AviHttpPSBuild_def Let_def split: prod.splits)
  from assms(1) obtain r w' where
    "api_Post api s ''/api/macro'' (op_Obj op) w = ((None, r), w')"
    unfolding accepting_def op(4) by blast
  with op show ?thesis
    by (cases r) (auto simp: rest_call_def store_response_def)
qed

section \<open>Recording what was made\<close>

definition pool_fresh :: "'w K8sState \<Rightarrow> string \<Rightarrow> string \<Rightarrow> string \<Rightarrow> bool" where
  "pool_fresh st t ck n \<longleftrightarrow> (\<exists>p. AviCacheGet (PoolCache (avi_obj_cache st)) (nsname t n) = Some (IPool p)
     \<and> pc_CloudConfigCksum p = ck)"

lemma record_op_pool:
  assumes "pool_made host t ck op n"
  shows "\<exists>p. pc_CloudConfigCksum p = ck \<and> record_op key op st =
    Ok ((set_pool_cache st (AviCacheAdd (PoolCache (avi_obj_cache st)) (nsname t n) (IPool p)))
      \<lparr>svc_to_pool_cache := AviMultiCacheAdd (svc_to_pool_cache st) (INsName key) (IStr (''service/'' @ n))\<rparr>)"
proof -
  from assms obtain uuid lb md where m: "op_Err op = None" "op_Model op = ''Pool''" "op_Tenant op = t"
    "answered host ''pool'' uuid n lb ck md (op_Response op)" "url_plain host" "url_plain uuid"
    by (auto simp: pool_made_def)
  show ?thesis
    using m(2,3) AviPoolCacheAdd_one [OF m(1,4,5,6), of "PoolCache (avi_obj_cache st)"]
      AviSvcToPoolCacheAdd_one [OF m(1,4,5,6), of "svc_to_pool_cache st" "''service''" key]
    by (intro exI [of _ "\<lparr>pc_Name = n, pc_Tenant = t, pc_Uuid = uuid, pc_LbAlgorithm = lb,
      pc_ServiceMetadata = decode_metadata md, pc_CloudConfigCksum = ck\<rparr>"])
      (simp add: record_op_def m(1) K8sEpSvcToPoolCacheAdd_def)
qed

lemma record_op_vs:
  assumes "vs_made host t ck md op n"
  shows "\<exists>v. vc_CloudConfigCksum v = ck \<and> vc_ServiceMetadata v = decode_metadata md \<and> record_op key op st =
    Ok (set_vs_cache st (AviCacheAdd (VsCache (avi_obj_cache st)) (nsname t n) (IVs v)))"
proof -
  from assms obtain uuid lb where m: "op_Err op = None" "op_Model op = ''VirtualService''" "op_Tenant op = t"
    "answered host ''virtualservice'' uuid n lb ck md (op_Response op)" "url_plain host" "url_plain uuid"
    by (auto simp: vs_made_def)
  show ?thesis
    using m(2,3) AviVsCacheAdd_one [OF m(1,4,5,6), of "VsCache (avi_obj_cache st)"]
    by (intro exI [of _ "\<lparr>vc_Name = n, vc_Tenant = t, vc_Uuid = uuid,
      vc_ServiceMetadata = decode_metadata md, vc_CloudConfigCksum = ck\<rparr>"])
      (simp add: record_op_def m(1))
qed

lemma record_op_hps: "op_Model op = ''HTTPRequestPolicy'' \<Longrightarrow> record_op key op st = Ok st"
  by (simp add: record_op_def)

lemma record_pools:
  assumes "list_all2 (pool_made host t ck) ops names"
  shows "\<exists>st'. go_fold (record_op key) ops st = Ok st'
    \<and> (\<forall>n. pool_fresh st t ck n \<or> n \<in> set names \<longrightarrow> pool_fresh st' t ck n)
    \<and> mc_rel (svc_to_pool_cache st') = mc_rel (svc_to_pool_cache st)
        \<union> {(INsName key, IStr (''service/'' @ n)) | n. n \<in> set names}"
  using assms
proof (induction ops names arbitrary: st rule: list_all2_induct)
  case (Cons op ops n names)
  from record_op_pool [OF Cons.hyps(1), of key st] obtain p st1 where
    ck: "pc_CloudConfigCksum p = ck" and r: "record_op key op st = Ok st1" and
    st1: "st1 = (set_pool_cache st (AviCacheAdd (PoolCache (avi_obj_cache st)) (nsname t n) (IPool p)))
      \<lparr>svc_to_pool_cache := AviMultiCacheAdd (svc_to_pool_cache st) (INsName key) (IStr (''service/'' @ n))\<rparr>"
    by blast
  have f: "pool_fresh st1 t ck m" if "pool_fresh st t ck m \<or> m = n" for m
    using that ck by (auto simp: st1 pool_fresh_def cache_simps)
  have rel: "mc_rel (svc_to_pool_cache st1) = insert (INsName key, IStr (''service/'' @ n)) (mc_rel (svc_to_pool_cache st))"
    by (simp add: st1 avi_mcache.rels)
  from Cons.IH [of st1] obtain st' where st': "go_fold (record_op key) ops st1 = Ok st'"
    "\<forall>n. pool_fresh st1 t ck n \<or> n \<in> set names \<longrightarrow> pool_fresh st' t ck n"
    "mc_rel (svc_to_pool_cache st') = mc_rel (svc_to_pool_cache st1)
        \<union> {(INsName key, IStr (''service/'' @ n)) | n. n \<in> set names}" by blast
  have "go_fold (record_op key) (op # ops) st = Ok st'" using r st'(1) by simp
  moreover have "\<forall>m. pool_fresh st t ck m \<or> m \<in> set (n # names) \<longrightarrow> pool_fresh st' t ck m"
    using st'(2) f by auto
  moreover have "mc_rel (svc_to_pool_cache st') = mc_rel (svc_to_pool_cache st)
        \<union> {(INsName key, IStr (''service/'' @ m)) | m. m \<in> set (n # names)}"
    unfolding st'(3) rel by auto
  ultimately show ?case by blast
qed auto

section \<open>Creating a Service\<close>

fun built_name :: "RestOp \<Rightarrow> string" where
  "built_name op =
     (case op_Obj op of
        ObjMacro m \<Rightarrow> (case macro_Data m of
            DataPool p \<Rightarrow> (case pool_Name p of Some n \<Rightarrow> n | None \<Rightarrow> [])
          | _ \<Rightarrow> [])
      | _ \<Rightarrow> [])"

lemma pool_build_name:
  "built_name (pool_build env ep md pre pp) = pool_name_of pre (psp_Port pp) (psp_Protocol pp)"
  by (simp add: pool_build_def AviPoolBuild_def Let_def build_pool_meta_fields)

lemma default_pool_builds:
  "default_pool (map (pool_build env ep md pre) pps) =
     Ok (case pps of [] \<Rightarrow> [] | pp # _ \<Rightarrow> pool_name_of pre (psp_Port pp) (psp_Protocol pp))"
  by (cases pps) (simp_all add: pool_build_def AviPoolBuild_def Let_def build_pool_meta_fields)

text \<open>The situation in which a Service and its Endpoints can be brought to the controller.\<close>

definition creatable :: "'w Env \<Rightarrow> Service \<Rightarrow> Endpoints \<Rightarrow> AviPortStrProtocol list \<Rightarrow> bool" where
  "creatable env svc ep pps \<longleftrightarrow>
     EpInformer (env_informers env) (svc_Namespace svc @ ''/'' @ svc_Name svc) = Some ep
     \<and> ep_Namespace ep = svc_Namespace svc \<and> ep_Name ep = svc_Name svc
     \<and> (\<exists>svc'. svc_of env ep = Some svc' \<and> ready_ports svc' (ep_Subsets ep) [] = Ok (Some pps))
     \<and> svc_Name svc \<noteq> [] \<and> plain_prefix (svc_Name svc)
     \<and> (\<forall>pp \<in> set pps. CHR ''-'' \<notin> set (psp_Port pp) \<and> CHR ''-'' \<notin> set (psp_Protocol pp))"

abbreviation pp_pool :: "Service \<Rightarrow> AviPortStrProtocol \<Rightarrow> string" where
  "pp_pool svc pp \<equiv> pool_name_of (svc_Name svc) (psp_Port pp) (psp_Protocol pp)"

abbreviation svc_key :: "Service \<Rightarrow> string" where
  "svc_key svc \<equiv> svc_Namespace svc @ '':'' @ svc_Name svc"

definition svc_todo :: "'w Env \<Rightarrow> 'w K8sState \<Rightarrow> Service \<Rightarrow> Endpoints \<Rightarrow> AviPortStrProtocol list \<Rightarrow> AviPortStrProtocol list" where
  "svc_todo env st svc ep pps = filter (\<lambda>pp. stale st ep (pp_pool svc pp)) (ord_ports env pps)"

definition svc_pool_ops :: "'w Env \<Rightarrow> 'w K8sState \<Rightarrow> Service \<Rightarrow> Endpoints \<Rightarrow> AviPortStrProtocol list \<Rightarrow> RestOp list" where
  "svc_pool_ops env st svc ep pps =
     map (pool_build env ep \<lparr>CrudHashKey_field = svc_key svc\<rparr> (svc_Name svc)) (svc_todo env st svc ep pps)"

lemma svc_pools_creatable:
  "creatable env svc ep pps \<Longrightarrow> env_ok env \<Longrightarrow>
   K8sEp_K8sObjCrUpd env shard ep (svc_Name svc) (svc_key svc) st = Ok (svc_pool_ops env st svc ep pps, None, st)"
  unfolding svc_pool_ops_def svc_todo_def by (rule exE [of "\<lambda>svc'. svc_of env ep = Some svc'
     \<and> ready_ports svc' (ep_Subsets ep) [] = Ok (Some pps)"]) (auto simp: creatable_def intro!: svc_pools)

lemma svc_pool_ops_made:
  assumes "accepting host (env_api env)" "creatable env svc ep pps" "env_ok env"
  shows "\<exists>ops' s' w'. AviRestOperate (env_api env) s (svc_pool_ops env st svc ep pps) w = (None, ops', s', w')
    \<and> list_all2 (pool_made host (svc_Namespace svc) (ep_ResourceVersion ep)) ops'
        (map (pp_pool svc) (svc_todo env st svc ep pps))"
proof -
  let ?md = "\<lparr>CrudHashKey_field = svc_key svc\<rparr>"
  let ?ops = "svc_pool_ops env st svc ep pps"
  let ?made = "pool_made host (svc_Namespace svc) (ep_ResourceVersion ep)"
  have "\<exists>op' w'. rest_call (env_api env) s op w = (op', w') \<and> op_Err op' = None \<and> ?made op' (built_name op)"
    if "op \<in> set ?ops" for op s w
  proof -
    from that assms(3) obtain pp where pp: "pp \<in> set pps" "op = pool_build env ep ?md (svc_Name svc) pp"
      by (auto simp: svc_pool_ops_def svc_todo_def env_ok_def reordering_set)
    with assms(2) have "pool_op env ep ?md (pp_pool svc pp) = Ok op"
      by (auto simp: creatable_def pool_op_def split_pool_name_of pool_build_def)
    from pool_call_made [OF assms(1) this, of s w] show ?thesis
      using assms(2) by (auto simp: pp(2) pool_build_name pool_made_def creatable_def simp del: built_name.simps)
  qed
  from AviRestOperate_all [of ?ops "env_api env" "\<lambda>op op'. ?made op' (built_name op)" s w, OF this]
  obtain ops' s' w' where "AviRestOperate (env_api env) s ?ops w = (None, ops', s', w')"
    and l: "list_all2 (\<lambda>op op'. ?made op' (built_name op)) ?ops ops'" by blast
  moreover from l have "list_all2 ?made ops' (map (pp_pool svc) (svc_todo env st svc ep pps))"
    by (simp add: svc_pool_ops_def list_all2_conv_all_nth pool_build_name del: built_name.simps)
  ultimately show ?thesis by blast
qed

lemma AviVsBuild_made:
  assumes "accepting host api"
  shows "\<exists>hs v s' w'. AviRestOperate api s (AviVsBuild ord ver m) w = (None, hs @ [v], s', w')
    \<and> (\<forall>op \<in> set hs. op_Model op = ''HTTPRequestPolicy'')
    \<and> vs_made host (vm_Tenant m) (vm_CloudConfigCksum m) (marshal_metadata (vm_ServiceMetadata m)) v (vm_Name m)"
proof -
  let ?ops = "AviVsBuild ord ver m"
  define hs where "hs = butlast ?ops"
  have ops: "?ops = hs @ [last ?ops]" by (simp add: hs_def AviVsBuild_def Let_def)
  have hps: "\<exists>hm. op = AviHttpPSBuild ver hm" if "op \<in> set hs" for op
    using that by (auto simp: hs_def AviVsBuild_def Let_def butlast_append split: if_splits)
  have "\<exists>op' w'. rest_call api s op w = (op', w') \<and> op_Err op' = None \<and> op_Model op' = ''HTTPRequestPolicy''"
    if "op \<in> set hs" for op s w
    using hps [OF that] hps_call_made [OF assms] by blast
  from AviRestOperate_all [of hs api "\<lambda>_ op'. op_Model op' = ''HTTPRequestPolicy''" s w, OF this]
  obtain hs' s1 w1 where hs': "AviRestOperate api s hs w = (None, hs', s1, w1)"
    "list_all2 (\<lambda>_ op'. op_Model op' = ''HTTPRequestPolicy'') hs hs'" by blast
  let ?v = "last ?ops"
  let ?s = "SetVersion (op_Version ?v) (SetTenant (op_Tenant ?v) s1)"
  obtain v w2 where v: "rest_call api ?s ?v w1 = (v, w2)"
    "vs_made host (vm_Tenant m) (vm_CloudConfigCksum m) (marshal_metadata (vm_ServiceMetadata m)) v (vm_Name m)"
    using vs_call_made [OF assms refl] by blast
  then have "AviRestOperate api s1 [?v] w1 = (None, [v], ?s, w2)"
    by (simp add: vs_made_def Let_def)
  from AviRestOperate_append [OF hs'(1) this] ops have "AviRestOperate api s ?ops w = (None, hs' @ [v], ?s, w2)"
    by simp
  moreover from hs'(2) have "\<forall>op \<in> set hs'. op_Model op = ''HTTPRequestPolicy''"
    by (induction rule: list_all2_induct) auto
  ultimately show ?thesis using v(2) by blast
qed

lemma record_hps: "\<forall>op \<in> set hs. op_Model op = ''HTTPRequestPolicy'' \<Longrightarrow> go_fold (record_op key) hs st = Ok st"
  by (induction hs) (auto simp: record_op_hps)

lemma svc_vs_meta_creatable:
  "\<exists>m. svc_vs_meta svc key (svc_pool_ops env st svc ep pps) = Ok m"
  by (simp add: svc_vs_meta_def svc_pool_ops_def default_pool_builds Let_def)

text \<open>What the caches hold once a Service was created.\<close>

definition svc_recorded ::
  "'w Env \<Rightarrow> 'w K8sState \<Rightarrow> Service \<Rightarrow> Endpoints \<Rightarrow> AviPortStrProtocol list \<Rightarrow> 'w K8sState \<Rightarrow> bool" where
  "svc_recorded env st svc ep pps st' \<longleftrightarrow>
     (\<exists>v. AviCacheGet (VsCache (avi_obj_cache st')) (nsname (svc_Namespace svc) (svc_Name svc)) = Some (IVs v)
        \<and> vc_CloudConfigCksum v = svc_ResourceVersion svc
        \<and> vc_ServiceMetadata v = decode_metadata (marshal_metadata \<lparr>CrudHashKey_field = svc_key svc\<rparr>))
     \<and> (\<forall>pp \<in> set pps. \<not> stale st' ep (pp_pool svc pp))
     \<and> mc_rel (svc_to_pool_cache st') = mc_rel (svc_to_pool_cache st)
         \<union> {(nsname (svc_Namespace svc) (svc_Name svc), IStr (''service/'' @ pp_pool svc pp)) | pp.
              pp \<in> set pps \<and> stale st ep (pp_pool svc pp)}"

lemma fresh_not_stale:
  "pool_fresh st (ep_Namespace ep) (ep_ResourceVersion ep) n \<Longrightarrow> \<not> stale st ep n"
  by (auto simp: pool_fresh_def stale_def same_cksum_def)

lemma not_stale_fresh:
  "\<not> stale st ep n \<Longrightarrow> pool_fresh st (ep_Namespace ep) (ep_ResourceVersion ep) n"
  by (auto simp: pool_fresh_def stale_def same_cksum_def split: option.splits iface.splits)

lemma svc_batch_sent:
  assumes "accepting host (env_api env)" "creatable env svc ep pps" "env_ok env"
    "unat shard < length (AviClient st)" "svc_vs_meta svc (svc_key svc) (svc_pool_ops env st svc ep pps) = Ok m"
  shows "\<exists>ps hs v st1.
    rest_operate env shard (svc_pool_ops env st svc ep pps @ AviVsBuild (ord_poolmap env) (env_version env) m) st
      = Ok (None, ps @ hs @ [v], st1)
    \<and> list_all2 (pool_made host (svc_Namespace svc) (ep_ResourceVersion ep)) ps
        (map (pp_pool svc) (svc_todo env st svc ep pps))
    \<and> (\<forall>op \<in> set hs. op_Model op = ''HTTPRequestPolicy'')
    \<and> vs_made host (svc_Namespace svc) (svc_ResourceVersion svc)
        (marshal_metadata \<lparr>CrudHashKey_field = svc_key svc\<rparr>) v (svc_Name svc)"
proof -
  obtain ps s1 w1 where ps: "AviRestOperate (env_api env) (AviClient st ! unat shard)
      (svc_pool_ops env st svc ep pps) (world st) = (None, ps, s1, w1)"
    "list_all2 (pool_made host (svc_Namespace svc) (ep_ResourceVersion ep)) ps
       (map (pp_pool svc) (svc_todo env st svc ep pps))"
    using svc_pool_ops_made [OF assms(1-3)] by blast
  obtain hs v s2 w2 where v: "AviRestOperate (env_api env) s1 (AviVsBuild (ord_poolmap env) (env_version env) m) w1
      = (None, hs @ [v], s2, w2)" "\<forall>op \<in> set hs. op_Model op = ''HTTPRequestPolicy''"
    "vs_made host (svc_Namespace svc) (svc_ResourceVersion svc)
       (marshal_metadata \<lparr>CrudHashKey_field = svc_key svc\<rparr>) v (svc_Name svc)"
    using AviVsBuild_made [OF assms(1), of s1 "ord_poolmap env" "env_version env" m w1]
      svc_vs_meta_fields(1-4) [OF assms(5)] by auto
  have "rest_operate env shard (svc_pool_ops env st svc ep pps @ AviVsBuild (ord_poolmap env) (env_version env) m) st
      = Ok (None, ps @ hs @ [v], st\<lparr>AviClient := (AviClient st)[unat shard := s2], world := w2\<rparr>)"
    unfolding rest_operate_eq_Ok using assms(4) AviRestOperate_append [OF ps(1) v(1)] by blast
  with ps(2) v(2,3) show ?thesis by blast
qed

lemma record_op_clients: "record_op key op st = Ok st' \<Longrightarrow> AviClient st' = AviClient st"
  by (auto simp: record_op_def K8sEpSvcToPoolCacheAdd_def split: if_splits)

lemma record_batch_clients: "go_fold (record_op key) ops st = Ok st' \<Longrightarrow> AviClient st' = AviClient st"
  by (rule go_fold_inv [where I = "\<lambda>s. AviClient s = AviClient st"]) (auto dest: record_op_clients)

lemma svc_batch_recorded:
  assumes cr: "creatable env svc ep pps" and eo: "env_ok env"
    and frame: "avi_obj_cache st1 = avi_obj_cache st" "svc_to_pool_cache st1 = svc_to_pool_cache st"
    and ps: "list_all2 (pool_made host (svc_Namespace svc) (ep_ResourceVersion ep)) ps
        (map (pp_pool svc) (svc_todo env st svc ep pps))"
    and hs: "\<forall>op \<in> set hs. op_Model op = ''HTTPRequestPolicy''"
    and v: "vs_made host (svc_Namespace svc) (svc_ResourceVersion svc)
        (marshal_metadata \<lparr>CrudHashKey_field = svc_key svc\<rparr>) v (svc_Name svc)"
  shows "\<exists>st'. go_fold (record_op \<lparr>nn_Namespace = svc_Namespace svc, nn_Name = svc_Name svc\<rparr>) (ps @ hs @ [v]) st1
      = Ok st' \<and> svc_recorded env st svc ep pps st'"
proof -
  let ?key = "\<lparr>nn_Namespace = svc_Namespace svc, nn_Name = svc_Name svc\<rparr>"
  let ?names = "map (pp_pool svc) (svc_todo env st svc ep pps)"
  have names: "n \<in> set ?names \<longleftrightarrow> (\<exists>pp \<in> set pps. n = pp_pool svc pp \<and> stale st ep n)" for n
    using eo by (auto simp: svc_todo_def env_ok_def reordering_set)
  obtain st2 where st2: "go_fold (record_op ?key) ps st1 = Ok st2"
    "\<forall>n. pool_fresh st1 (svc_Namespace svc) (ep_ResourceVersion ep) n \<or> n \<in> set ?names
       \<longrightarrow> pool_fresh st2 (svc_Namespace svc) (ep_ResourceVersion ep) n"
    "mc_rel (svc_to_pool_cache st2) = mc_rel (svc_to_pool_cache st1)
        \<union> {(INsName ?key, IStr (''service/'' @ n)) | n. n \<in> set ?names}"
    using record_pools [OF ps, of ?key st1] by blast
  obtain c where c: "vc_CloudConfigCksum c = svc_ResourceVersion svc"
    "vc_ServiceMetadata c = decode_metadata (marshal_metadata \<lparr>CrudHashKey_field = svc_key svc\<rparr>)"
    "record_op ?key v st2 = Ok (set_vs_cache st2 (AviCacheAdd (VsCache (avi_obj_cache st2)) (INsName ?key) (IVs c)))"
    using record_op_vs [OF v, of ?key st2] by blast
  let ?st' = "set_vs_cache st2 (AviCacheAdd (VsCache (avi_obj_cache st2)) (INsName ?key) (IVs c))"
  have "go_fold (record_op ?key) (ps @ hs @ [v]) st1 = Ok ?st'"
    using st2(1) record_hps [OF hs, of ?key st2] c(3) by (simp add: go_simps)
  moreover have "\<not> stale ?st' ep (pp_pool svc pp)" if "pp \<in> set pps" for pp
  proof -
    have "pool_fresh st1 (svc_Namespace svc) (ep_ResourceVersion ep) (pp_pool svc pp)
        \<or> pp_pool svc pp \<in> set ?names"
      unfolding names using that not_stale_fresh [of st ep "pp_pool svc pp"] cr frame(1)
      by (auto simp: creatable_def pool_fresh_def)
    with st2(2) have "pool_fresh st2 (svc_Namespace svc) (ep_ResourceVersion ep) (pp_pool svc pp)" by blast
    with cr show ?thesis by (intro fresh_not_stale) (simp add: creatable_def pool_fresh_def)
  qed
  moreover have "mc_rel (svc_to_pool_cache ?st') = mc_rel (svc_to_pool_cache st)
         \<union> {(INsName ?key, IStr (''service/'' @ pp_pool svc pp)) | pp.
              pp \<in> set pps \<and> stale st ep (pp_pool svc pp)}"
    using st2(3) frame(2) unfolding names by auto
  ultimately show ?thesis
    unfolding svc_recorded_def using c(1,2) by (auto simp: cache_simps)
qed

lemma svc_create:
  assumes "accepting host (env_api env)" "creatable env svc ep pps" "env_ok env"
    "unat shard < length (AviClient st)" "\<not> svc_unchanged st svc"
  shows "\<exists>st'. K8sSvc_K8sObjCrUpd env shard svc st = Ok ([], None, st') \<and> svc_recorded env st svc ep pps st'
    \<and> length (AviClient st') = length (AviClient st)"
proof -
  obtain m where m: "svc_vs_meta svc (svc_key svc) (svc_pool_ops env st svc ep pps) = Ok m"
    using svc_vs_meta_creatable by blast
  from svc_batch_sent [OF assms(1-4) m] obtain ps hs v st1 where
    sent: "rest_operate env shard (svc_pool_ops env st svc ep pps @ AviVsBuild (ord_poolmap env) (env_version env) m) st
      = Ok (None, ps @ hs @ [v], st1)"
    and made: "list_all2 (pool_made host (svc_Namespace svc) (ep_ResourceVersion ep)) ps
        (map (pp_pool svc) (svc_todo env st svc ep pps))"
      "\<forall>op \<in> set hs. op_Model op = ''HTTPRequestPolicy''"
      "vs_made host (svc_Namespace svc) (svc_ResourceVersion svc)
        (marshal_metadata \<lparr>CrudHashKey_field = svc_key svc\<rparr>) v (svc_Name svc)" by blast
  note frame = rest_operate_frame [OF sent]
  from svc_batch_recorded [OF assms(2,3) frame(1,2) made] obtain st' where
    st': "go_fold (record_op \<lparr>nn_Namespace = svc_Namespace svc, nn_Name = svc_Name svc\<rparr>) (ps @ hs @ [v]) st1 = Ok st'"
    "svc_recorded env st svc ep pps st'" by blast
  have "K8sSvc_K8sObjCrUpd env shard svc st = Ok ([], None, st')"
    using assms(2,5) m sent st'(1) svc_pools_creatable [OF assms(2,3), of shard st]
    by (simp add: K8sSvc_K8sObjCrUpd_def lister_Get_def CrudHashKey_def creatable_def Let_def)
  with st' record_batch_clients [OF st'(1)] frame(4) show ?thesis by auto
qed

text \<open>A Service recorded under its version is left alone.\<close>

lemma svc_unchanged_noop:
  assumes "EpInformer (env_informers env) (svc_Namespace svc @ ''/'' @ svc_Name svc) = Some ep"
    "svc_unchanged st svc"
  shows "K8sSvc_K8sObjCrUpd env shard svc st = Ok ([], None, st)"
  using assms by (simp add: K8sSvc_K8sObjCrUpd_def lister_Get_def)

lemma svc_recorded_unchanged: "svc_recorded env st svc ep pps st' \<Longrightarrow> svc_unchanged st' svc"
  by (auto simp: svc_recorded_def svc_unchanged_def)

text \<open>The Endpoints of a Service created from scratch have fresh pools only.\<close>

lemma svc_recorded_fresh:
  assumes "svc_recorded env st svc ep pps st'" "st_ok st'"
    "AviMultiCacheGetKey (svc_to_pool_cache st) (nsname (svc_Namespace svc) (svc_Name svc)) = None" "st_ok st"
    "AviMultiCacheGetKey (svc_to_pool_cache st') (nsname (svc_Namespace svc) (svc_Name svc)) = Some row"
    "v \<in> set row" "\<forall>pp \<in> set pps. CHR ''/'' \<notin> set (pp_pool svc pp)"
  shows "\<not> stale st' ep (entry_name v)"
proof -
  let ?k = "nsname (svc_Namespace svc) (svc_Name svc)"
  have mo: "mc_ok (svc_to_pool_cache st')" "mc_ok (svc_to_pool_cache st)"
    using assms(2,4) by (simp_all add: st_ok_def svc_pool_ok_def)
  have "(?k, v) \<in> mc_rel (svc_to_pool_cache st')"
    using avi_mcache.row_rel [OF mo(1) assms(5)] assms(6) by blast
  moreover have "(?k, v) \<notin> mc_rel (svc_to_pool_cache st)"
    using avi_mcache.row_None [OF mo(2), THEN iffD1, OF assms(3)] by blast
  ultimately obtain pp where pp: "pp \<in> set pps" "v = IStr (''service/'' @ pp_pool svc pp)"
    using assms(1) by (auto simp: svc_recorded_def)
  have "Split ''/'' (''service'' @ CHR ''/'' # pp_pool svc pp) = [''service'', pp_pool svc pp]"
    using Split_char [of "CHR ''/''" "''service''" "pp_pool svc pp"] Split_char_end [of "CHR ''/''" "pp_pool svc pp"]
      assms(7) pp(1) by simp
  then have "entry_name v = pp_pool svc pp" by (simp add: pp(2) entry_name_def)
  with assms(1) pp(1) show ?thesis by (simp add: svc_recorded_def)
qed

section \<open>Undoing a failed batch\<close>

text \<open>
  What a batch made, read off its responses: an operation that succeeded and was answered with a
  list made the object whose UUID its first entry carries. The requests that delete it again are
  spelled out here per model, apart from the code of the rollback.
\<close>

definition made_uuid :: "RestOp \<Rightarrow> string option" where
  "made_uuid op =
     (case (op_Err op, op_Response op) of
        (None, JArr (JObj obj # _)) \<Rightarrow> (case map_of obj ''uuid'' of Some (JStr u) \<Rightarrow> Some u | _ \<Rightarrow> None)
      | _ \<Rightarrow> None)"

definition made_path :: "RestOp \<Rightarrow> string" where
  "made_path op =
     (if op_Model op = ''Pool'' then ''/api/pool/''
      else if op_Model op = ''VirtualService'' then ''/api/virtualservice/''
      else ''/'')"

definition deletion :: "AviSession \<Rightarrow> RestOp \<Rightarrow> request list" where
  "deletion s op = (case made_uuid op of None \<Rightarrow> [] | Some u \<Rightarrow> [ReqDelete s (made_path op @ u) None])"

lemma rollback_url_made:
  assumes "rollback_url op = Ok url"
  shows "url = map_option (\<lambda>u. made_path op @ u) (made_uuid op)"
proof (cases "\<exists>x xs. op_Err op = None \<and> op_Response op = JArr (x # xs)")
  case True
  then obtain x xs where "op_Err op = None" "op_Response op = JArr (x # xs)" by blast
  with assms show ?thesis
    by (cases x) (auto simp: rollback_url_def made_uuid_def made_path_def AviModelToUrl_def jget_def jstring_def go_index_def
      split: option.splits jval.splits)
next
  case False
  with assms show ?thesis
    by (auto simp: rollback_url_def made_uuid_def go_index_def neq_Nil_conv split: if_splits jval.splits option.splits)
qed

lemma rollback_op_log:
  "rollback_op (logged api) s op (w, l) = Ok (w', l') \<Longrightarrow> l' = l @ deletion s op"
  by (cases "made_uuid op")
    (auto simp: rollback_op_def deletion_def logged_def dest!: rollback_url_made split: prod.splits)

lemma rollback_fold_log:
  "go_fold (rollback_op (logged api) s) ops (w, l) = Ok (w', l') \<Longrightarrow> l' = l @ concat (map (deletion s) ops)"
proof (induction ops arbitrary: w l)
  case (Cons op ops)
  from Cons.prems obtain w1 l1 where "rollback_op (logged api) s op (w, l) = Ok (w1, l1)"
    "go_fold (rollback_op (logged api) s) ops (w1, l1) = Ok (w', l')" by auto
  from rollback_op_log [OF this(1)] Cons.IH [OF this(2)] show ?case by simp
qed simp

text \<open>Called for a Service with a name, the Endpoints handler changes nothing.\<close>

lemma K8sEp_K8sObjCrUpd_svc:
  assumes "K8sEp_K8sObjCrUpd env shard ep pre key st = Ok (ops, err, st')" "pre \<noteq> []"
  shows "st' = st"
  using assms by (cases rule: K8sEp_K8sObjCrUpd_cases) auto

lemma svc_error_keeps_caches:
  assumes "K8sSvc_K8sObjCrUpd env shard svc st = Ok (ops, Some e, st')" "svc_Name svc \<noteq> []"
  shows "avi_obj_cache st' = avi_obj_cache st \<and> svc_to_pool_cache st' = svc_to_pool_cache st"
  using assms(1)
proof (cases rule: K8sSvc_K8sObjCrUpd_cases)
  case (failed e' pool_ops ep_err meta st1 st2 ops' ep)
  with K8sEp_K8sObjCrUpd_svc [OF failed(4) assms(2)] rest_operate_frame [OF failed(6)]
    rollback_frame [OF failed(7)] show ?thesis by auto
qed auto

text \<open>
  A failed batch: what was sent is the operations up to the failed one, then the deletions of
  what the operations before it made, the last made first.
\<close>

definition sent_ops :: "RestOp list \<Rightarrow> RestOp list \<Rightarrow> RestOp list" where
  "sent_ops ops ops' = take (Suc (length (takeWhile (\<lambda>op. op_Err op = None) ops'))) ops"

lemma rest_operate_log:
  assumes "rest_operate env shard ops st = Ok (err, ops', st')" "env_api env = logged api"
  shows "snd (world st') = snd (world st) @ concat (map (\<lambda>op. op_request (op_session op (AviClient st ! unat shard)) op)
     (sent_ops ops ops'))"
proof -
  obtain s' w' l' where "AviRestOperate (logged api) (AviClient st ! unat shard) ops (fst (world st), snd (world st))
      = (err, ops', s', (w', l'))" "world st' = (w', l')"
    using assms by (fastforce simp: rest_operate_eq_Ok)
  from AviRestOperate_log [OF this(1)] this(2) show ?thesis by (simp add: sent_ops_def)
qed

lemma svc_batch_tenant:
  assumes "creatable env svc ep pps" "svc_vs_meta svc key pool_ops = Ok m"
    "op \<in> set (svc_pool_ops env st svc ep pps @ AviVsBuild ord v m)"
  shows "op_Tenant op = svc_Namespace svc"
proof -
  have "op_Tenant (pool_build env ep md pre pp) = ep_Namespace ep" for md pre pp
    by (simp add: pool_build_def AviPoolBuild_def Let_def build_pool_meta_fields)
  moreover have "op_Tenant o' = vm_Tenant m" if "o' \<in> set (AviVsBuild ord v m)" for o'
    using that by (auto simp: AviVsBuild_def AviHttpPSBuild_def Let_def split: if_splits prod.splits)
  ultimately show ?thesis
    using assms(1,3) svc_vs_meta_fields(2) [OF assms(2)] by (auto simp: svc_pool_ops_def creatable_def)
qed

lemma svc_rollback_log:
  assumes "K8sSvc_K8sObjCrUpd env shard svc st = Ok (r, Some e, st')" "creatable env svc ep pps" "env_ok env"
    "env_api env = logged api" "\<not> svc_unchanged st svc"
  shows "\<exists>m ops ops' sess w1 i. svc_vs_meta svc (svc_key svc) (svc_pool_ops env st svc ep pps) = Ok m
    \<and> ops = svc_pool_ops env st svc ep pps @ AviVsBuild (ord_poolmap env) (env_version env) m
    \<and> AviRestOperate (logged api) (AviClient st ! unat shard) ops (world st) = (Some e, ops', sess, w1)
    \<and> sess_tenant sess = svc_Namespace svc
    \<and> i < length ops \<and> op_Err (ops' ! i) = Some e \<and> (\<forall>j < i. op_Err (ops' ! j) = None)
    \<and> snd (world st') = snd (world st)
      @ concat (map (\<lambda>op. op_request (op_session op (AviClient st ! unat shard)) op) (take (Suc i) ops))
      @ concat (map (deletion sess) (rev (take i ops')))"
  using assms(1)
proof (cases rule: K8sSvc_K8sObjCrUpd_cases)
  case early
  with assms(2,5) show ?thesis by (simp add: creatable_def)
next
  case (failed e' pool_ops ep_err meta st1 st2 ops' ep')
  have ep: "ep' = ep" using failed(3) assms(2) by (simp add: creatable_def)
  from svc_pools_creatable [OF assms(2,3), of shard st] failed(4) ep
  have p: "pool_ops = svc_pool_ops env st svc ep pps" "st1 = st" by auto
  let ?ops = "svc_pool_ops env st svc ep pps @ AviVsBuild (ord_poolmap env) (env_version env) meta"
  have ro: "rest_operate env shard ?ops st = Ok (Some e, ops', st2)" using failed(2,6) p by simp
  obtain s' w' where op: "AviRestOperate (logged api) (AviClient st ! unat shard) ?ops (world st) = (Some e, ops', s', w')"
    using ro assms(4) by (auto simp: rest_operate_eq_Ok)
  from AviRestOperate_failure [OF op] obtain i where i: "i < length ?ops" "\<forall>j < i. op_Err (ops' ! j) = None"
    "op_Err (ops' ! i) = Some e" "\<forall>j. i < j \<and> j < length ?ops \<longrightarrow> ops' ! j = aborted (?ops ! j)" by blast
  note len = AviRestOperate_length [OF op]
  have tw: "takeWhile (\<lambda>op. op_Err op = None) ops' = take i ops'"
    using i(1-3) len by (intro takeWhile_eq_take_P_nth) auto
  from rest_operate_log [OF ro assms(4)] have log: "snd (world st2) = snd (world st)
      @ concat (map (\<lambda>op. op_request (op_session op (AviClient st ! unat shard)) op) (take (Suc i) ?ops))"
    using i(1) len by (simp add: sent_ops_def tw)
  have none: "concat (map (deletion s) (rev (drop i ops'))) = []" for s
  proof -
    have "deletion s (ops' ! j) = []" if "i \<le> j" "j < length ops'" for j
    proof -
      have "op_Err (ops' ! j) \<noteq> None"
        using that i(3,4) len by (cases "j = i") (simp_all add: aborted_def)
      then show ?thesis by (auto simp: deletion_def made_uuid_def split: option.splits)
    qed
    then show ?thesis by (auto simp: in_set_conv_nth)
  qed
  from failed(7) assms(4) obtain sess w l where
    "go_fold (rollback_op (logged api) sess) (rev ops') (fst (world st2), snd (world st2)) = Ok (w, l)"
    "world st' = (w, l)" and sess: "go_index (AviClient st2) (unat shard) = Ok sess" by (auto simp: rollback_def)
  from rollback_fold_log [OF this(1)] this(2) have "snd (world st') = snd (world st2)
      @ concat (map (deletion sess) (rev (take i ops' @ drop i ops')))" by simp
  then have "snd (world st') = snd (world st2) @ concat (map (deletion sess) (rev (take i ops')))"
    unfolding rev_append map_append concat_append none by simp
  moreover have "sess = s'" using sess ro op assms(4) by (auto simp: rest_operate_eq_Ok go_index_def)
  moreover have "sess_tenant s' = svc_Namespace svc"
    using svc_batch_tenant [OF assms(2) failed(5)] p
    by (intro AviRestOperate_tenant [OF op]) (auto simp: AviVsBuild_def Let_def)
  ultimately show ?thesis
    using failed(5) p log op i(1-3) by (intro exI [of _ meta] exI) (auto simp del: append_assoc)
qed auto

text \<open>A batch that succeeds is sent in full, and nothing else is.\<close>

lemma record_op_world: "record_op key op st = Ok st' \<Longrightarrow> world st' = world st"
  by (auto simp: record_op_def K8sEpSvcToPoolCacheAdd_def split: if_splits)

lemma svc_sent_log:
  assumes "K8sSvc_K8sObjCrUpd env shard svc st = Ok (r, None, st')" "creatable env svc ep pps" "env_ok env"
    "env_api env = logged api" "\<not> svc_unchanged st svc" "svc_vs_meta svc (svc_key svc) (svc_pool_ops env st svc ep pps) = Ok m"
  shows "snd (world st') = snd (world st) @ concat (map (\<lambda>op. op_request (op_session op (AviClient st ! unat shard)) op)
    (svc_pool_ops env st svc ep pps @ AviVsBuild (ord_poolmap env) (env_version env) m))"
  using assms(1)
proof (cases rule: K8sSvc_K8sObjCrUpd_cases)
  case early
  with assms(2,5) show ?thesis by (simp add: creatable_def)
next
  case (sent pool_ops ep_err meta st1 st2 ops' ep')
  have ep: "ep' = ep" using sent(3) assms(2) by (simp add: creatable_def)
  from svc_pools_creatable [OF assms(2,3), of shard st] sent(4) ep
  have p: "pool_ops = svc_pool_ops env st svc ep pps" "st1 = st" by auto
  let ?ops = "svc_pool_ops env st svc ep pps @ AviVsBuild (ord_poolmap env) (env_version env) m"
  have ro: "rest_operate env shard ?ops st = Ok (None, ops', st2)" using sent(5,6) p assms(6) by simp
  have all: "sent_ops ?ops ops' = ?ops"
  proof -
    obtain s' w' where op: "AviRestOperate (env_api env) (AviClient st ! unat shard) ?ops (world st) = (None, ops', s', w')"
      using ro by (auto simp: rest_operate_eq_Ok)
    have "takeWhile (\<lambda>op. op_Err op = None) ops' = ops'" using AviRestOperate_success [OF op] by simp
    note tw = this AviRestOperate_length [OF op]
    show ?thesis unfolding sent_ops_def tw(1) using tw(2) by simp
  qed
  have "world st' = world st2"
    using sent(7) by (rule go_fold_inv [where I = "\<lambda>s. world s = world st2"]) (auto dest: record_op_world)
  with rest_operate_log [OF ro assms(4)] all show ?thesis by simp
qed auto


lemma svc_pool_ops_fresh:
  assumes "env_ok env" "\<forall>pp \<in> set pps. \<not> stale st ep (pp_pool svc pp)"
  shows "svc_pool_ops env st svc ep pps = []"
  using assms by (auto simp: svc_pool_ops_def svc_todo_def filter_empty_conv env_ok_def reordering_set)

section \<open>An event of Endpoints that have pools\<close>

lemma pool_ops_made:
  assumes "accepting host (env_api env)" "go_map (pool_op env ep md) names = Ok ops"
  shows "\<exists>ops' s' w'. AviRestOperate (env_api env) s ops w = (None, ops', s', w')
    \<and> list_all2 (pool_made host (ep_Namespace ep) (ep_ResourceVersion ep)) ops' names"
  using assms(2)
proof (induction names arbitrary: ops s w)
  case (Cons n names)
  from Cons.prems obtain op ops1 where ops: "pool_op env ep md n = Ok op" "ops = op # ops1"
    "go_map (pool_op env ep md) names = Ok ops1" by auto
  from pool_call_made [OF assms(1) ops(1), of "op_session op s" w] obtain op' w1 where
    call: "rest_call (env_api env) (op_session op s) op w = (op', w1)"
    "pool_made host (ep_Namespace ep) (ep_ResourceVersion ep) op' n" by blast
  from Cons.IH [OF ops(3), of "op_session op s" w1] obtain ops' s' w' where
    "AviRestOperate (env_api env) (op_session op s) ops1 w1 = (None, ops', s', w')"
    "list_all2 (pool_made host (ep_Namespace ep) (ep_ResourceVersion ep)) ops' names" by blast
  moreover have "op_Err op' = None" using call(2) by (simp add: pool_made_def)
  ultimately show ?case using call ops(2) by (simp add: op_session_def)
qed simp

lemma add_op_pool:
  assumes "pool_made host t ck op n"
  shows "\<exists>p. pc_CloudConfigCksum p = ck \<and> add_pool_op op st =
    Ok (set_pool_cache st (AviCacheAdd (PoolCache (avi_obj_cache st)) (nsname t n) (IPool p)))"
proof -
  from assms obtain uuid lb md where m: "op_Err op = None" "op_Tenant op = t"
    "answered host ''pool'' uuid n lb ck md (op_Response op)" "url_plain host" "url_plain uuid"
    by (auto simp: pool_made_def)
  show ?thesis
    using m(2) AviPoolCacheAdd_one [OF m(1,3,4,5), of "PoolCache (avi_obj_cache st)"]
    by (intro exI [of _ "\<lparr>pc_Name = n, pc_Tenant = t, pc_Uuid = uuid, pc_LbAlgorithm = lb,
      pc_ServiceMetadata = decode_metadata md, pc_CloudConfigCksum = ck\<rparr>"]) (simp add: add_pool_op_def m(1))
qed

lemma add_pools:
  assumes "list_all2 (pool_made host t ck) ops names"
  shows "\<exists>c. go_fold add_pool_op ops st = Ok (set_pool_cache st c)
    \<and> (\<forall>n \<in> set names. \<exists>p. AviCacheGet c (nsname t n) = Some (IPool p) \<and> pc_CloudConfigCksum p = ck)
    \<and> (\<forall>k. k \<notin> nsname t ` set names \<longrightarrow> AviCacheGet c k = AviCacheGet (PoolCache (avi_obj_cache st)) k)"
  using assms
proof (induction ops names arbitrary: st rule: list_all2_induct)
  case Nil
  show ?case by (intro exI [of _ "PoolCache (avi_obj_cache st)"]) (simp add: set_pool_cache_def)
next
  case (Cons op ops n names)
  from add_op_pool [OF Cons.hyps(1), of st] obtain p where p: "pc_CloudConfigCksum p = ck"
    "add_pool_op op st = Ok (set_pool_cache st (AviCacheAdd (PoolCache (avi_obj_cache st)) (nsname t n) (IPool p)))" by blast
  let ?st = "set_pool_cache st (AviCacheAdd (PoolCache (avi_obj_cache st)) (nsname t n) (IPool p))"
  from Cons.IH [of ?st] obtain c where c: "go_fold add_pool_op ops ?st = Ok (set_pool_cache ?st c)"
    "\<forall>n \<in> set names. \<exists>p. AviCacheGet c (nsname t n) = Some (IPool p) \<and> pc_CloudConfigCksum p = ck"
    "\<forall>k. k \<notin> nsname t ` set names \<longrightarrow> AviCacheGet c k = AviCacheGet (PoolCache (avi_obj_cache ?st)) k" by blast
  have "\<exists>p. AviCacheGet c (nsname t n) = Some (IPool p) \<and> pc_CloudConfigCksum p = ck"
  proof (cases "n \<in> set names")
    case False
    then have "nsname t n \<notin> nsname t ` set names" by auto
    with c(3) p(1) show ?thesis by (simp add: cache_simps)
  qed (use c(2) in blast)
  with p(2) c show ?case by (intro exI [of _ c]) (auto simp: set_pool_cache_def cache_simps)
qed

lemma ep_event_updates:
  assumes "accepting host (env_api env)" "st_ok st" "env_ok env" "svc_of env ep = Some svc"
    "ready_ports svc (ep_Subsets ep) [] = Ok (Some pps)"
    "AviMultiCacheGetKey (svc_to_pool_cache st) (nsname (ep_Namespace ep) (ep_Name ep)) = Some row"
    "\<forall>v \<in> set row. \<exists>pp. split_pool_name (entry_name v) = Ok pp" "unat shard < length (AviClient st)"
  shows "\<exists>st'. K8sEp_K8sObjCrUpd env shard ep [] key st = Ok ([], None, st')
    \<and> (\<forall>v \<in> set row. \<not> stale st' ep (entry_name v))
    \<and> (\<forall>k. k \<notin> (\<lambda>v. nsname (ep_Namespace ep) (entry_name v)) ` set row \<longrightarrow>
         AviCacheGet (PoolCache (avi_obj_cache st')) k = AviCacheGet (PoolCache (avi_obj_cache st)) k)
    \<and> VsCache (avi_obj_cache st') = VsCache (avi_obj_cache st) \<and> svc_to_pool_cache st' = svc_to_pool_cache st"
proof -
  have ord: "set (ord_pools env row) = set row" using assms(3) by (simp add: env_ok_def reordering_set)
  obtain md where md: "pools_to_update env st ep [] key pps = Ok (Some (map entry_name (ord_pools env row), md))"
    using pools_to_update_row [OF assms(2,3,6)] by blast
  let ?names = "filter (stale st ep) (map entry_name (ord_pools env row))"
  obtain ops where ops: "go_map (pool_op env ep md) ?names = Ok ops"
  proof -
    define f where "f n = (case pool_op env ep md n of Ok op \<Rightarrow> op | Panic _ \<Rightarrow> undefined)" for n
    have "pool_op env ep md n = Ok (f n)" if "n \<in> set ?names" for n
      using that assms(7) ord by (fastforce simp: pool_op_def f_def)
    then have "go_map (pool_op env ep md) ?names = Ok (map f ?names)" by (rule go_map_all_Ok)
    with that show ?thesis by blast
  qed
  from pool_ops_made [OF assms(1) ops, of "AviClient st ! unat shard" "world st"] obtain ops' s' w' where
    sent: "AviRestOperate (env_api env) (AviClient st ! unat shard) ops (world st) = (None, ops', s', w')"
    "list_all2 (pool_made host (ep_Namespace ep) (ep_ResourceVersion ep)) ops' ?names" by blast
  define st1 where "st1 = st\<lparr>AviClient := (AviClient st)[unat shard := s'], world := w'\<rparr>"
  have r: "rest_operate env shard ops st = Ok (None, ops', st1)"
    using sent(1) assms(8) by (simp add: rest_operate_eq_Ok st1_def)
  from add_pools [OF sent(2), of st1] obtain c where c: "go_fold add_pool_op ops' st1 = Ok (set_pool_cache st1 c)"
    "\<forall>n \<in> set ?names. \<exists>p. AviCacheGet c (nsname (ep_Namespace ep) n) = Some (IPool p) \<and> pc_CloudConfigCksum p = ep_ResourceVersion ep"
    "\<forall>k. k \<notin> nsname (ep_Namespace ep) ` set ?names \<longrightarrow> AviCacheGet c k = AviCacheGet (PoolCache (avi_obj_cache st)) k"
    by (auto simp: st1_def)
  have "\<not> stale (set_pool_cache st1 c) ep (entry_name v)" if "v \<in> set row" for v
  proof (cases "stale st ep (entry_name v)")
    case True
    with that ord have "entry_name v \<in> set ?names" by auto
    with c(2) obtain p where "AviCacheGet c (nsname (ep_Namespace ep) (entry_name v)) = Some (IPool p)"
      "pc_CloudConfigCksum p = ep_ResourceVersion ep" by blast
    then show ?thesis by (simp add: stale_def same_cksum_def)
  next
    case False
    then have "nsname (ep_Namespace ep) (entry_name v) \<notin> nsname (ep_Namespace ep) ` set ?names" by auto
    with c(3) False show ?thesis by (simp add: stale_def same_cksum_def)
  qed
  moreover have "K8sEp_K8sObjCrUpd env shard ep [] key st = Ok ([], None, set_pool_cache st1 c)"
    using assms(4,5) md ops r c(1) by (simp add: K8sEp_K8sObjCrUpd_def lister_Get_def pool_rest_ops_eq)
  moreover have "AviCacheGet c k = AviCacheGet (PoolCache (avi_obj_cache st)) k"
    if "k \<notin> (\<lambda>v. nsname (ep_Namespace ep) (entry_name v)) ` set row" for k
  proof -
    have "k \<notin> nsname (ep_Namespace ep) ` set ?names" using that ord by auto
    with c(3) show ?thesis by blast
  qed
  ultimately show ?thesis by (intro exI [of _ "set_pool_cache st1 c"]) (simp add: st1_def)
qed

end
