(* ===== verification/Work_Queue.thy ===== *)
theory Work_Queue
  imports Prelude
begin

text \<open>
  The work queue the controller's workers draw from: \<^verbatim>\<open>client-go/util/workqueue\<close>, the basic queue
  (\<^verbatim>\<open>queue.go\<close>) and the per-item exponential rate limiter (\<^verbatim>\<open>default_rate_limiters.go\<close>). Every
  method holds the queue's lock, so each is one atomic operation; metrics are left out.

  The contract of the queue is the locale \<open>dedup_queue\<close>: the queue lists, without repetition,
  the items that need processing and are not being processed. It is interpreted on the
  operations below under the discipline the documentation asks for, that \<^verbatim>\<open>Done\<close> is called with
  an item that is being processed.
\<close>

section \<open>queue.go\<close>

record 'a Type =
  queue :: "'a list"
  dirty :: "'a set"
  processing :: "'a set"
  shuttingDown :: bool

definition newQueue :: "'a Type" where
  "newQueue = \<lparr>queue = [], dirty = {}, processing = {}, shuttingDown = False\<rparr>"

definition Add :: "'a \<Rightarrow> 'a Type \<Rightarrow> 'a Type" where
  "Add item q =
     (if shuttingDown q then q
      else if item \<in> dirty q then q
      else
        (let q1 = q\<lparr>dirty := insert item (dirty q)\<rparr>
         in if item \<in> processing q1 then q1
            else q1\<lparr>queue := queue q1 @ [item]\<rparr>))"

definition Len :: "'a Type \<Rightarrow> nat" where
  "Len q = length (queue q)"

text \<open>
  \<open>Get\<close> waits on the condition variable while the queue is empty and not shutting down: it
  has no result there. Otherwise the result is the item, or none when shutting down.
\<close>

definition Get :: "'a Type \<Rightarrow> ('a option \<times> 'a Type) option" where
  "Get q =
     (case queue q of
        [] \<Rightarrow> if shuttingDown q then Some (None, q) else None
      | item # rest \<Rightarrow>
          Some (Some item,
                q\<lparr>queue := rest, processing := insert item (processing q), dirty := dirty q - {item}\<rparr>))"

definition Done :: "'a \<Rightarrow> 'a Type \<Rightarrow> 'a Type" where
  "Done item q =
     (let q1 = q\<lparr>processing := processing q - {item}\<rparr>
      in if item \<in> dirty q1 then q1\<lparr>queue := queue q1 @ [item]\<rparr> else q1)"

definition ShutDown :: "'a Type \<Rightarrow> 'a Type" where
  "ShutDown q = q\<lparr>shuttingDown := True\<rparr>"

definition ShuttingDown :: "'a Type \<Rightarrow> bool" where
  "ShuttingDown q = shuttingDown q"

section \<open>default_rate_limiters.go\<close>

text \<open>
  Durations are nanoseconds. \<^verbatim>\<open>float64(baseDelay) * math.Pow(2, exp)\<close> is exact while it is finite,
  since the base delay is far below \<open>2 ^ 53\<close>; it is compared with \<^verbatim>\<open>math.MaxInt64\<close>, which
  rounds to \<open>2 ^ 63\<close> as a \<^verbatim>\<open>float64\<close>.
\<close>

record 'a ExpLimiter =
  failures :: "'a \<Rightarrow> nat"
  baseDelay :: int
  maxDelay :: int

definition NewItemExponentialFailureRateLimiter :: "int \<Rightarrow> int \<Rightarrow> 'a ExpLimiter" where
  "NewItemExponentialFailureRateLimiter base mx = \<lparr>failures = (\<lambda>_. 0), baseDelay = base, maxDelay = mx\<rparr>"

definition exp_When :: "'a \<Rightarrow> 'a ExpLimiter \<Rightarrow> int \<times> 'a ExpLimiter" where
  "exp_When item r =
     (let exp = failures r item;
          r' = r\<lparr>failures := (failures r)(item := failures r item + 1)\<rparr>;
          backoff = baseDelay r * 2 ^ exp
      in (if backoff > 2 ^ 63 then maxDelay r
          else if backoff > maxDelay r then maxDelay r
          else backoff, r'))"

definition exp_Forget :: "'a \<Rightarrow> 'a ExpLimiter \<Rightarrow> 'a ExpLimiter" where
  "exp_Forget item r = r\<lparr>failures := (failures r)(item := 0)\<rparr>"

definition exp_NumRequeues :: "'a \<Rightarrow> 'a ExpLimiter \<Rightarrow> nat" where
  "exp_NumRequeues item r = failures r item"

text \<open>
  \<^verbatim>\<open>DefaultControllerRateLimiter\<close>: the larger of the item's delay and the delay \<open>bucket\<close> the
  token bucket of \<^verbatim>\<open>golang.org/x/time/rate\<close> reserves.
\<close>

definition DefaultControllerRateLimiter :: "'a ExpLimiter" where
  "DefaultControllerRateLimiter = NewItemExponentialFailureRateLimiter 5000000 1000000000000"

definition max_When :: "int \<Rightarrow> 'a \<Rightarrow> 'a ExpLimiter \<Rightarrow> int \<times> 'a ExpLimiter" where
  "max_When bucket item r =
     (case exp_When item r of (d, r') \<Rightarrow>
        (let ret = (if d > 0 then d else 0) in (if bucket > ret then bucket else ret, r')))"

section \<open>The contract of the queue\<close>

locale dedup_queue =
  fixes add :: "'a \<Rightarrow> 'q \<Rightarrow> 'q"
    and get :: "'q \<Rightarrow> ('a option \<times> 'q) option"
    and finish :: "'a \<Rightarrow> 'q \<Rightarrow> 'q"
    and listed :: "'q \<Rightarrow> 'a list"
    and wanted :: "'q \<Rightarrow> 'a set"
    and busy :: "'q \<Rightarrow> 'a set"
    and closed :: "'q \<Rightarrow> bool"
    and inv :: "'q \<Rightarrow> bool"
  assumes inv_listed: "inv q \<Longrightarrow> distinct (listed q) \<and> set (listed q) = wanted q - busy q"
    and inv_add: "inv q \<Longrightarrow> inv (add x q)"
    and inv_get: "inv q \<Longrightarrow> get q = Some (r, q') \<Longrightarrow> inv q'"
    and inv_finish: "inv q \<Longrightarrow> x \<in> busy q \<Longrightarrow> inv (finish x q)"
    and wanted_add: "wanted (add x q) = (if closed q then wanted q else insert x (wanted q))"
    and busy_add: "busy (add x q) = busy q"
    and listed_add: "\<exists>ys. listed (add x q) = listed q @ ys"
    and get_item: "get q = Some (Some x, q') \<Longrightarrow> listed q = x # listed q' \<and> wanted q' = wanted q - {x}
          \<and> busy q' = insert x (busy q) \<and> closed q' = closed q"
    and get_some: "listed q \<noteq> [] \<Longrightarrow> \<exists>x q'. get q = Some (Some x, q')"
    and wanted_finish: "wanted (finish x q) = wanted q"
    and busy_finish: "busy (finish x q) = busy q - {x}"
begin

lemma get_itemD:
  assumes "get q = Some (Some x, q')"
  shows "listed q = x # listed q'" "wanted q' = wanted q - {x}" "busy q' = insert x (busy q)"
  using get_item [OF assms] by auto

text \<open>An item is never handed out while it is being processed.\<close>

lemma exclusive: "inv q \<Longrightarrow> get q = Some (Some x, q') \<Longrightarrow> x \<notin> busy q"
  using inv_listed [of q] get_itemD(1) [of q x q'] by auto

text \<open>An item added while it is processed is listed again once that is finished.\<close>

lemma readded:
  assumes "inv q" "x \<in> busy q" "\<not> closed q"
  shows "x \<in> set (listed (finish x (add x q)))"
proof -
  have "inv (finish x (add x q))" using assms by (simp add: inv_add inv_finish busy_add)
  from inv_listed [OF this] show ?thesis
    using assms by (simp add: wanted_finish busy_finish busy_add wanted_add)
qed

text \<open>First in, first out: an item is returned after those listed before it.\<close>

primrec gets :: "nat \<Rightarrow> 'q \<Rightarrow> 'q option" where
  "gets 0 q = Some q"
| "gets (Suc n) q = (case get q of Some (Some x, q') \<Rightarrow> gets n q' | _ \<Rightarrow> None)"

lemma fifo:
  assumes "listed q = xs @ y # ys"
  shows "\<exists>q1 q2. gets (length xs) q = Some q1 \<and> get q1 = Some (Some y, q2) \<and> listed q2 = ys"
  using assms
proof (induction xs arbitrary: q)
  case Nil
  then obtain x q2 where "get q = Some (Some x, q2)" using get_some [of q] by auto
  with get_itemD(1) [OF this] Nil show ?case by auto
next
  case (Cons x xs)
  then obtain z q2 where z: "get q = Some (Some z, q2)" using get_some [of q] by auto
  with get_itemD(1) [OF z] Cons show ?case by auto
qed

end

definition q_inv :: "'a Type \<Rightarrow> bool" where
  "q_inv q \<longleftrightarrow> distinct (queue q) \<and> set (queue q) = dirty q - processing q"

interpretation wq: dedup_queue Add Get Done queue dirty processing shuttingDown q_inv
proof
  fix q :: "'a Type" and x q' r
  show "q_inv q \<Longrightarrow> distinct (queue q) \<and> set (queue q) = dirty q - processing q"
    by (simp add: q_inv_def)
  show "q_inv q \<Longrightarrow> q_inv (Add x q)"
    by (auto simp: q_inv_def Add_def Let_def)
  show "q_inv q \<Longrightarrow> Get q = Some (r, q') \<Longrightarrow> q_inv q'"
    by (auto simp: q_inv_def Get_def split: list.splits if_splits)
  show "q_inv q \<Longrightarrow> x \<in> processing q \<Longrightarrow> q_inv (Done x q)"
    by (auto simp: q_inv_def Done_def Let_def)
qed (auto simp: Add_def Get_def Done_def Let_def split: list.splits if_splits)

lemma q_inv_new: "q_inv newQueue"
  by (simp add: q_inv_def newQueue_def)

lemma q_inv_ShutDown: "q_inv q \<Longrightarrow> q_inv (ShutDown q)"
  by (simp add: q_inv_def ShutDown_def)

lemma Get_empty:
  "queue q = [] \<Longrightarrow> Get q = (if shuttingDown q then Some (None, q) else None)"
  by (simp add: Get_def)

section \<open>Back-off\<close>

lemma exp_When_delay:
  assumes "0 \<le> baseDelay r" "maxDelay r \<le> 2 ^ 63"
  shows "fst (exp_When item r) = min (maxDelay r) (baseDelay r * 2 ^ failures r item)"
  using assms by (simp add: exp_When_def Let_def)

lemma exp_When_count:
  "failures (snd (exp_When item r)) = (failures r)(item := Suc (failures r item))"
  by (simp add: exp_When_def Let_def)

primrec whens :: "nat \<Rightarrow> 'a \<Rightarrow> 'a ExpLimiter \<Rightarrow> 'a ExpLimiter" where
  "whens 0 item r = r"
| "whens (Suc n) item r = snd (exp_When item (whens n item r))"

lemma whens_fields:
  "baseDelay (whens n item r) = baseDelay r" "maxDelay (whens n item r) = maxDelay r"
  "failures (whens n item r) item = failures r item + n"
  by (induction n) (simp_all add: exp_When_def Let_def)

section \<open>Properties\<close>



text \<open>
  An item is never handed out while it is being processed, and an item that was added
  while it was processed is queued again when its processing is done.
\<close>

theorem queue_exclusive_and_lossless:
  assumes "q_inv q"
  shows "(Get q = Some (Some x, q') \<longrightarrow> x \<notin> processing q \<and> x \<in> processing q')
    \<and> (y \<in> processing q \<and> \<not> shuttingDown q \<longrightarrow> y \<in> set (queue (Done y (Add y q))))"
  using wq.exclusive [OF assms] wq.get_itemD(3) [of q x q'] wq.readded [OF assms] by auto

theorem queue_exclusive_and_lossless_witness:
  "''k'' \<in> set (queue (Done ''k'' (Add ''k''
     \<lparr>queue = [], dirty = {}, processing = {''k''}, shuttingDown = False\<rparr>)))"
  using queue_exclusive_and_lossless [of "\<lparr>queue = [], dirty = {}, processing = {''k''}, shuttingDown = False\<rparr>" _ _ "''k''"]
  by (simp add: q_inv_def)

text \<open>
  C33: the back-off of the default limiter. The delay of an item after \<open>n\<close> more failures is
  5 ms doubled that often, capped at 1000 s; it is never negative and starts again at 5 ms
  once the item is forgotten. (The comment on \<^verbatim>\<open>ItemExponentialFailureRateLimiter\<close> says
  \<^verbatim>\<open>baseDelay*10^<num-failures>\<close>; the code doubles.)
\<close>

theorem backoff_bounds:
  "fst (exp_When x (whens n x DefaultControllerRateLimiter)) = min 1000000000000 (5000000 * 2 ^ n)
   \<and> fst (exp_When x (exp_Forget x (whens n x DefaultControllerRateLimiter))) = 5000000"
proof -
  let ?r = "whens n x DefaultControllerRateLimiter"
  have f: "baseDelay ?r = 5000000" "maxDelay ?r = 1000000000000" "failures ?r x = n"
    using whens_fields [of n x DefaultControllerRateLimiter]
    by (simp_all add: DefaultControllerRateLimiter_def NewItemExponentialFailureRateLimiter_def)
  have "fst (exp_When x ?r) = min (maxDelay ?r) (baseDelay ?r * 2 ^ failures ?r x)"
    by (rule exp_When_delay) (simp_all add: f)
  moreover have "fst (exp_When x (exp_Forget x ?r)) = 5000000"
    by (simp add: exp_When_def exp_Forget_def Let_def f)
  ultimately show ?thesis by (simp add: f)
qed

end
