(* ===== verification/Delaying_Queue.thy ===== *)
theory Delaying_Queue
  imports Work_Queue
begin

text \<open>
  The delaying and rate-limiting layers of the work queue
  (\<^verbatim>\<open>client-go/util/workqueue/delaying_queue.go\<close>, \<^verbatim>\<open>rate_limitting_queue.go\<close>).

  \<^verbatim>\<open>waitForPriorityQueue\<close> is a binary heap in a slice, maintained by \<^verbatim>\<open>container/heap\<close>: \<open>heap_up\<close>,
  \<open>heap_down\<close>, \<open>heap_Push\<close>, \<open>heap_Pop\<close> and \<open>heap_Fix\<close> are the functions of that package on
  the slice. The \<^verbatim>\<open>index\<close> field of an entry, which \<^verbatim>\<open>Swap\<close>, \<^verbatim>\<open>Push\<close> and \<^verbatim>\<open>Pop\<close> keep equal to its
  position, is that position (\<open>entry_index\<close>), and \<^verbatim>\<open>waitingEntryByData\<close>, which maps the data of
  every entry of the heap to the entry, is the set of its keys. Times and durations are
  nanoseconds.

  The goroutine \<^verbatim>\<open>waitingLoop\<close> appears as the steps it takes: adding what is ready
  (\<open>add_ready\<close>) and receiving from \<^verbatim>\<open>waitingForAddCh\<close> (\<open>receive\<close>).
\<close>

section \<open>container/heap on waitForPriorityQueue\<close>

record 'a waitFor =
  wf_data :: 'a
  readyAt :: int

definition Less :: "'a waitFor list \<Rightarrow> nat \<Rightarrow> nat \<Rightarrow> bool" where
  "Less pq i j \<longleftrightarrow> readyAt (pq ! i) < readyAt (pq ! j)"

definition Swap :: "'a waitFor list \<Rightarrow> nat \<Rightarrow> nat \<Rightarrow> 'a waitFor list" where
  "Swap pq i j = pq[i := pq ! j, j := pq ! i]"

function heap_up :: "'a waitFor list \<Rightarrow> nat \<Rightarrow> 'a waitFor list" where
  "heap_up pq j =
     (let i = (j - 1) div 2
      in if i = j \<or> \<not> Less pq j i then pq else heap_up (Swap pq i j) i)"
  by pat_completeness auto
termination
  by (relation "measure snd") (auto simp: div_eq_dividend_iff)

function heap_down :: "'a waitFor list \<Rightarrow> nat \<Rightarrow> nat \<Rightarrow> 'a waitFor list \<times> nat" where
  "heap_down pq i n =
     (let j1 = 2 * i + 1
      in if j1 \<ge> n then (pq, i)
         else
           (let j = (if j1 + 1 < n \<and> Less pq (j1 + 1) j1 then j1 + 1 else j1)
            in if \<not> Less pq j i then (pq, i) else heap_down (Swap pq i j) j n))"
  by pat_completeness auto
termination
  by (relation "measure (\<lambda>(pq, i, n). n - i)") auto

declare heap_up.simps [simp del] heap_down.simps [simp del]

definition heap_Push :: "'a waitFor list \<Rightarrow> 'a waitFor \<Rightarrow> 'a waitFor list" where
  "heap_Push pq x = heap_up (pq @ [x]) (length pq)"

definition heap_Pop :: "'a waitFor list \<Rightarrow> 'a waitFor \<times> 'a waitFor list" where
  "heap_Pop pq =
     (let n = length pq - 1;
          pq1 = fst (heap_down (Swap pq 0 n) 0 n)
      in (pq1 ! n, take n pq1))"

definition heap_Fix :: "'a waitFor list \<Rightarrow> nat \<Rightarrow> 'a waitFor list" where
  "heap_Fix pq i =
     (let (pq1, i1) = heap_down pq i (length pq)
      in if i1 > i then pq1 else heap_up pq1 i)"

section \<open>delaying_queue.go\<close>

record 'a delayingType =
  dq_queue :: "'a Type"
  stopCh_closed :: bool
  waitingForAddCh :: "'a waitFor list"
  waitingForQueue :: "'a waitFor list"
  waitingEntryByData :: "'a set"
  dq_limiter :: "'a ExpLimiter"

definition newDelayingQueue :: "'a ExpLimiter \<Rightarrow> 'a delayingType" where
  "newDelayingQueue limiter =
     \<lparr>dq_queue = newQueue, stopCh_closed = False, waitingForAddCh = [], waitingForQueue = [],
      waitingEntryByData = {}, dq_limiter = limiter\<rparr>"

definition dq_ShutDown :: "'a delayingType \<Rightarrow> 'a delayingType go" where
  "dq_ShutDown q =
     (if stopCh_closed q then Panic CloseOfClosedChannel
      else Ok (q\<lparr>dq_queue := ShutDown (dq_queue q), stopCh_closed := True\<rparr>))"

text \<open>
  The channel holds 1000 entries. A send to the full channel waits until the loop receives or
  the queue is shut down; \<open>None\<close> is a call that waits. When both cases of the \<^verbatim>\<open>select\<close> are
  ready the language leaves the choice open; the argument \<open>stop\<close> says whether the closed
  \<^verbatim>\<open>stopCh\<close> is chosen.
\<close>

definition AddAfter :: "bool \<Rightarrow> int \<Rightarrow> 'a \<Rightarrow> int \<Rightarrow> 'a delayingType \<Rightarrow> 'a delayingType option" where
  "AddAfter stop now item duration q =
     (if ShuttingDown (dq_queue q) then Some q
      else if duration \<le> 0 then Some (q\<lparr>dq_queue := Add item (dq_queue q)\<rparr>)
      else if stopCh_closed q \<and> (stop \<or> length (waitingForAddCh q) \<ge> 1000) then Some q
      else if length (waitingForAddCh q) < 1000 then
        Some (q\<lparr>waitingForAddCh := waitingForAddCh q @ [\<lparr>wf_data = item, readyAt = now + duration\<rparr>]\<rparr>)
      else None)"

fun entry_index :: "'a waitFor list \<Rightarrow> 'a \<Rightarrow> nat" where
  "entry_index [] d = 0"
| "entry_index (e # pq) d = (if wf_data e = d then 0 else Suc (entry_index pq d))"

definition insert_entry ::
  "'a waitFor list \<Rightarrow> 'a set \<Rightarrow> 'a waitFor \<Rightarrow> 'a waitFor list \<times> 'a set" where
  "insert_entry pq known entry =
     (if wf_data entry \<in> known then
        (let i = entry_index pq (wf_data entry);
             existing = pq ! i
         in if readyAt existing > readyAt entry
            then (heap_Fix (pq[i := existing\<lparr>readyAt := readyAt entry\<rparr>]) i, known)
            else (pq, known))
      else (heap_Push pq entry, insert (wf_data entry) known))"

text \<open>The inner loop that adds what is ready at \<open>now\<close>; each round takes one entry off the heap.\<close>

fun add_ready_loop :: "nat \<Rightarrow> int \<Rightarrow> 'a delayingType \<Rightarrow> 'a delayingType" where
  "add_ready_loop 0 now q = q"
| "add_ready_loop (Suc n) now q =
     (if readyAt (waitingForQueue q ! 0) > now then q
      else
        (let (entry, rest) = heap_Pop (waitingForQueue q)
         in add_ready_loop n now
              (q\<lparr>waitingForQueue := rest, dq_queue := Add (wf_data entry) (dq_queue q),
                 waitingEntryByData := waitingEntryByData q - {wf_data entry}\<rparr>)))"

definition add_ready :: "int \<Rightarrow> 'a delayingType \<Rightarrow> 'a delayingType" where
  "add_ready now q =
     (if ShuttingDown (dq_queue q) then q
      else add_ready_loop (length (waitingForQueue q)) now q)"

definition receive_entry :: "int \<Rightarrow> 'a waitFor \<Rightarrow> 'a delayingType \<Rightarrow> 'a delayingType" where
  "receive_entry now waitEntry q =
     (if readyAt waitEntry > now then
        (case insert_entry (waitingForQueue q) (waitingEntryByData q) waitEntry of
           (pq, known) \<Rightarrow> q\<lparr>waitingForQueue := pq, waitingEntryByData := known\<rparr>)
      else q\<lparr>dq_queue := Add (wf_data waitEntry) (dq_queue q)\<rparr>)"

text \<open>Receiving one entry from the channel, if there is one.\<close>

definition receive :: "int \<Rightarrow> 'a delayingType \<Rightarrow> 'a delayingType" where
  "receive now q =
     (case waitingForAddCh q of
        [] \<Rightarrow> q
      | e # es \<Rightarrow> receive_entry now e (q\<lparr>waitingForAddCh := es\<rparr>))"

section \<open>rate_limitting_queue.go\<close>

definition AddRateLimited ::
  "bool \<Rightarrow> int \<Rightarrow> int \<Rightarrow> 'a \<Rightarrow> 'a delayingType \<Rightarrow> 'a delayingType option" where
  "AddRateLimited stop now bucket item q =
     (case max_When bucket item (dq_limiter q) of (duration, limiter) \<Rightarrow>
        AddAfter stop now item duration (q\<lparr>dq_limiter := limiter\<rparr>))"

definition NumRequeues :: "'a \<Rightarrow> 'a delayingType \<Rightarrow> nat" where
  "NumRequeues item q = exp_NumRequeues item (dq_limiter q)"

definition Forget :: "'a \<Rightarrow> 'a delayingType \<Rightarrow> 'a delayingType" where
  "Forget item q = q\<lparr>dq_limiter := exp_Forget item (dq_limiter q)\<rparr>"

section \<open>The heap\<close>

definition par :: "nat \<Rightarrow> nat" where
  "par k = (k - 1) div 2"

abbreviation rdy :: "'a waitFor list \<Rightarrow> nat \<Rightarrow> int" where
  "rdy pq k \<equiv> readyAt (pq ! k)"

definition heap_ok :: "nat \<Rightarrow> 'a waitFor list \<Rightarrow> bool" where
  "heap_ok n pq \<longleftrightarrow> (\<forall>k. 0 < k \<and> k < n \<longrightarrow> rdy pq (par k) \<le> rdy pq k)"

lemma Swap_length [simp]: "length (Swap pq i j) = length pq"
  by (simp add: Swap_def)

lemma Swap_nth:
  "i < length pq \<Longrightarrow> j < length pq \<Longrightarrow> Swap pq i j ! k = (if k = i then pq ! j else if k = j then pq ! i else pq ! k)"
  by (auto simp: Swap_def nth_list_update)

lemma Swap_mset: "i < length pq \<Longrightarrow> j < length pq \<Longrightarrow> mset (Swap pq i j) = mset pq"
  unfolding Swap_def by (rule mset_swap)

lemma par_less: "0 < k \<Longrightarrow> par k < k"
  by (simp add: par_def)

lemma par_eq_iff: "0 < k \<Longrightarrow> par k = i \<longleftrightarrow> k = 2 * i + 1 \<or> k = 2 * i + 2"
  by (auto simp: par_def)

lemma par_le: "par k \<le> k"
  by (simp add: par_def)

lemma par_0 [simp]: "par 0 = 0"
  by (simp add: par_def)

definition min_child :: "'a waitFor list \<Rightarrow> nat \<Rightarrow> nat \<Rightarrow> nat" where
  "min_child pq i n = (if 2 * i + 1 + 1 < n \<and> Less pq (2 * i + 1 + 1) (2 * i + 1) then 2 * i + 1 + 1 else 2 * i + 1)"

lemma heap_up_eq:
  "heap_up pq j = (if par j = j \<or> \<not> Less pq j (par j) then pq else heap_up (Swap pq (par j) j) (par j))"
  by (subst heap_up.simps) (simp add: par_def Let_def)

lemma heap_down_eq:
  "heap_down pq i n = (if 2 * i + 1 \<ge> n \<or> \<not> Less pq (min_child pq i n) i then (pq, i)
     else heap_down (Swap pq i (min_child pq i n)) (min_child pq i n) n)"
  by (subst heap_down.simps) (simp only: min_child_def Let_def if_bool_eq_disj, auto)

lemmas heap_up_induct = heap_up.induct [unfolded Let_def, folded par_def]
lemmas heap_down_induct = heap_down.induct [unfolded Let_def, folded min_child_def]

text \<open>Sifting up repairs an entry that may be earlier than its parent.\<close>

definition up_inv :: "'a waitFor list \<Rightarrow> nat \<Rightarrow> bool" where
  "up_inv pq j \<longleftrightarrow> j < length pq
     \<and> (\<forall>k. 0 < k \<and> k < length pq \<and> k \<noteq> j \<longrightarrow> rdy pq (par k) \<le> rdy pq k)
     \<and> (\<forall>k. 0 < k \<and> k < length pq \<and> par k = j \<and> 0 < j \<longrightarrow> rdy pq (par j) \<le> rdy pq k)"

lemma up_inv_step:
  assumes u: "up_inv pq j" and j: "0 < j" and l: "Less pq j (par j)"
  shows "up_inv (Swap pq (par j) j) (par j)"
proof -
  let ?i = "par j"
  have ij: "?i < j" "j < length pq" using par_less [OF j] u by (auto simp: up_inv_def)
  have s: "Swap pq ?i j ! k = (if k = ?i then pq ! j else if k = j then pq ! ?i else pq ! k)" for k
    using ij by (intro Swap_nth) auto
  have u1: "rdy pq (par k) \<le> rdy pq k" if "0 < k" "k < length pq" "k \<noteq> j" for k
    using u that by (simp add: up_inv_def)
  have u2: "rdy pq ?i \<le> rdy pq k" if "0 < k" "k < length pq" "par k = j" for k
    using u that j by (simp add: up_inv_def)
  have less: "rdy pq j < rdy pq ?i" using l by (simp add: Less_def)
  have "rdy (Swap pq ?i j) (par k) \<le> rdy (Swap pq ?i j) k" if "0 < k" "k < length pq" "k \<noteq> ?i" for k
  proof (cases "k = j")
    case True
    with less ij show ?thesis by (simp add: s)
  next
    case False
    with that u1 [of k] u2 [of k] less show ?thesis by (cases "par k = j"; cases "par k = ?i") (auto simp: s)
  qed
  moreover have "rdy (Swap pq ?i j) (par ?i) \<le> rdy (Swap pq ?i j) k"
    if "0 < k" "k < length pq" "par k = ?i" "0 < ?i" for k
  proof -
    have "par ?i < ?i" using par_less [OF that(4)] .
    moreover have "rdy pq (par ?i) \<le> rdy pq ?i" using u1 [of ?i] that(4) ij by simp
    moreover have "k \<noteq> ?i" using that(1,3) par_less [of k] by linarith
    ultimately show ?thesis using u1 [of k] that ij by (cases "k = j") (auto simp: s)
  qed
  ultimately show ?thesis using ij by (simp add: up_inv_def)
qed

lemma heap_up_mset: "j < length pq \<Longrightarrow> mset (heap_up pq j) = mset pq \<and> length (heap_up pq j) = length pq"
proof (induction pq j rule: heap_up_induct)
  case (1 pq j)
  with par_le [of j] show ?case
    by (subst (1 2) heap_up_eq) (auto simp: Swap_mset)
qed

lemma heap_up_ok: "up_inv pq j \<Longrightarrow> heap_ok (length pq) (heap_up pq j)"
proof (induction pq j rule: heap_up_induct)
  case (1 pq j)
  show ?case
  proof (cases "par j = j \<or> \<not> Less pq j (par j)")
    case True
    have "heap_ok (length pq) pq"
      unfolding heap_ok_def
    proof (intro allI impI)
      fix k assume k: "0 < k \<and> k < length pq"
      show "rdy pq (par k) \<le> rdy pq k"
      proof (cases "k = j")
        case True
        with k par_less [of j] \<open>par j = j \<or> \<not> Less pq j (par j)\<close> show ?thesis by (auto simp: Less_def)
      next
        case False
        with k "1.prems" show ?thesis by (simp add: up_inv_def)
      qed
    qed
    with True show ?thesis by (subst heap_up_eq) simp
  next
    case False
    then have "0 < j" by (cases j) auto
    with False "1.prems" have "up_inv (Swap pq (par j) j) (par j)" by (intro up_inv_step) auto
    with False "1.IH" show ?thesis by (subst heap_up_eq) simp
  qed
qed

text \<open>Sifting down repairs an entry that may be later than its children.\<close>

definition down_inv :: "'a waitFor list \<Rightarrow> nat \<Rightarrow> nat \<Rightarrow> bool" where
  "down_inv pq i n \<longleftrightarrow> n \<le> length pq
     \<and> (\<forall>k. 0 < k \<and> k < n \<and> par k \<noteq> i \<longrightarrow> rdy pq (par k) \<le> rdy pq k)
     \<and> (\<forall>k. 0 < k \<and> k < n \<and> par k = i \<and> 0 < i \<longrightarrow> rdy pq (par i) \<le> rdy pq k)"

lemma min_child_props:
  assumes "2 * i + 1 < n" "j = min_child pq i n"
  shows "par j = i" "0 < j" "i < j" "j < n"
    "\<And>k. 0 < k \<Longrightarrow> k < n \<Longrightarrow> par k = i \<Longrightarrow> rdy pq j \<le> rdy pq k"
proof -
  show "par j = i" "0 < j" "i < j" "j < n" using assms by (auto simp: min_child_def par_def split: if_splits)
  fix k :: nat assume "0 < k" "k < n" "par k = i"
  then have "k = 2 * i + 1 \<or> k = 2 * i + 2" using par_eq_iff by blast
  with \<open>k < n\<close> show "rdy pq j \<le> rdy pq k" using assms by (auto simp: min_child_def Less_def split: if_splits)
qed

lemma down_inv_step:
  assumes d: "down_inv pq i n" and c: "2 * i + 1 < n" and j: "j = min_child pq i n" and l: "Less pq j i"
  shows "down_inv (Swap pq i j) j n"
proof -
  note m = min_child_props [OF c j]
  have len: "i < length pq" "j < length pq" using m d by (auto simp: down_inv_def)
  have s: "Swap pq i j ! k = (if k = i then pq ! j else if k = j then pq ! i else pq ! k)" for k
    using len by (rule Swap_nth)
  have d1: "rdy pq (par k) \<le> rdy pq k" if "0 < k" "k < n" "par k \<noteq> i" for k
    using d that by (simp add: down_inv_def)
  have d2: "rdy pq (par i) \<le> rdy pq j" if "0 < i"
    using d that m by (simp add: down_inv_def)
  have less: "rdy pq j < rdy pq i" using l by (simp add: Less_def)
  have "rdy (Swap pq i j) (par k) \<le> rdy (Swap pq i j) k" if k: "0 < k" "k < n" "par k \<noteq> j" for k
  proof -
    consider "k = j" | "k = i" | "k \<noteq> j" "k \<noteq> i" "par k = i" | "k \<noteq> j" "k \<noteq> i" "par k \<noteq> i" by blast
    then show ?thesis
    proof cases
      case 1
      with m less show ?thesis by (simp add: s)
    next
      case 2
      with k d2 m par_less [of i] show ?thesis by (simp add: s)
    next
      case 3
      with m(5) [OF k(1,2)] show ?thesis by (simp add: s)
    next
      case 4
      with k d1 [of k] show ?thesis by (simp add: s)
    qed
  qed
  moreover have "rdy (Swap pq i j) (par j) \<le> rdy (Swap pq i j) k" if "0 < k" "k < n" "par k = j" for k
  proof -
    have "k \<noteq> i" "k \<noteq> j" using that m(3) par_less [of k] by auto
    with d1 [of k] that m(1,3) show ?thesis by (simp add: s)
  qed
  ultimately show ?thesis using d by (simp add: down_inv_def)
qed

lemma heap_down_mset:
  "n \<le> length pq \<Longrightarrow> mset (fst (heap_down pq i n)) = mset pq \<and> length (fst (heap_down pq i n)) = length pq
     \<and> (\<forall>k. n \<le> k \<longrightarrow> fst (heap_down pq i n) ! k = pq ! k)"
proof (induction pq i n rule: heap_down_induct)
  case (1 pq i n)
  show ?case
  proof (cases "2 * i + 1 \<ge> n \<or> \<not> Less pq (min_child pq i n) i")
    case True
    then show ?thesis by (subst (1 2 3) heap_down_eq) auto
  next
    case False
    let ?j = "min_child pq i n"
    have c: "2 * i + 1 < n" using False by simp
    have len: "i < length pq" "?j < length pq"
      using min_child_props(3,4) [OF c refl, where pq = pq] "1.prems" by auto
    have eq: "heap_down pq i n = heap_down (Swap pq i ?j) ?j n"
      using False by (subst heap_down_eq) simp
    have "mset (fst (heap_down (Swap pq i ?j) ?j n)) = mset (Swap pq i ?j)
       \<and> length (fst (heap_down (Swap pq i ?j) ?j n)) = length (Swap pq i ?j)
       \<and> (\<forall>k. n \<le> k \<longrightarrow> fst (heap_down (Swap pq i ?j) ?j n) ! k = Swap pq i ?j ! k)"
      by (rule "1.IH") (use False "1.prems" in \<open>auto simp: min_child_def\<close>)
    moreover have "Swap pq i ?j ! k = pq ! k" if "n \<le> k" for k
      using Swap_nth [OF len, of k] that min_child_props(3,4) [OF c refl, where pq = pq] by auto
    ultimately show ?thesis unfolding eq using Swap_mset [OF len] by simp
  qed
qed

lemma heap_down_ok: "down_inv pq i n \<Longrightarrow> heap_ok n (fst (heap_down pq i n))"
proof (induction pq i n rule: heap_down_induct)
  case (1 pq i n)
  show ?case
  proof (cases "2 * i + 1 \<ge> n \<or> \<not> Less pq (min_child pq i n) i")
    case True
    have "rdy pq (par k) \<le> rdy pq k" if k: "0 < k" "k < n" for k
    proof (cases "par k = i")
      case False
      with k "1.prems" show ?thesis by (simp add: down_inv_def)
    next
      case p: True
      then have c: "2 * i + 1 < n" using par_eq_iff [OF k(1), of i] k(2) by auto
      with True have "rdy pq i \<le> rdy pq (min_child pq i n)" by (auto simp: Less_def)
      with min_child_props(5) [OF c refl k p, where pq = pq] p show ?thesis by simp
    qed
    then have "heap_ok n pq" by (simp add: heap_ok_def)
    with True show ?thesis by (subst heap_down_eq) auto
  next
    case False
    let ?j = "min_child pq i n"
    have eq: "heap_down pq i n = heap_down (Swap pq i ?j) ?j n"
      using False by (subst heap_down_eq) simp
    have "down_inv (Swap pq i ?j) ?j n"
      using False "1.prems" by (intro down_inv_step) auto
    then show ?thesis unfolding eq
      by (intro "1.IH") (use False in \<open>auto simp: min_child_def\<close>)
  qed
qed

text \<open>The priority queue.\<close>

lemma heap_min:
  assumes "heap_ok n pq" "k < n"
  shows "rdy pq 0 \<le> rdy pq k"
  using assms(2)
proof (induction k rule: less_induct)
  case (less k)
  show ?case
  proof (cases "k = 0")
    case False
    with less par_less [of k] have "rdy pq 0 \<le> rdy pq (par k)" by simp
    also have "\<dots> \<le> rdy pq k" using assms(1) less.prems False by (simp add: heap_ok_def)
    finally show ?thesis .
  qed simp
qed

lemma heap_Push_ok:
  assumes "heap_ok (length pq) pq"
  shows "heap_ok (length (heap_Push pq x)) (heap_Push pq x) \<and> mset (heap_Push pq x) = add_mset x (mset pq)"
proof -
  have "up_inv (pq @ [x]) (length pq)"
    unfolding up_inv_def
  proof (intro conjI allI impI)
    fix k assume k: "0 < k \<and> k < length (pq @ [x]) \<and> k \<noteq> length pq"
    then have "par k < length pq" "k < length pq" using par_less [of k] by auto
    with k assms show "rdy (pq @ [x]) (par k) \<le> rdy (pq @ [x]) k"
      by (simp add: heap_ok_def nth_append)
  next
    fix k assume "0 < k \<and> k < length (pq @ [x]) \<and> par k = length pq \<and> 0 < length pq"
    with par_less [of k] show "rdy (pq @ [x]) (par (length pq)) \<le> rdy (pq @ [x]) k" by simp
  qed simp
  from heap_up_ok [OF this] heap_up_mset [of "length pq" "pq @ [x]"] show ?thesis
    by (simp add: heap_Push_def)
qed

lemma heap_ok_take: "heap_ok n d \<Longrightarrow> heap_ok n (take n d)"
  unfolding heap_ok_def
proof (intro allI impI)
  fix k assume h: "\<forall>k. 0 < k \<and> k < n \<longrightarrow> rdy d (par k) \<le> rdy d k" and k: "0 < k \<and> k < n"
  with par_less [of k] have "par k < n" by simp
  with h k show "rdy (take n d) (par k) \<le> rdy (take n d) k" by simp
qed

lemma snoc_take: "length d = Suc n \<Longrightarrow> d = take n d @ [d ! n]"
  using take_Suc_conv_app_nth [of n d] by simp

lemma heap_Pop_ok:
  assumes "heap_ok (length pq) pq" "pq \<noteq> []" "heap_Pop pq = (e, rest)"
  shows "e = pq ! 0" "heap_ok (length rest) rest" "mset pq = add_mset e (mset rest)"
    "\<And>e'. e' \<in> set pq \<Longrightarrow> readyAt e \<le> readyAt e'"
proof -
  let ?n = "length pq - Suc 0"
  let ?sw = "Swap pq 0 ?n"
  let ?d = "fst (heap_down ?sw 0 ?n)"
  have len: "0 < length pq" "?n < length pq" using assms(2) by auto
  have sw: "?sw ! k = (if k = 0 then pq ! ?n else if k = ?n then pq ! 0 else pq ! k)" for k
    using len by (intro Swap_nth) auto
  have "down_inv ?sw 0 ?n"
    unfolding down_inv_def
  proof (intro conjI allI impI)
    fix k assume k: "0 < k \<and> k < ?n \<and> par k \<noteq> 0"
    with par_less [of k] have "par k < ?n" "k < length pq" by auto
    with k assms(1) show "rdy ?sw (par k) \<le> rdy ?sw k" by (simp add: sw heap_ok_def)
  qed auto
  note ok = heap_down_ok [OF this]
  have d: "mset ?d = mset pq" "length ?d = length pq" "?d ! ?n = ?sw ! ?n"
    using heap_down_mset [of ?n ?sw 0] Swap_mset [OF len] by auto
  have er: "e = ?d ! ?n" "rest = take ?n ?d" using assms(3) by (simp_all add: heap_Pop_def Let_def)
  show e: "e = pq ! 0" using er(1) d(3) by (simp add: sw)
  have "length rest = ?n" using er(2) d(2) by simp
  with heap_ok_take [OF ok] er(2) show "heap_ok (length rest) rest" by simp
  have "?d = rest @ [e]"
    unfolding er by (rule snoc_take) (use d(2) len in simp)
  with d(1) show "mset pq = add_mset e (mset rest)" by simp
  show "readyAt e \<le> readyAt e'" if "e' \<in> set pq" for e'
    using that heap_min [OF assms(1)] by (auto simp: e in_set_conv_nth)
qed

text \<open>Only a decrease of the time of an entry is ever repaired; it never moves the entry down.\<close>

lemma heap_Fix_ok:
  assumes h: "heap_ok (length pq) pq" and i: "i < length pq" and e: "readyAt e \<le> rdy pq i"
  defines "pq' \<equiv> pq[i := e]"
  shows "heap_ok (length pq) (heap_Fix pq' i) \<and> mset (heap_Fix pq' i) = mset pq'"
proof -
  have n: "pq' ! k = (if k = i then e else pq ! k)" if "k < length pq" for k
    using that by (simp add: pq'_def nth_list_update)
  have hk: "rdy pq (par k) \<le> rdy pq k" if "0 < k" "k < length pq" for k
    using h that by (simp add: heap_ok_def)
  have len: "length pq' = length pq" by (simp add: pq'_def)
  have "heap_down pq' i (length pq') = (pq', i)"
  proof (cases "2 * i + 1 < length pq")
    case True
    note m = min_child_props(1-4) [OF True refl, where pq = pq']
    have "rdy pq' i \<le> rdy pq' (min_child pq' i (length pq))"
      using hk [OF m(2,4)] m(1,3,4) e n i by simp
    then show ?thesis using len by (subst heap_down_eq) (simp add: Less_def)
  qed (use len in \<open>simp add: heap_down_eq [of pq' i]\<close>)
  then have f: "heap_Fix pq' i = heap_up pq' i" by (simp add: heap_Fix_def)
  have "up_inv pq' i"
    unfolding up_inv_def len
  proof (intro conjI allI impI)
    fix k assume k: "0 < k \<and> k < length pq \<and> k \<noteq> i"
    with par_less [of k] have "par k < length pq" by simp
    with k hk [of k] e n show "rdy pq' (par k) \<le> rdy pq' k" by (cases "par k = i") auto
  next
    fix k assume k: "0 < k \<and> k < length pq \<and> par k = i \<and> 0 < i"
    then have "par i < i" "k \<noteq> i" using par_less [of i] par_less [of k] by auto
    with k hk [of k] hk [of i] n i show "rdy pq' (par i) \<le> rdy pq' k" by (simp add: less_imp_neq)
  qed (rule i)
  from heap_up_ok [OF this] heap_up_mset [of i pq'] i f show ?thesis by (simp add: len)
qed

section \<open>The delaying queue\<close>

definition dq_inv :: "'a delayingType \<Rightarrow> bool" where
  "dq_inv q \<longleftrightarrow> q_inv (dq_queue q) \<and> heap_ok (length (waitingForQueue q)) (waitingForQueue q)
     \<and> distinct (map wf_data (waitingForQueue q))
     \<and> set (map wf_data (waitingForQueue q)) = waitingEntryByData q"

lemma dq_inv_new: "dq_inv (newDelayingQueue l)"
  by (simp add: dq_inv_def newDelayingQueue_def q_inv_new heap_ok_def)

lemma entry_index_nth:
  "d \<in> wf_data ` set pq \<Longrightarrow> entry_index pq d < length pq \<and> wf_data (pq ! entry_index pq d) = d"
  by (induction pq d rule: entry_index.induct) auto

lemma mset_data:
  "mset pq' = mset pq \<Longrightarrow> distinct (map wf_data pq') = distinct (map wf_data pq)
     \<and> wf_data ` set pq' = wf_data ` set pq"
proof -
  assume m: "mset pq' = mset pq"
  then have "mset (map wf_data pq') = mset (map wf_data pq)" by simp
  from mset_eq_imp_distinct_iff [OF this] mset_eq_setD [OF m] show ?thesis by simp
qed

lemma insert_entry_inv:
  assumes "heap_ok (length pq) pq" "distinct (map wf_data pq)" "wf_data ` set pq = known"
    "insert_entry pq known e = (pq', known')"
  shows "heap_ok (length pq') pq'" "distinct (map wf_data pq')" "wf_data ` set pq' = known'"
    "known' = insert (wf_data e) known"
proof -
  consider (sooner) "wf_data e \<in> known" "readyAt (pq ! entry_index pq (wf_data e)) > readyAt e"
    | (later) "wf_data e \<in> known" "\<not> readyAt (pq ! entry_index pq (wf_data e)) > readyAt e"
    | (fresh) "wf_data e \<notin> known" by blast
  then have "heap_ok (length pq') pq' \<and> distinct (map wf_data pq') \<and> wf_data ` set pq' = known'
    \<and> known' = insert (wf_data e) known"
  proof cases
    case sooner
    let ?i = "entry_index pq (wf_data e)"
    let ?e = "(pq ! ?i)\<lparr>readyAt := readyAt e\<rparr>"
    have i: "?i < length pq" using entry_index_nth [of "wf_data e" pq] sooner(1) assms(3) by simp
    have "map wf_data (pq[?i := ?e]) = (map wf_data pq)[?i := wf_data ?e]" by (rule map_update)
    also have "\<dots> = map wf_data pq" using i by (simp add: list_update_same_conv)
    finally have same: "map wf_data (pq[?i := ?e]) = map wf_data pq" .
    then have "wf_data ` set (pq[?i := ?e]) = wf_data ` set pq" by (metis set_map)
    moreover have "pq' = heap_Fix (pq[?i := ?e]) ?i" "known' = known"
      using assms(4) sooner by (simp_all add: insert_entry_def Let_def)
    ultimately show ?thesis
      using heap_Fix_ok [OF assms(1) i, of ?e] mset_data [of pq' "pq[?i := ?e]"] sooner same assms(2,3)
      by (auto dest: mset_eq_length)
  next
    case fresh
    then have "pq' = heap_Push pq e" "known' = insert (wf_data e) known"
      using assms(4) by (simp_all add: insert_entry_def)
    then show ?thesis
      using heap_Push_ok [OF assms(1), of e] mset_data [of pq' "e # pq"] fresh assms(2,3) by auto
  qed (use assms in \<open>auto simp: insert_entry_def Let_def\<close>)
  then show "heap_ok (length pq') pq'" "distinct (map wf_data pq')" "wf_data ` set pq' = known'"
    "known' = insert (wf_data e) known" by blast+
qed

lemma pop_inv:
  assumes "dq_inv q" "waitingForQueue q \<noteq> []" "heap_Pop (waitingForQueue q) = (e, rest)"
  shows "dq_inv (q\<lparr>waitingForQueue := rest, dq_queue := Add (wf_data e) (dq_queue q),
    waitingEntryByData := waitingEntryByData q - {wf_data e}\<rparr>)"
proof -
  let ?w = "waitingForQueue q"
  have w: "heap_ok (length ?w) ?w" "distinct (map wf_data ?w)" "wf_data ` set ?w = waitingEntryByData q"
    "q_inv (dq_queue q)" using assms(1) by (simp_all add: dq_inv_def)
  note p = heap_Pop_ok [OF w(1) assms(2,3)]
  have m: "mset (e # rest) = mset ?w" using p(3) by simp
  from mset_data [OF m] w(2,3) have "distinct (map wf_data (e # rest))" "wf_data ` set (e # rest) = waitingEntryByData q"
    by simp_all
  then have "distinct (map wf_data rest)" "wf_data e \<notin> wf_data ` set rest"
    "insert (wf_data e) (wf_data ` set rest) = waitingEntryByData q" by simp_all
  then have "distinct (map wf_data rest)" "wf_data ` set rest = waitingEntryByData q - {wf_data e}"
    by blast+
  with p(2) wq.inv_add [OF w(4)] show ?thesis by (simp add: dq_inv_def)
qed

lemma Add_open: "\<not> shuttingDown q \<Longrightarrow> \<not> shuttingDown (Add x q)"
  by (simp add: Add_def Let_def)

text \<open>
  Adding what is ready moves exactly the entries whose time has come from the heap to the
  queue.
\<close>

lemma add_ready_loop_spec:
  assumes "dq_inv q" "\<not> shuttingDown (dq_queue q)" "n = length (waitingForQueue q)"
  shows "dq_inv (add_ready_loop n now q)
    \<and> set (waitingForQueue (add_ready_loop n now q)) = {e \<in> set (waitingForQueue q). now < readyAt e}
    \<and> dirty (dq_queue (add_ready_loop n now q)) =
        dirty (dq_queue q) \<union> wf_data ` {e \<in> set (waitingForQueue q). readyAt e \<le> now}"
  using assms
proof (induction n arbitrary: q)
  case (Suc n)
  let ?w = "waitingForQueue q"
  have ne: "?w \<noteq> []" using Suc.prems(3) by auto
  have h: "heap_ok (length ?w) ?w" using Suc.prems(1) by (simp add: dq_inv_def)
  show ?case
  proof (cases "readyAt (?w ! 0) > now")
    case True
    then have "\<forall>e \<in> set ?w. now < readyAt e"
      using heap_min [OF h] by (fastforce simp: in_set_conv_nth)
    with True Suc.prems(1) show ?thesis by force
  next
    case False
    obtain e rest where pop: "heap_Pop ?w = (e, rest)" by fastforce
    note p = heap_Pop_ok [OF h ne pop]
    let ?q = "q\<lparr>waitingForQueue := rest, dq_queue := Add (wf_data e) (dq_queue q),
        waitingEntryByData := waitingEntryByData q - {wf_data e}\<rparr>"
    have sets: "set ?w = insert e (set rest)" using p(3) by (metis set_mset_mset set_mset_add_mset_insert)
    have n: "n = length rest" using p(3) Suc.prems(3) by (metis Suc_inject size_add_mset size_mset)
    have ready: "readyAt e \<le> now" using False p(1) by simp
    have step: "add_ready_loop (Suc n) now q = add_ready_loop n now ?q"
      using False pop by simp
    have "\<not> shuttingDown (dq_queue ?q)" using Suc.prems(2) by (simp add: Add_open)
    from Suc.IH [OF pop_inv [OF Suc.prems(1) ne pop] this] n sets ready Suc.prems(2) show ?thesis
      unfolding step by (auto simp: wq.wanted_add)
  qed
qed simp

lemma add_ready_inv: "dq_inv q \<Longrightarrow> dq_inv (add_ready now q)"
  using add_ready_loop_spec [of q "length (waitingForQueue q)" now]
  by (simp add: add_ready_def ShuttingDown_def)

lemma receive_inv: "dq_inv q \<Longrightarrow> dq_inv (receive now q)"
proof -
  assume q: "dq_inv q"
  have "dq_inv (receive_entry now e (q\<lparr>waitingForAddCh := es\<rparr>))" for e es
  proof (cases "readyAt e > now")
    case True
    obtain pq known where i: "insert_entry (waitingForQueue q) (waitingEntryByData q) e = (pq, known)" by fastforce
    from insert_entry_inv [OF _ _ _ i] q True i show ?thesis
      by (simp add: receive_entry_def dq_inv_def)
  qed (use q in \<open>simp add: receive_entry_def dq_inv_def wq.inv_add\<close>)
  with q show ?thesis by (simp add: receive_def split: list.split)
qed

lemma AddAfter_inv: "dq_inv q \<Longrightarrow> AddAfter stop now x d q = Some q' \<Longrightarrow> dq_inv q'"
  by (auto simp: AddAfter_def dq_inv_def wq.inv_add split: if_splits)

lemma AddRateLimited_inv:
  assumes "dq_inv q" "AddRateLimited stop now b x q = Some q'"
  shows "dq_inv q'"
proof -
  obtain d l where "max_When b x (dq_limiter q) = (d, l)" by fastforce
  with assms AddAfter_inv [of "q\<lparr>dq_limiter := l\<rparr>" stop now x d q'] show ?thesis
    by (simp add: AddRateLimited_def dq_inv_def)
qed

lemma Forget_inv: "dq_inv q \<Longrightarrow> dq_inv (Forget x q)"
  by (simp add: Forget_def dq_inv_def)

lemma dq_ShutDown_inv: "dq_inv q \<Longrightarrow> dq_ShutDown q = Ok q' \<Longrightarrow> dq_inv q'"
  by (auto simp: dq_ShutDown_def dq_inv_def q_inv_ShutDown split: if_splits)

text \<open>
  An item is pending when it is wanted by the queue, on its way to the waiting loop, or in
  the heap. Nothing but a \<^verbatim>\<open>Get\<close> takes an item out of the pending ones.
\<close>

definition pending :: "'a delayingType \<Rightarrow> 'a set" where
  "pending q = dirty (dq_queue q) \<union> wf_data ` set (waitingForAddCh q) \<union> wf_data ` set (waitingForQueue q)"

lemma AddRateLimited_pending:
  assumes "AddRateLimited stop now b x q = Some q'" "\<not> shuttingDown (dq_queue q)" "\<not> stopCh_closed q"
  shows "pending q' = insert x (pending q)" "failures (dq_limiter q') = (failures (dq_limiter q))(x := Suc (failures (dq_limiter q) x))"
  using assms
  by (auto simp: AddRateLimited_def AddAfter_def pending_def ShuttingDown_def max_When_def exp_When_def Let_def
      wq.wanted_add split: prod.splits if_splits)

lemma add_ready_pending:
  assumes "dq_inv q" "\<not> shuttingDown (dq_queue q)"
  shows "pending (add_ready now q) = pending q"
proof -
  have ch: "waitingForAddCh (add_ready_loop n now q) = waitingForAddCh q" for n
    by (induction n now q rule: add_ready_loop.induct) (auto simp: Let_def split: prod.splits)
  have "{e \<in> set (waitingForQueue q). readyAt e \<le> now} \<union> {e \<in> set (waitingForQueue q). now < readyAt e}
      = set (waitingForQueue q)" by auto
  then have "wf_data ` {e \<in> set (waitingForQueue q). readyAt e \<le> now}
      \<union> wf_data ` {e \<in> set (waitingForQueue q). now < readyAt e} = wf_data ` set (waitingForQueue q)"
    by (metis image_Un)
  with add_ready_loop_spec [OF assms refl, of now] assms(2) show ?thesis
    by (auto simp: pending_def add_ready_def ShuttingDown_def ch)
qed

lemma receive_pending:
  assumes "dq_inv q" "\<not> shuttingDown (dq_queue q)"
  shows "pending (receive now q) = pending q"
proof (cases "waitingForAddCh q")
  case (Cons e es)
  show ?thesis
  proof (cases "readyAt e > now")
    case True
    obtain pq known where i: "insert_entry (waitingForQueue q) (waitingEntryByData q) e = (pq, known)" by fastforce
    from insert_entry_inv [OF _ _ _ i] assms(1) have "wf_data ` set pq = insert (wf_data e) (wf_data ` set (waitingForQueue q))"
      by (simp add: dq_inv_def)
    with True i Cons show ?thesis by (auto simp: receive_def receive_entry_def pending_def)
  next
    case False
    with Cons assms(2) show ?thesis by (auto simp: receive_def receive_entry_def pending_def wq.wanted_add)
  qed
qed (simp add: receive_def)

section \<open>Properties\<close>

text \<open>
  Adding what is ready moves exactly the entries whose time has come: afterwards the heap
  holds the entries with a later time, and the queue wants what it wanted before and the data
  of the others; no item is added early and none is lost.
\<close>

theorem add_ready_exact:
  assumes "dq_inv q" "\<not> shuttingDown (dq_queue q)"
  shows "dq_inv (add_ready now q)
    \<and> set (waitingForQueue (add_ready now q)) = {e \<in> set (waitingForQueue q). now < readyAt e}
    \<and> dirty (dq_queue (add_ready now q)) =
        dirty (dq_queue q) \<union> wf_data ` {e \<in> set (waitingForQueue q). readyAt e \<le> now}"
  using add_ready_loop_spec [OF assms refl, of now] assms(2) by (simp add: add_ready_def ShuttingDown_def)

definition waiting_queue :: "string delayingType" where
  "waiting_queue = (newDelayingQueue DefaultControllerRateLimiter)
     \<lparr>waitingForQueue := [\<lparr>wf_data = ''a'', readyAt = 5\<rparr>, \<lparr>wf_data = ''b'', readyAt = 9\<rparr>],
      waitingEntryByData := {''a'', ''b''}\<rparr>"

theorem add_ready_exact_witness:
  "dirty (dq_queue (add_ready 7 waiting_queue)) = {''a''}"
proof -
  have "dq_inv waiting_queue"
    by (auto simp: dq_inv_def waiting_queue_def newDelayingQueue_def q_inv_new heap_ok_def par_def less_Suc_eq)
  moreover have "\<not> shuttingDown (dq_queue waiting_queue)" "dirty (dq_queue waiting_queue) = {}"
    by (simp_all add: waiting_queue_def newDelayingQueue_def newQueue_def)
  moreover have "{e \<in> set (waitingForQueue waiting_queue). readyAt e \<le> 7} = {\<lparr>wf_data = ''a'', readyAt = 5\<rparr>}"
    by (auto simp: waiting_queue_def)
  ultimately show ?thesis using add_ready_exact [of waiting_queue 7] by simp
qed

text \<open>
  The priority queue of delayed items: popping a heap returns an entry of least time and
  leaves a heap of the others, pushing adds the entry to a heap.
\<close>

theorem wait_heap_correct:
  assumes "heap_ok (length pq) pq"
  shows "heap_ok (length (heap_Push pq x)) (heap_Push pq x) \<and> mset (heap_Push pq x) = mset pq + {#x#}
    \<and> (pq \<noteq> [] \<longrightarrow> heap_ok (length (snd (heap_Pop pq))) (snd (heap_Pop pq))
        \<and> mset pq = mset (snd (heap_Pop pq)) + {#fst (heap_Pop pq)#}
        \<and> (\<forall>e \<in> set pq. readyAt (fst (heap_Pop pq)) \<le> readyAt e))"
proof -
  obtain e rest where p: "heap_Pop pq = (e, rest)" by fastforce
  from heap_Pop_ok [OF assms _ p] heap_Push_ok [OF assms, of x] p show ?thesis by auto
qed

theorem wait_heap_correct_witness:
  "mset (heap_Push [\<lparr>wf_data = ''a'', readyAt = 5\<rparr>] \<lparr>wf_data = ''b'', readyAt = 3\<rparr>)
   = {#\<lparr>wf_data = ''a'', readyAt = 5\<rparr>, \<lparr>wf_data = ''b'', readyAt = 3\<rparr>#}"
  using wait_heap_correct [of "[\<lparr>wf_data = ''a'', readyAt = 5\<rparr>]" "\<lparr>wf_data = ''b'', readyAt = 3\<rparr>"]
  by (simp add: heap_ok_def)

lemma AddRateLimited_waits:
  "AddRateLimited stop now b x q = None \<Longrightarrow> length (waitingForAddCh q) \<ge> 1000"
  by (auto simp: AddRateLimited_def AddAfter_def split: prod.splits if_splits)

text \<open>An item is due by \<open>t\<close> when the queue wants it or an entry of it is ready by then.\<close>

definition due :: "int \<Rightarrow> 'a \<Rightarrow> 'a delayingType \<Rightarrow> bool" where
  "due t x q \<longleftrightarrow> x \<in> dirty (dq_queue q)
     \<or> (\<exists>e \<in> set (waitingForAddCh q) \<union> set (waitingForQueue q). wf_data e = x \<and> readyAt e \<le> t)"

text \<open>Inserting an entry never delays what the heap has.\<close>

lemma insert_entry_sooner:
  assumes "heap_ok (length pq) pq" "wf_data ` set pq = known" "insert_entry pq known e = (pq', known')"
    "y \<in> insert e (set pq)"
  shows "\<exists>y' \<in> set pq'. wf_data y' = wf_data y \<and> readyAt y' \<le> readyAt y"
proof (cases "wf_data e \<in> known")
  case False
  then have "mset pq' = add_mset e (mset pq)"
    using assms(1,3) heap_Push_ok [OF assms(1), of e] by (simp add: insert_entry_def)
  then have "set pq' = insert e (set pq)" by (metis set_mset_mset set_mset_add_mset_insert)
  with assms(4) show ?thesis by blast
next
  case True
  let ?i = "entry_index pq (wf_data e)"
  let ?e = "(pq ! ?i)\<lparr>readyAt := readyAt e\<rparr>"
  have i: "?i < length pq" "wf_data (pq ! ?i) = wf_data e"
    using entry_index_nth [of "wf_data e" pq] True assms(2) by simp_all
  show ?thesis
  proof (cases "readyAt (pq ! ?i) > readyAt e")
    case late: True
    then have "mset pq' = mset (pq[?i := ?e])"
      using heap_Fix_ok [OF assms(1) i(1), of ?e] True assms(3) by (auto simp: insert_entry_def Let_def)
    then have "set pq' = set (pq[?i := ?e])" by (rule mset_eq_setD)
    moreover have "pq[?i := ?e] ! k \<in> set (pq[?i := ?e])" if "k < length pq" for k using that by simp
    ultimately have upd: "(if k = ?i then ?e else pq ! k) \<in> set pq'" if "k < length pq" for k
      using that by (metis nth_list_update_eq nth_list_update_neq)
    show ?thesis
    proof (cases "y = e")
      case True
      with upd [OF i(1)] i(2) show ?thesis by (intro bexI [of _ ?e]) simp_all
    next
      case False
      with assms(4) obtain k where "k < length pq" "y = pq ! k" by (auto simp: in_set_conv_nth)
      then show ?thesis
        using upd [of k] late by (intro bexI [of _ "if k = ?i then ?e else pq ! k"]) (auto split: if_split)
    qed
  next
    case False
    with True assms(3,4) i show ?thesis by (auto simp: insert_entry_def Let_def)
  qed
qed

lemma receive_due:
  assumes "dq_inv q" "\<not> shuttingDown (dq_queue q)" "due t x q"
  shows "due t x (receive now q)"
proof (cases "waitingForAddCh q")
  case (Cons e es)
  show ?thesis
  proof (cases "readyAt e > now")
    case True
    obtain pq known where i: "insert_entry (waitingForQueue q) (waitingEntryByData q) e = (pq, known)" by fastforce
    have "\<exists>y' \<in> set pq. wf_data y' = wf_data y \<and> readyAt y' \<le> t"
      if "y \<in> insert e (set (waitingForQueue q))" "readyAt y \<le> t" for y
      using insert_entry_sooner [OF _ _ i that(1)] assms(1) that(2) by (force simp: dq_inv_def)
    with True i Cons assms(3) show ?thesis
      unfolding due_def by (simp add: receive_def receive_entry_def) blast
  next
    case False
    with Cons assms(2,3) show ?thesis by (auto simp: receive_def receive_entry_def due_def wq.wanted_add)
  qed
qed (use assms(3) in \<open>simp add: receive_def\<close>)

lemma receive_frame:
  "shuttingDown (dq_queue (receive now q)) = shuttingDown (dq_queue q)"
  "waitingForAddCh (receive now q) = tl (waitingForAddCh q)"
  by (auto simp: receive_def receive_entry_def Add_def Let_def split: list.split prod.split)

lemma receives_due:
  assumes "dq_inv q" "\<not> shuttingDown (dq_queue q)" "due t x q"
  shows "dq_inv ((receive now ^^ n) q) \<and> \<not> shuttingDown (dq_queue ((receive now ^^ n) q)) \<and> due t x ((receive now ^^ n) q)
    \<and> waitingForAddCh ((receive now ^^ n) q) = drop n (waitingForAddCh q)"
  using assms by (induction n) (auto simp: receive_inv receive_due receive_frame drop_Suc tl_drop)

text \<open>
  C32: a key put back with a delay arrives: once the waiting loop has received what is in its
  channel, and adds what is ready at a time not before the delay has passed, the queue wants
  the key, whatever else is waiting.
\<close>

theorem rate_limited_item_arrives:
  assumes "dq_inv q" "\<not> shuttingDown (dq_queue q)" "\<not> stopCh_closed q"
    "AddRateLimited stop now b x q = Some q'" "now + fst (max_When b x (dq_limiter q)) \<le> t"
  shows "x \<in> dirty (dq_queue (add_ready t ((receive now' ^^ length (waitingForAddCh q')) q')))"
proof -
  obtain d l where w: "max_When b x (dq_limiter q) = (d, l)" by fastforce
  have open': "\<not> shuttingDown (dq_queue q')" "due t x q'"
    using assms(2-5) w by (auto simp: AddRateLimited_def AddAfter_def due_def ShuttingDown_def wq.wanted_add Add_open split: if_splits)
  let ?q = "(receive now' ^^ length (waitingForAddCh q')) q'"
  have r: "dq_inv ?q" "\<not> shuttingDown (dq_queue ?q)" "due t x ?q" "waitingForAddCh ?q = []"
    using receives_due [OF AddRateLimited_inv [OF assms(1,4)] open'(1,2), where now = now' and n = "length (waitingForAddCh q')"] by simp_all
  from r(3,4) have "x \<in> dirty (dq_queue ?q) \<or> x \<in> wf_data ` {e \<in> set (waitingForQueue ?q). readyAt e \<le> t}"
    by (auto simp: due_def)
  with add_ready_loop_spec [OF r(1,2) refl, of t] r(2) show ?thesis by (auto simp: add_ready_def ShuttingDown_def)
qed

theorem rate_limited_item_arrives_witness:
  "\<exists>q'. AddRateLimited False 0 0 ''k'' (newDelayingQueue DefaultControllerRateLimiter) = Some q'
     \<and> ''k'' \<in> dirty (dq_queue (add_ready 5000000 ((receive 1 ^^ length (waitingForAddCh q')) q')))"
proof -
  let ?q = "newDelayingQueue DefaultControllerRateLimiter :: string delayingType"
  have w: "fst (max_When 0 ''k'' (dq_limiter ?q)) = 5000000"
    by (simp add: max_When_def exp_When_def newDelayingQueue_def DefaultControllerRateLimiter_def
        NewItemExponentialFailureRateLimiter_def Let_def)
  have o: "\<not> shuttingDown (dq_queue ?q)" "\<not> stopCh_closed ?q" "length (waitingForAddCh ?q) = 0"
    by (simp_all add: newDelayingQueue_def newQueue_def)
  then obtain q' where q': "AddRateLimited False 0 0 ''k'' ?q = Some q'"
    using AddRateLimited_waits [of False 0 0 "''k''" ?q] by fastforce
  with rate_limited_item_arrives [OF dq_inv_new o(1,2) q', where t = 5000000 and now' = 1] w show ?thesis by simp
qed

end
