(* ===== verification/Avi_Controller.thy ===== *)
theory Avi_Controller
  imports K8s_Svc Delaying_Queue
begin

text \<open>
  \<^verbatim>\<open>controller.go\<close>: the controller that receives the events of the informers, queues the keys of
  the objects concerned on one of \<^verbatim>\<open>num_workers\<close> work queues, and runs as many workers, each of
  which takes a number from a bit mask and serves the queue of that number.

  A record \<open>QEnv\<close> holds what a call on a queue reads from its surroundings: the time, the delay
  the token bucket reserves, and the choice of the \<^verbatim>\<open>select\<close> in \<^verbatim>\<open>AddAfter\<close>. A result \<open>Ok None\<close> is
  a call that waits on the full channel of a queue. The event recorder, which the code sets up
  and never uses, is left out.
\<close>

record 'w AviController =
  num_workers :: uint32
  worker_id :: uint32
  workqueue :: "iface delayingType list"
  k8s :: "'w K8sState"

record QEnv =
  qe_now :: int
  qe_bucket :: int
  qe_stop :: bool

definition ObjKey :: "k8s_obj \<Rightarrow> string" where
  "ObjKey obj = fst (DeletionHandlingMetaNamespaceKeyFunc obj)"

definition Bkt :: "string \<Rightarrow> uint32 \<Rightarrow> uint32" where
  "Bkt key num = fnv32a key AND (num - 1)"

definition NewAviController :: "uint32 \<Rightarrow> 'w K8sState \<Rightarrow> 'w AviController" where
  "NewAviController num st =
     \<lparr>num_workers = num, worker_id = push_bit (unat num) 1 - 1,
      workqueue = replicate (unat num) (newDelayingQueue DefaultControllerRateLimiter), k8s = st\<rparr>"

section \<open>The event handlers\<close>

definition enqueue :: "QEnv \<Rightarrow> string \<Rightarrow> 'w AviController \<Rightarrow> 'w AviController option go" where
  "enqueue qe key c =
     (let bkt = Bkt key (num_workers c)
      in go_bind (go_index (workqueue c) (unat bkt)) (\<lambda>q.
           case AddRateLimited (qe_stop qe) (qe_now qe) (qe_bucket qe) (IStr key) q of
             None \<Rightarrow> Ok None
           | Some q' \<Rightarrow> Ok (Some (c\<lparr>workqueue := (workqueue c)[unat bkt := q']\<rparr>))))"

definition obj_key :: "string \<Rightarrow> k8s_obj \<Rightarrow> string go" where
  "obj_key obj_type obj =
     go_bind (CrudHashKey obj_type obj) (\<lambda>h. Ok (obj_type @ ''/'' @ h @ ''/'' @ ObjKey obj))"

definition is_ep :: "k8s_obj \<Rightarrow> bool" where
  "is_ep obj = (case obj of KEndpoints _ \<Rightarrow> True | _ \<Rightarrow> False)"

definition is_svc :: "k8s_obj \<Rightarrow> bool" where
  "is_svc obj = (case obj of KService _ \<Rightarrow> True | _ \<Rightarrow> False)"

definition is_ing :: "k8s_obj \<Rightarrow> bool" where
  "is_ing obj = (case obj of KIngress _ \<Rightarrow> True | _ \<Rightarrow> False)"

text \<open>The three \<^verbatim>\<open>AddFunc\<close> closures and the bodies the \<^verbatim>\<open>UpdateFunc\<close> closures share with them.\<close>

definition on_add ::
  "string \<Rightarrow> (k8s_obj \<Rightarrow> bool) \<Rightarrow> QEnv \<Rightarrow> k8s_obj \<Rightarrow> 'w AviController \<Rightarrow> 'w AviController option go" where
  "on_add obj_type is_kind qe obj c =
     (if \<not> is_kind obj then Panic TypeAssertionFailed
      else go_bind (obj_key obj_type obj) (\<lambda>key. enqueue qe key c))"

text \<open>
  The \<^verbatim>\<open>DeleteFunc\<close> closures look for the object in a tombstone and then assert the type of the
  event's own object again.
\<close>

definition tombstone_of :: "(k8s_obj \<Rightarrow> bool) \<Rightarrow> k8s_obj \<Rightarrow> bool" where
  "tombstone_of is_kind obj = (case obj of DeletedFinalStateUnknown key o' \<Rightarrow> is_kind o' | _ \<Rightarrow> False)"

definition on_delete ::
  "string \<Rightarrow> (k8s_obj \<Rightarrow> bool) \<Rightarrow> QEnv \<Rightarrow> k8s_obj \<Rightarrow> 'w AviController \<Rightarrow> 'w AviController option go" where
  "on_delete obj_type is_kind qe obj c =
     (if \<not> is_kind obj \<and> \<not> tombstone_of is_kind obj then Ok (Some c)
      else if \<not> is_kind obj then Panic TypeAssertionFailed
      else go_bind (obj_key obj_type obj) (\<lambda>key. enqueue qe key c))"

definition ep_AddFunc :: "QEnv \<Rightarrow> k8s_obj \<Rightarrow> 'w AviController \<Rightarrow> 'w AviController option go" where
  "ep_AddFunc = on_add ''Endpoints'' is_ep"

definition ep_DeleteFunc :: "QEnv \<Rightarrow> k8s_obj \<Rightarrow> 'w AviController \<Rightarrow> 'w AviController option go" where
  "ep_DeleteFunc = on_delete ''Endpoints'' is_ep"

text \<open>\<^verbatim>\<open>reflect.DeepEqual\<close> on subsets is equality, the lists of the model having no \<^verbatim>\<open>nil\<close>.\<close>

definition ep_UpdateFunc ::
  "QEnv \<Rightarrow> k8s_obj \<Rightarrow> k8s_obj \<Rightarrow> 'w AviController \<Rightarrow> 'w AviController option go" where
  "ep_UpdateFunc qe old cur c =
     (case (old, cur) of
        (KEndpoints oep, KEndpoints cep) \<Rightarrow>
          if ep_Subsets cep \<noteq> ep_Subsets oep
          then go_bind (obj_key ''Endpoints'' cur) (\<lambda>key. enqueue qe key c)
          else Ok (Some c)
      | _ \<Rightarrow> Panic TypeAssertionFailed)"

definition svc_AddFunc :: "QEnv \<Rightarrow> k8s_obj \<Rightarrow> 'w AviController \<Rightarrow> 'w AviController option go" where
  "svc_AddFunc = on_add ''Service'' is_svc"

definition svc_DeleteFunc :: "QEnv \<Rightarrow> k8s_obj \<Rightarrow> 'w AviController \<Rightarrow> 'w AviController option go" where
  "svc_DeleteFunc = on_delete ''Service'' is_svc"

definition svc_UpdateFunc ::
  "QEnv \<Rightarrow> k8s_obj \<Rightarrow> k8s_obj \<Rightarrow> 'w AviController \<Rightarrow> 'w AviController option go" where
  "svc_UpdateFunc qe old cur = on_add ''Service'' is_svc qe cur"

definition ing_AddFunc :: "QEnv \<Rightarrow> k8s_obj \<Rightarrow> 'w AviController \<Rightarrow> 'w AviController option go" where
  "ing_AddFunc = on_add ''Ingress'' is_ing"

definition ing_DeleteFunc :: "QEnv \<Rightarrow> k8s_obj \<Rightarrow> 'w AviController \<Rightarrow> 'w AviController option go" where
  "ing_DeleteFunc = on_delete ''Ingress'' is_ing"

definition ing_UpdateFunc ::
  "QEnv \<Rightarrow> k8s_obj \<Rightarrow> k8s_obj \<Rightarrow> 'w AviController \<Rightarrow> 'w AviController option go" where
  "ing_UpdateFunc qe old cur = on_add ''Ingress'' is_ing qe cur"

section \<open>syncHandler\<close>

text \<open>
  \<open>infs\<close> is what the informer stores hold when the object is looked up; the handler called next
  reads them later, through \<open>env\<close>.
\<close>

definition lookup_obj ::
  "Informers \<Rightarrow> string \<Rightarrow> string \<Rightarrow> string \<Rightarrow> (go_error + k8s_obj) option" where
  "lookup_obj infs obj_type ns name =
     (if obj_type = ''Service'' then
        Some (map_sum id KService (lister_Get ''service'' (ServiceInformer infs) ns name))
      else if obj_type = ''Endpoints'' then
        Some (map_sum id KEndpoints (lister_Get ''endpoints'' (EpInformer infs) ns name))
      else if obj_type = ''Ingress'' then
        Some (map_sum id KIngress (lister_Get ''ingress.extensions'' (IngInformer infs) ns name))
      else None)"

definition handle_update ::
  "'w Env \<Rightarrow> string \<Rightarrow> string \<Rightarrow> uint32 \<Rightarrow> k8s_obj \<Rightarrow> 'w K8sState \<Rightarrow> (go_error option \<times> 'w K8sState) go" where
  "handle_update env obj_type hash wid obj st =
     (if obj_type = ''Endpoints'' then
        (case obj of
           KEndpoints ep \<Rightarrow>
             go_bind (K8sEp_K8sObjCrUpd env wid ep '''' hash st) (\<lambda>(ops, err, st'). Ok (err, st'))
         | _ \<Rightarrow> Panic TypeAssertionFailed)
      else if obj_type = ''Service'' then
        (case obj of
           KService svc \<Rightarrow>
             go_bind (K8sSvc_K8sObjCrUpd env wid svc st) (\<lambda>(ops, err, st'). Ok (err, st'))
         | _ \<Rightarrow> Panic TypeAssertionFailed)
      else Ok (None, st))"

definition handle_delete ::
  "'w Env \<Rightarrow> string \<Rightarrow> string \<Rightarrow> uint32 \<Rightarrow> go_error \<Rightarrow> 'w K8sState \<Rightarrow> (go_error option \<times> 'w K8sState) go" where
  "handle_delete env obj_type key wid err st =
     (if obj_type = ''Endpoints'' then
        go_bind (K8sEp_K8sObjDelete wid key st) (\<lambda>(ops, err, st'). Ok (err, st'))
      else if obj_type = ''Service'' then
        go_bind (K8sSvc_K8sObjDelete env wid key st) (\<lambda>(ops, err, st'). Ok (err, st'))
      else Ok (Some err, st))"

definition syncHandler ::
  "Informers \<Rightarrow> 'w Env \<Rightarrow> string \<Rightarrow> uint32 \<Rightarrow> 'w K8sState \<Rightarrow> (go_error option \<times> 'w K8sState) go" where
  "syncHandler infs env key wid st =
     (case SplitN 3 ''/'' key of
        [obj_type, hash, nskey] \<Rightarrow>
          (case SplitMetaNamespaceKey nskey of
             Inl err \<Rightarrow> Ok (None, st)
           | Inr (namespace, name) \<Rightarrow>
               (case lookup_obj infs obj_type namespace name of
                  None \<Rightarrow> Ok (Some (ErrorString ''Unable to handle unknown obj type''), st)
                | Some (Inl err) \<Rightarrow>
                    if IsNotFound err then handle_delete env obj_type key wid err st
                    else Ok (Some err, st)
                | Some (Inr obj) \<Rightarrow> handle_update env obj_type hash wid obj st))
      | _ \<Rightarrow> Ok (None, st))"

section \<open>The workers\<close>

definition set_queue :: "nat \<Rightarrow> iface delayingType \<Rightarrow> 'w AviController \<Rightarrow> 'w AviController" where
  "set_queue i q c = c\<lparr>workqueue := (workqueue c)[i := q]\<rparr>"

text \<open>\<open>runWorker\<close> takes the lowest number set in the mask, and gives it back at the end.\<close>

definition pick_worker_id :: "uint32 \<Rightarrow> uint32 \<Rightarrow> uint32 \<times> uint32" where
  "pick_worker_id num idmask =
     (case find (\<lambda>i. (push_bit i 1 :: uint32) AND idmask \<noteq> 0) [0..<unat num] of
        Some i \<Rightarrow> (of_nat i, idmask AND NOT (push_bit i 1))
      | None \<Rightarrow> (0xffffffff, idmask))"

definition release_worker_id :: "uint32 \<Rightarrow> uint32 \<Rightarrow> uint32" where
  "release_worker_id idmask wid = idmask OR push_bit (unat wid) 1"

text \<open>
  \<open>processNextWorkItem\<close> in its two halves: taking an item off the queue, and, after the
  synchronisation, forgetting or requeueing it and calling the deferred \<^verbatim>\<open>Done\<close>.
\<close>

datatype work = Blocked | Shutdown | Work iface

definition take_item :: "uint32 \<Rightarrow> 'w AviController \<Rightarrow> (work \<times> 'w AviController) go" where
  "take_item wid c =
     go_bind (go_index (workqueue c) (unat wid)) (\<lambda>q.
       case Get (dq_queue q) of
         None \<Rightarrow> Ok (Blocked, c)
       | Some (None, q') \<Rightarrow> Ok (Shutdown, c)
       | Some (Some obj, q') \<Rightarrow> Ok (Work obj, set_queue (unat wid) (q\<lparr>dq_queue := q'\<rparr>) c))"

definition dq_Done :: "'a \<Rightarrow> 'a delayingType \<Rightarrow> 'a delayingType" where
  "dq_Done obj q = q\<lparr>dq_queue := Done obj (dq_queue q)\<rparr>"

definition finish_item ::
  "QEnv \<Rightarrow> uint32 \<Rightarrow> iface \<Rightarrow> go_error option \<Rightarrow> 'w AviController \<Rightarrow> 'w AviController option go" where
  "finish_item qe wid obj err c =
     go_bind (go_index (workqueue c) (unat wid)) (\<lambda>q.
       case err of
         None \<Rightarrow> Ok (Some (set_queue (unat wid) (dq_Done obj (Forget obj q)) c))
       | Some (SkipSyncError msg) \<Rightarrow> Ok (Some (set_queue (unat wid) (dq_Done obj (Forget obj q)) c))
       | Some e \<Rightarrow>
           (case AddRateLimited (qe_stop qe) (qe_now qe) (qe_bucket qe) obj q of
              None \<Rightarrow> Ok None
            | Some q' \<Rightarrow> Ok (Some (set_queue (unat wid) (dq_Done obj q') c))))"

text \<open>An item that is not a string is forgotten without being synchronised.\<close>

definition sync_item ::
  "Informers \<Rightarrow> 'w Env \<Rightarrow> uint32 \<Rightarrow> iface \<Rightarrow> 'w AviController \<Rightarrow> (go_error option \<times> 'w AviController) go" where
  "sync_item infs env wid obj c =
     (case obj of
        IStr ev \<Rightarrow> go_bind (syncHandler infs env ev wid (k8s c)) (\<lambda>(err, st). Ok (err, c\<lparr>k8s := st\<rparr>))
      | _ \<Rightarrow> Ok (None, c))"

definition processNextWorkItem ::
  "Informers \<Rightarrow> 'w Env \<Rightarrow> QEnv \<Rightarrow> uint32 \<Rightarrow> 'w AviController \<Rightarrow> (bool \<times> 'w AviController) option go" where
  "processNextWorkItem infs env qe wid c =
     go_bind (take_item wid c) (\<lambda>(w, c1).
       case w of
         Blocked \<Rightarrow> Ok None
       | Shutdown \<Rightarrow> Ok (Some (False, c1))
       | Work obj \<Rightarrow>
           go_bind (sync_item infs env wid obj c1) (\<lambda>(err, c2).
           go_bind (finish_item qe wid obj err c2) (\<lambda>r.
             Ok (case r of None \<Rightarrow> None | Some c3 \<Rightarrow> Some (True, c3)))))"

text \<open>\<^verbatim>\<open>Run\<close> defers a \<^verbatim>\<open>ShutDown\<close> of every queue, which run in reverse order when it returns.\<close>

fun shutdown_queues :: "nat list \<Rightarrow> 'w AviController \<Rightarrow> 'w AviController go" where
  "shutdown_queues [] c = Ok c"
| "shutdown_queues (i # is) c =
     go_bind (go_index (workqueue c) i) (\<lambda>q.
     go_bind (dq_ShutDown q) (\<lambda>q'. shutdown_queues is (set_queue i q' c)))"

definition Run_exit :: "'w AviController \<Rightarrow> 'w AviController go" where
  "Run_exit c = shutdown_queues (rev [0..<unat (num_workers c)]) c"

section \<open>Keys and buckets\<close>

lemma Bkt_bound:
  assumes "0 < num"
  shows "unat (Bkt key num) < unat num"
proof -
  have "Bkt key num \<le> num - 1" unfolding Bkt_def by (rule word_and_le1)
  then have "unat (Bkt key num) \<le> unat (num - 1)" by (simp add: word_le_nat_alt)
  moreover have "unat (num - 1) = unat num - 1" "0 < unat num"
    using assms by (simp_all add: unat_minus_one word_greater_zero_iff unat_gt_0)
  ultimately show ?thesis by linarith
qed

text \<open>The key under which the handlers queue an object.\<close>

definition key_of :: "string \<Rightarrow> string \<Rightarrow> string \<Rightarrow> string" where
  "key_of obj_type ns name = obj_type @ ''/'' @ (ns @ '':'' @ name) @ ''/'' @ meta_key ns name"

lemma obj_key_of:
  "obj_key ''Endpoints'' (KEndpoints ep) = Ok (key_of ''Endpoints'' (ep_Namespace ep) (ep_Name ep))"
  "obj_key ''Service'' (KService svc) = Ok (key_of ''Service'' (svc_Namespace svc) (svc_Name svc))"
  "obj_key ''Ingress'' (KIngress ing) = Ok (key_of ''Ingress'' (ing_Namespace ing) (ing_Name ing))"
  by (simp_all add: obj_key_def CrudHashKey_def key_of_def ObjKey_def MetaNamespaceKeyFunc_def
      DeletionHandlingMetaNamespaceKeyFunc_def)

lemma SplitN_key_of:
  assumes "api_name t" "api_name ns" "api_name name"
  shows "SplitN 3 ''/'' (key_of t ns name) = [t, ns @ '':'' @ name, meta_key ns name]"
proof -
  have "CHR ''/'' \<notin> set t" "CHR ''/'' \<notin> set (ns @ '':'' @ name)" using assms by (auto simp: api_name_def)
  then show ?thesis
    using SplitN_char [of "CHR ''/''" t 1 "(ns @ '':'' @ name) @ CHR ''/'' # meta_key ns name"]
      SplitN_char [of "CHR ''/''" "ns @ '':'' @ name" 0 "meta_key ns name"]
    by (simp add: key_of_def numeral_3_eq_3 SplitN_one)
qed

text \<open>With two queues the bucket is the parity of the key, in which the namespace and the name cancel.\<close>

lemma Bkt_two: "Bkt key 2 = (if parity key then 0 else 1)"
proof -
  have "Bkt key 2 = fnv32a key AND 1" by (simp add: Bkt_def)
  also have "\<dots> = of_bool (odd (fnv32a key))" by (simp add: and_one_eq odd_iff_mod_2_eq_one)
  finally show ?thesis by (simp add: odd_fnv32a)
qed

lemma parity_key_of:
  assumes "ns \<noteq> []"
  shows "parity (key_of t ns name) \<longleftrightarrow> \<not> parity t"
proof -
  have "low_odd CHR ''/''" "\<not> low_odd CHR '':''" by (simp_all add: low_odd_def)
  with assms show ?thesis by (auto simp: key_of_def meta_key_def)
qed

section \<open>Properties\<close>

lemma dq_Done_facts:
  "pending (dq_Done x q) = pending q" "processing (dq_queue (dq_Done x q)) = processing (dq_queue q) - {x}"
  "dq_limiter (dq_Done x q) = dq_limiter q"
  by (simp_all add: dq_Done_def pending_def wq.wanted_finish wq.busy_finish)

lemma Forget_facts:
  "pending (Forget x q) = pending q" "failures (dq_limiter (Forget x q)) x = 0"
  by (simp_all add: Forget_def pending_def exp_Forget_def)

lemma enqueue_bucket:
  assumes "unat (num_workers c) = length (workqueue c)" "0 < num_workers c"
  shows "enqueue qe key c =
    (let i = unat (Bkt key (num_workers c))
     in case AddRateLimited (qe_stop qe) (qe_now qe) (qe_bucket qe) (IStr key) (workqueue c ! i) of
          None \<Rightarrow> Ok None
        | Some q' \<Rightarrow> Ok (Some (set_queue i q' c)))"
  using Bkt_bound [OF assms(2), of key] assms(1)
  by (simp add: enqueue_def Let_def go_index_def set_queue_def split: option.split)

text \<open>The outcome of queueing a key: the queue of its bucket has it pending, or its channel is full.\<close>

definition queued_key :: "string \<Rightarrow> 'w AviController \<Rightarrow> 'w AviController option go \<Rightarrow> bool" where
  "queued_key key c r \<longleftrightarrow>
     (let i = unat (Bkt key (num_workers c)); q = workqueue c ! i
      in i < length (workqueue c)
         \<and> (case r of
              Ok (Some c') \<Rightarrow> (\<exists>q'. c' = set_queue i q' c \<and> pending q' = insert (IStr key) (pending q))
            | Ok None \<Rightarrow> length (waitingForAddCh q) \<ge> 1000
            | Panic _ \<Rightarrow> False))"

lemma enqueue_queues:
  assumes "unat (num_workers c) = length (workqueue c)" "0 < num_workers c"
    "\<forall>q \<in> set (workqueue c). \<not> shuttingDown (dq_queue q) \<and> \<not> stopCh_closed q"
  shows "queued_key key c (enqueue qe key c)"
proof -
  let ?i = "unat (Bkt key (num_workers c))" and ?add = "AddRateLimited (qe_stop qe) (qe_now qe) (qe_bucket qe) (IStr key)"
  have i: "?i < length (workqueue c)" using Bkt_bound [OF assms(2), of key] assms(1) by simp
  then have q: "\<not> shuttingDown (dq_queue (workqueue c ! ?i))" "\<not> stopCh_closed (workqueue c ! ?i)"
    using assms(3) nth_mem by blast+
  note e = enqueue_bucket [OF assms(1,2), of qe key, unfolded Let_def]
  show ?thesis
  proof (cases "?add (workqueue c ! ?i)")
    case None
    with AddRateLimited_waits [OF this] i e show ?thesis by (simp add: queued_key_def Let_def)
  next
    case (Some q')
    with AddRateLimited_pending(1) [OF this q] i e show ?thesis by (auto simp: queued_key_def Let_def)
  qed
qed

text \<open>
  C20: what the nine event handlers do while no queue is shutting down. A new, changed or deleted
  Service or Ingress, new or deleted Endpoints, and Endpoints whose subsets changed are queued:
  the key of the object becomes pending on the queue its bucket names, which exists whatever the
  number of queues, and nothing else changes; the call waits only when the channel of that queue
  is full. Endpoints with the same subsets as before are not queued. A deletion the informer
  missed, delivered as a tombstone, makes the handler panic.
\<close>

theorem event_queues_key:
  assumes "unat (num_workers c) = length (workqueue c)" "0 < num_workers c"
    "\<forall>q \<in> set (workqueue c). \<not> shuttingDown (dq_queue q) \<and> \<not> stopCh_closed q"
    "skey = key_of ''Service'' (svc_Namespace svc) (svc_Name svc)" "ikey = key_of ''Ingress'' (ing_Namespace ing) (ing_Name ing)"
    "ekey = key_of ''Endpoints'' (ep_Namespace ep) (ep_Name ep)"
  shows "queued_key skey c (svc_AddFunc qe (KService svc) c) \<and> queued_key skey c (svc_UpdateFunc qe old (KService svc) c)
    \<and> queued_key skey c (svc_DeleteFunc qe (KService svc) c)
    \<and> queued_key ikey c (ing_AddFunc qe (KIngress ing) c) \<and> queued_key ikey c (ing_UpdateFunc qe old (KIngress ing) c)
    \<and> queued_key ikey c (ing_DeleteFunc qe (KIngress ing) c)
    \<and> queued_key ekey c (ep_AddFunc qe (KEndpoints ep) c) \<and> queued_key ekey c (ep_DeleteFunc qe (KEndpoints ep) c)
    \<and> (if ep_Subsets ep = ep_Subsets oep then ep_UpdateFunc qe (KEndpoints oep) (KEndpoints ep) c = Ok (Some c)
       else queued_key ekey c (ep_UpdateFunc qe (KEndpoints oep) (KEndpoints ep) c))
    \<and> svc_DeleteFunc qe (DeletedFinalStateUnknown k (KService svc)) c = Panic TypeAssertionFailed
    \<and> ing_DeleteFunc qe (DeletedFinalStateUnknown k (KIngress ing)) c = Panic TypeAssertionFailed
    \<and> ep_DeleteFunc qe (DeletedFinalStateUnknown k (KEndpoints ep)) c = Panic TypeAssertionFailed"
  using enqueue_queues [OF assms(1-3)]
  by (simp add: assms(4-6) obj_key_of is_svc_def is_ing_def is_ep_def on_add_def on_delete_def tombstone_of_def svc_AddFunc_def
    svc_UpdateFunc_def svc_DeleteFunc_def ing_AddFunc_def ing_UpdateFunc_def ing_DeleteFunc_def ep_AddFunc_def ep_DeleteFunc_def
    ep_UpdateFunc_def)

definition one_svc :: Service where
  "one_svc = \<lparr>svc_Namespace = ''n'', svc_Name = ''s'', svc_ResourceVersion = ''1'', svc_Ports = []\<rparr>"

definition one_state :: "unit K8sState" where
  "one_state = NewK8sEp NewAviObjCache [\<lparr>sess_tenant = ''admin'', sess_version = []\<rparr>] ()"

definition no_informers :: Informers where
  "no_informers = \<lparr>ServiceInformer = Map.empty, EpInformer = Map.empty, IngInformer = Map.empty\<rparr>"

definition one_env :: "unit Env" where
  "one_env = \<lparr>env_api = silent_api, env_version = ''19.1.1'', env_informers = no_informers,
     ord_ports = (\<lambda>xs. xs), ord_pools = (\<lambda>xs. xs), ord_poolmap = (\<lambda>xs. xs)\<rparr>"

theorem event_queues_key_witness:
  "(\<exists>i < 2. case svc_AddFunc \<lparr>qe_now = 0, qe_bucket = 0, qe_stop = False\<rparr> (KService one_svc) (NewAviController 2 one_state) of
     Ok (Some c') \<Rightarrow> \<exists>q'. c' = set_queue i q' (NewAviController 2 one_state) \<and> pending q' = {IStr ''Service/n:s/n/s''}
   | Ok None \<Rightarrow> False | Panic _ \<Rightarrow> False)
   \<and> svc_DeleteFunc \<lparr>qe_now = 0, qe_bucket = 0, qe_stop = False\<rparr> (DeletedFinalStateUnknown ''n/s'' (KService one_svc))
      (NewAviController 2 one_state) = Panic TypeAssertionFailed"
proof -
  let ?c = "NewAviController 2 one_state"
  let ?k = "key_of ''Service'' (svc_Namespace one_svc) (svc_Name one_svc)"
  let ?q = "newDelayingQueue DefaultControllerRateLimiter :: iface delayingType"
  have k: "?k = ''Service/n:s/n/s''" by (simp add: key_of_def meta_key_def one_svc_def)
  have i: "unat (Bkt ?k 2) < 2" using Bkt_bound [of 2] by simp
  have c: "num_workers ?c = 2" "workqueue ?c = replicate 2 ?q" by (simp_all add: NewAviController_def)
  have q: "pending ?q = {}" "waitingForAddCh ?q = []" "\<not> shuttingDown (dq_queue ?q)" "\<not> stopCh_closed ?q"
    by (simp_all add: newDelayingQueue_def pending_def newQueue_def)
  have "unat (num_workers ?c) = length (workqueue ?c)" "0 < num_workers ?c"
    "\<forall>q \<in> set (workqueue ?c). \<not> shuttingDown (dq_queue q) \<and> \<not> stopCh_closed q"
    using c q by (simp_all add: word_greater_zero_iff)
  from event_queues_key [OF this refl refl refl, of one_svc "\<lparr>qe_now = 0, qe_bucket = 0, qe_stop = False\<rparr>" _ _ _ _ "''n/s''"]
  have "queued_key ?k ?c (svc_AddFunc \<lparr>qe_now = 0, qe_bucket = 0, qe_stop = False\<rparr> (KService one_svc) ?c)"
    "svc_DeleteFunc \<lparr>qe_now = 0, qe_bucket = 0, qe_stop = False\<rparr> (DeletedFinalStateUnknown ''n/s'' (KService one_svc)) ?c
      = Panic TypeAssertionFailed" by blast+
  moreover have "workqueue ?c ! unat (Bkt ?k 2) = ?q" using i c(2) by simp
  ultimately show ?thesis
    using i q unfolding queued_key_def Let_def c(1)
    by (intro conjI exI [of _ "unat (Bkt ?k 2)"]) (auto simp: k split: go.splits option.splits)
qed

text \<open>
  C19: the key an object is queued under leads the synchronisation back to that object: it is
  looked up by its own kind, namespace and name, updated when it is there and deleted when it
  is not.
\<close>

theorem key_leads_to_object:
  assumes "api_name ns" "api_name name" "kind \<in> {''Service'', ''Endpoints'', ''Ingress''}"
  shows "syncHandler infs env (key_of kind ns name) wid st =
    (case lookup_obj infs kind ns name of
       Some (Inr obj) \<Rightarrow> handle_update env kind (ns @ '':'' @ name) wid obj st
     | Some (Inl err) \<Rightarrow> handle_delete env kind (key_of kind ns name) wid err st
     | None \<Rightarrow> Ok (None, st))
    \<and> lookup_obj infs kind ns name \<noteq> None"
proof -
  have k: "api_name kind" using assms(3) by (auto simp: api_name_def)
  have l: "lookup_obj infs kind ns name \<noteq> None" using assms(3) by (auto simp: lookup_obj_def)
  have nf: "IsNotFound e" if "lookup_obj infs kind ns name = Some (Inl e)" for e
    using that by (auto simp: lookup_obj_def map_sum_def dest: lister_Get_error split: if_splits sum.splits)
  with l show ?thesis
    by (auto simp: syncHandler_def SplitN_key_of [OF k assms(1,2)] meta.split_mk [OF assms(1,2)] split: option.split sum.split)
qed

theorem key_leads_to_object_witness:
  "syncHandler no_informers one_env (key_of ''Endpoints'' ''n'' ''s'') 0 one_state = Ok (None, one_state)"
  by (subst key_leads_to_object [THEN conjunct1])
    (simp_all add: api_name_def lookup_obj_def lister_Get_def handle_delete_def K8sEp_K8sObjDelete_def no_informers_def)

text \<open>
  C36: with the two queues the program runs, the key of a namespaced object goes to the queue
  of the parity of its kind alone: the name contributes an even number of times. A Service and
  its Endpoints are never on the same queue, so different workers handle them.
\<close>

theorem service_and_endpoints_apart:
  assumes "ns \<noteq> []" "ns' \<noteq> []"
  shows "Bkt (key_of ''Service'' ns name) NumWorkers \<noteq> Bkt (key_of ''Endpoints'' ns' name') NumWorkers"
proof -
  have "parity ''Service'' \<noteq> parity ''Endpoints''" by (simp add: low_odd_def)
  then have "parity (key_of ''Service'' ns name) \<noteq> parity (key_of ''Endpoints'' ns' name')"
    using parity_key_of [OF assms(1)] parity_key_of [OF assms(2)] by blast
  then show ?thesis
    by (simp only: NumWorkers_def Bkt_two) (simp split: if_split)
qed

theorem service_and_endpoints_apart_witness:
  "Bkt (key_of ''Service'' ''default'' ''web'') NumWorkers \<noteq> Bkt (key_of ''Endpoints'' ''default'' ''web'') NumWorkers"
  using service_and_endpoints_apart [of "''default''" "''default''" "''web''" "''web''"] by simp

text \<open>
  A deletion the informer reports with a tombstone makes the handler panic: the type of
  the event's object is asserted a second time, without the check.
\<close>

theorem tombstone_panics:
  "svc_DeleteFunc qe (DeletedFinalStateUnknown key (KService svc)) c = Panic TypeAssertionFailed
   \<and> ep_DeleteFunc qe (DeletedFinalStateUnknown key (KEndpoints ep)) c = Panic TypeAssertionFailed
   \<and> ing_DeleteFunc qe (DeletedFinalStateUnknown key (KIngress ing)) c = Panic TypeAssertionFailed
   \<and> svc_DeleteFunc qe (DeletedFinalStateUnknown key KOther) c = Ok (Some c)"
  by (simp add: svc_DeleteFunc_def ep_DeleteFunc_def ing_DeleteFunc_def on_delete_def tombstone_of_def is_svc_def is_ep_def
      is_ing_def)

text \<open>
  C18: one round of a worker on a key. The handler's state is kept and the key is no longer
  being processed. After an error other than \<^verbatim>\<open>SkipSyncError\<close> the key is pending again and its
  failures are counted; otherwise its failures are forgotten and it is pending only if it was
  added again meanwhile. The round waits only when the channel of the queue is full.
\<close>

theorem work_item_round:
  assumes "take_item wid c = Ok (Work (IStr key), c1)" "syncHandler infs env key wid (k8s c1) = Ok (err, st)"
    "q1 = workqueue c1 ! unat wid" "\<not> shuttingDown (dq_queue q1)" "\<not> stopCh_closed q1"
    "retry \<longleftrightarrow> err \<noteq> None \<and> (\<forall>m. err \<noteq> Some (SkipSyncError m))"
  shows "case processNextWorkItem infs env qe wid c of
      Ok (Some (again, c3)) \<Rightarrow> again \<and> k8s c3 = st
        \<and> IStr key \<notin> processing (dq_queue (workqueue c3 ! unat wid))
        \<and> failures (dq_limiter (workqueue c3 ! unat wid)) (IStr key)
            = (if retry then Suc (failures (dq_limiter q1) (IStr key)) else 0)
        \<and> pending (workqueue c3 ! unat wid) = (if retry then insert (IStr key) (pending q1) else pending q1)
    | Ok None \<Rightarrow> retry \<and> length (waitingForAddCh q1) \<ge> 1000
    | Panic _ \<Rightarrow> False"
proof -
  have i: "unat wid < length (workqueue c1)"
    using assms(1) by (auto simp: take_item_def go_index_eq_Ok set_queue_def split: option.splits prod.splits)
  have full: "length (waitingForAddCh q1) \<ge> 1000"
    if "AddRateLimited (qe_stop qe) (qe_now qe) (qe_bucket qe) (IStr key) q1 = None"
    using that by (rule AddRateLimited_waits)
  show ?thesis
  proof (cases retry)
    case True
    then obtain e where e: "err = Some e" "\<And>m. e \<noteq> SkipSyncError m" using assms(6) by auto
    then have "finish_item qe wid (IStr key) err (c1\<lparr>k8s := st\<rparr>) =
        (case AddRateLimited (qe_stop qe) (qe_now qe) (qe_bucket qe) (IStr key) q1 of
           None \<Rightarrow> Ok None
         | Some q' \<Rightarrow> Ok (Some (set_queue (unat wid) (dq_Done (IStr key) q') (c1\<lparr>k8s := st\<rparr>))))"
      using i assms(3) by (cases e) (auto simp: finish_item_def go_index_def split: option.split)
    with True assms(1,2) full i show ?thesis
      by (cases "AddRateLimited (qe_stop qe) (qe_now qe) (qe_bucket qe) (IStr key) q1")
        (auto simp: processNextWorkItem_def sync_item_def set_queue_def dq_Done_facts dest: AddRateLimited_pending [OF _ assms(4,5)])
  next
    case False
    then have "finish_item qe wid (IStr key) err (c1\<lparr>k8s := st\<rparr>) =
        Ok (Some (set_queue (unat wid) (dq_Done (IStr key) (Forget (IStr key) q1)) (c1\<lparr>k8s := st\<rparr>)))"
      using i assms(3,6) by (auto simp: finish_item_def go_index_def split: option.split)
    with False assms(1,2) i show ?thesis
      by (simp add: processNextWorkItem_def sync_item_def set_queue_def dq_Done_facts Forget_facts)
  qed
qed

definition one_queue :: "iface delayingType" where
  "one_queue = (newDelayingQueue DefaultControllerRateLimiter)
     \<lparr>dq_queue := Add (IStr ''Ingress/n:s/n/s'') newQueue\<rparr>"

lemma ingress_sync_missing:
  assumes "api_name ns" "api_name name" "IngInformer infs (ns @ ''/'' @ name) = None"
  shows "\<exists>m. syncHandler infs env (key_of ''Ingress'' ns name) wid st = Ok (Some (StatusNotFound m), st)"
  using SplitN_key_of [of "''Ingress''", OF _ assms(1,2)] meta.split_mk [OF assms(1,2)] assms(3)
  by (auto simp: syncHandler_def api_name_def lookup_obj_def lister_Get_def IsNotFound_def handle_delete_def)

theorem work_item_round_witness:
  "\<exists>c3. processNextWorkItem no_informers one_env \<lparr>qe_now = 0, qe_bucket = 0, qe_stop = False\<rparr> 0
       ((NewAviController 1 one_state)\<lparr>workqueue := [one_queue]\<rparr>) = Ok (Some (True, c3))
     \<and> failures (dq_limiter (workqueue c3 ! 0)) (IStr (key_of ''Ingress'' ''n'' ''s'')) = 1"
proof -
  let ?key = "key_of ''Ingress'' ''n'' ''s''"
  let ?q = "one_queue\<lparr>dq_queue := \<lparr>queue = [], dirty = {}, processing = {IStr ?key}, shuttingDown = False\<rparr>\<rparr>"
  let ?c = "(NewAviController 1 one_state)\<lparr>workqueue := [one_queue]\<rparr>"
  have key: "?key = ''Ingress/n:s/n/s''" by (simp add: key_of_def meta_key_def)
  have t: "take_item 0 ?c = Ok (Work (IStr ?key), set_queue 0 ?q ?c)"
    by (simp add: take_item_def go_index_def one_queue_def Get_def Add_def newQueue_def Let_def key set_queue_def
        newDelayingQueue_def insert_Diff_if)
  obtain m where s: "syncHandler no_informers one_env ?key 0 (k8s (set_queue 0 ?q ?c)) = Ok (Some (StatusNotFound m), k8s ?c)"
    using ingress_sync_missing [of "''n''" "''s''" no_informers one_env 0 "k8s ?c"]
    by (auto simp: api_name_def no_informers_def set_queue_def)
  have f: "failures (dq_limiter ?q) (IStr ?key) = 0" "\<not> length (waitingForAddCh ?q) \<ge> 1000"
    by (simp_all add: one_queue_def newDelayingQueue_def DefaultControllerRateLimiter_def NewItemExponentialFailureRateLimiter_def)
  show ?thesis
    using work_item_round [OF t s, of ?q True "\<lparr>qe_now = 0, qe_bucket = 0, qe_stop = False\<rparr>"] f
    by (auto simp: set_queue_def one_queue_def newDelayingQueue_def split: go.splits option.splits)
qed

text \<open>
  C38: an Ingress is never acted on: the key of one that exists is handled without effect, and the
  key of one that does not exist returns an error that is not \<^verbatim>\<open>SkipSyncError\<close> and changes nothing.
  A round that ends in such an error queues the key again, so that a deleted Ingress comes back for
  ever.
\<close>

theorem ingress_unhandled:
  assumes "api_name ns" "api_name name"
  shows "case IngInformer infs (ns @ ''/'' @ name) of
     Some ing \<Rightarrow> syncHandler infs env (key_of ''Ingress'' ns name) wid st = Ok (None, st)
   | None \<Rightarrow> \<exists>e. syncHandler infs env (key_of ''Ingress'' ns name) wid st = Ok (Some e, st) \<and> (\<forall>m. e \<noteq> SkipSyncError m)"
proof (cases "IngInformer infs (ns @ ''/'' @ name)")
  case None
  with ingress_sync_missing [OF assms None, of env wid st] show ?thesis by auto
next
  case (Some ing)
  with SplitN_key_of [of "''Ingress''", OF _ assms] meta.split_mk [OF assms] show ?thesis
    by (simp add: syncHandler_def api_name_def lookup_obj_def lister_Get_def handle_update_def)
qed

theorem ingress_unhandled_witness:
  "\<exists>e. syncHandler no_informers one_env (key_of ''Ingress'' ''n'' ''s'') 0 one_state = Ok (Some e, one_state)"
  using ingress_unhandled [of "''n''" "''s''" no_informers one_env 0 one_state] by (auto simp: api_name_def no_informers_def)

end
