(* ===== verification/Interleaving.thy ===== *)
theory Interleaving
  imports Prelude
begin

text \<open>
  Code that runs beside other goroutines. A \<open>prog\<close> is a tree of atomic steps on a shared state:
  it has returned, or its next step reads and changes the state (or panics) and says how to
  go on. What happens between two steps is not part of the program, so the state a step
  finds need not be the one its predecessor left.

  \<open>run\<close> is the execution without interference, which ties a program to the sequential
  definition of the same code; \<open>keeps R\<close> says that every step of the program, in whatever state
  it is taken, is in the relation \<open>R\<close>, so that an invariant of \<open>R\<close> survives any interleaving;
  \<open>par_step\<close> interleaves programs with each other and with an environment. A program cannot go
  on forever (\<open>wf_prog_next\<close>), since it is a datatype value.

  The locale \<open>component\<close> is the contract of a part of the shared state that can be read and
  replaced; loops over such a part are proved in it once.
\<close>

section \<open>Programs\<close>

datatype ('s, 'a) prog = Return 'a | Atomic "'s \<Rightarrow> (('s, 'a) prog \<times> 's) go"

primrec bind_prog :: "('s, 'a) prog \<Rightarrow> ('a \<Rightarrow> ('s, 'b) prog) \<Rightarrow> ('s, 'b) prog" where
  "bind_prog (Return a) k = k a"
| "bind_prog (Atomic f) k = Atomic (map_go (map_prod (\<lambda>p. bind_prog p k) id) \<circ> f)"

primrec run :: "('s, 'a) prog \<Rightarrow> 's \<Rightarrow> ('a \<times> 's) go" where
  "run (Return a) = (\<lambda>s. Ok (a, s))"
| "run (Atomic f) = (\<lambda>s. go_bind ((map_go (map_prod run id) \<circ> f) s) (\<lambda>(r, s'). r s'))"

text \<open>One atomic step, a step that only reads, a step that only writes, and local code.\<close>

definition act :: "('s \<Rightarrow> ('a \<times> 's) go) \<Rightarrow> ('s, 'a) prog" where
  "act f = Atomic (\<lambda>s. map_go (map_prod Return id) (f s))"

definition reads :: "('s \<Rightarrow> 'a) \<Rightarrow> ('s, 'a) prog" where
  "reads g = act (\<lambda>s. Ok (g s, s))"

definition writes :: "('s \<Rightarrow> 's) \<Rightarrow> ('s, unit) prog" where
  "writes h = act (\<lambda>s. Ok ((), h s))"

primrec local :: "'a go \<Rightarrow> ('s, 'a) prog" where
  "local (Ok a) = Return a"
| "local (Panic p) = Atomic (\<lambda>s. Panic p)"

primrec fold_prog :: "('x \<Rightarrow> 'a \<Rightarrow> ('s, 'a) prog) \<Rightarrow> 'x list \<Rightarrow> 'a \<Rightarrow> ('s, 'a) prog" where
  "fold_prog f [] a = Return a"
| "fold_prog f (x # xs) a = bind_prog (f x a) (fold_prog f xs)"

definition each_prog :: "('x \<Rightarrow> ('s, unit) prog) \<Rightarrow> 'x list \<Rightarrow> ('s, unit) prog" where
  "each_prog f xs = fold_prog (\<lambda>x _. f x) xs ()"

text \<open>Induction over the program that is left after each step.\<close>

lemma prog_induct [case_names Return Atomic]:
  assumes "\<And>a. P (Return a)" "\<And>f. (\<And>s p s'. f s = Ok (p, s') \<Longrightarrow> P p) \<Longrightarrow> P (Atomic f)"
  shows "P p"
proof (induction p)
  case (Atomic f)
  show ?case
  proof (rule assms(2))
    fix s p s' assume f: "f s = Ok (p, s')"
    show "P p" by (rule Atomic [of "f s" "(p, s')" p]) (use f in \<open>auto simp: fsts.simps intro: range_eqI [of _ _ s]\<close>)
  qed
qed (rule assms(1))

section \<open>Running without interference\<close>

named_theorems run_simps "what a program does when nothing interferes"

lemma run_Atomic: "run (Atomic f) s = go_bind (f s) (\<lambda>(p, s'). run p s')"
  by (cases "f s") (auto split: prod.split)

lemma run_bind [run_simps]: "run (bind_prog p k) s = go_bind (run p s) (\<lambda>(a, s'). run (k a) s')"
proof (induction p arbitrary: s rule: prog_induct)
  case (Atomic f)
  show ?case
  proof (cases "f s")
    case (Ok ps)
    obtain p s' where ps: "ps = (p, s')" by fastforce
    with Ok Atomic.IH [of s p s'] show ?thesis by (simp add: run_Atomic del: run.simps)
  qed (simp add: run_Atomic del: run.simps)
qed simp

lemma run_Return [run_simps]: "run (Return a) s = Ok (a, s)"
  by simp

lemma run_act [run_simps]: "run (act f) s = f s"
  by (cases "f s") (auto simp: act_def run_Atomic)

lemma run_reads [run_simps]: "run (reads g) s = Ok (g s, s)"
  by (simp add: reads_def run_act)

lemma run_writes [run_simps]: "run (writes h) s = Ok ((), h s)"
  by (simp add: writes_def run_act)

lemma run_local [run_simps]: "run (local m) s = go_bind m (\<lambda>a. Ok (a, s))"
  by (cases m) (simp_all add: run_Atomic)

text \<open>A loop that only reads the state.\<close>

lemma run_fold_reads:
  assumes "\<And>x a. run (f x a) s = go_bind (g x a) (\<lambda>b. Ok (b, s))"
  shows "run (fold_prog f xs a) s = go_bind (go_fold g xs a) (\<lambda>b. Ok (b, s))"
proof (induction xs arbitrary: a)
  case (Cons x xs)
  then show ?case by (cases "g x a") (simp_all add: run_bind assms)
qed simp

lemma each_prog_simps [simp]:
  "each_prog f [] = Return ()" "each_prog f (x # xs) = bind_prog (f x) (\<lambda>_. each_prog f xs)"
  by (simp_all add: each_prog_def)

locale component =
  fixes sel :: "'s \<Rightarrow> 'c" and upd :: "'c \<Rightarrow> 's \<Rightarrow> 's"
  assumes sel_upd: "sel (upd c s) = c" and upd_sel: "upd (sel s) s = s"
    and upd_upd: "upd c (upd d s) = upd c s"
begin

lemma run_each:
  assumes "\<And>x s. run (f x) s = go_bind (g x (sel s)) (\<lambda>c. Ok ((), upd c s))"
  shows "run (each_prog f xs) s = go_bind (go_fold g xs (sel s)) (\<lambda>c. Ok ((), upd c s))"
proof (induction xs arbitrary: s)
  case (Cons x xs)
  then show ?case by (cases "g x (sel s)") (simp_all add: run_bind assms sel_upd upd_upd)
qed (simp add: upd_sel)

lemma run_each_pure:
  assumes "\<And>x s. run (f x) s = Ok ((), upd (g x (sel s)) s)"
  shows "run (each_prog f xs) s = Ok ((), upd (fold g xs (sel s)) s)"
  using run_each [of f "\<lambda>x c. Ok (g x c)" xs s] assms by (simp add: go_fold_pure)

end

section \<open>What every step keeps\<close>

inductive keeps :: "('s \<Rightarrow> 's \<Rightarrow> bool) \<Rightarrow> ('s, 'a) prog \<Rightarrow> bool" for R where
  keeps_Return: "keeps R (Return a)"
| keeps_Atomic: "(\<And>s p s'. f s = Ok (p, s') \<Longrightarrow> R s s' \<and> keeps R p) \<Longrightarrow> keeps R (Atomic f)"

inductive_cases keeps_AtomicE: "keeps R (Atomic f)"

lemma keeps_next: "keeps R (Atomic f) \<Longrightarrow> f s = Ok (p, s') \<Longrightarrow> R s s' \<and> keeps R p"
  by (blast elim: keeps_AtomicE)

lemma keeps_bind:
  assumes "keeps R p" "\<And>a. keeps R (k a)"
  shows "keeps R (bind_prog p k)"
  using assms(1)
proof induction
  case (keeps_Atomic f)
  show ?case
    unfolding bind_prog.simps
  proof (rule keeps.keeps_Atomic)
    fix s q s' assume "(map_go (map_prod (\<lambda>p. bind_prog p k) id) \<circ> f) s = Ok (q, s')"
    then obtain p where "f s = Ok (p, s')" "q = bind_prog p k"
      by (cases "f s") auto
    with keeps_Atomic show "R s s' \<and> keeps R q" by blast
  qed
qed (simp add: assms(2))

lemma keeps_act:
  fixes f :: "'s \<Rightarrow> ('a \<times> 's) go"
  assumes "\<And>s a s'. f s = Ok (a, s') \<Longrightarrow> R s s'"
  shows "keeps R (act f)"
  unfolding act_def
proof (rule keeps_Atomic)
  fix s s' and p :: "('s, 'a) prog"
  assume "map_go (map_prod Return id) (f s) = Ok (p, s')"
  with assms show "R s s' \<and> keeps R p" by (cases "f s") (auto intro: keeps_Return)
qed

lemma keeps_reads: "(\<And>s. R s s) \<Longrightarrow> keeps R (reads g)"
  by (auto simp: reads_def intro: keeps_act)

lemma keeps_writes: "(\<And>s. R s (h s)) \<Longrightarrow> keeps R (writes h)"
  by (auto simp: writes_def intro: keeps_act)

lemma keeps_local: "keeps R (local m)"
  by (cases m) (auto intro: keeps.intros)

lemma keeps_fold: "(\<And>x a. keeps R (f x a)) \<Longrightarrow> keeps R (fold_prog f xs a)"
  by (induction xs arbitrary: a) (auto intro: keeps_Return keeps_bind)

lemma keeps_each: "(\<And>x. keeps R (f x)) \<Longrightarrow> keeps R (each_prog f xs)"
  by (simp add: each_prog_def keeps_fold)

section \<open>The steps of a program\<close>

inductive prog_step :: "('s, 'a) prog \<times> 's \<Rightarrow> ('s, 'a) prog \<times> 's \<Rightarrow> bool" where
  "f s = Ok (p, s') \<Longrightarrow> prog_step (Atomic f, s) (p, s')"

inductive_cases prog_stepE: "prog_step (p, s) (p', s')"
inductive_simps prog_step_simps [simp]: "prog_step (Return a, s) (p', s')" "prog_step (Atomic f, s) (p', s')"

lemma prog_step_keeps: "prog_step (p, s) (p', s') \<Longrightarrow> keeps R p \<Longrightarrow> R s s' \<and> keeps R p'"
  by (auto elim!: prog_stepE dest: keeps_next)

text \<open>\<open>run\<close> is what the steps of the program lead to when nothing else happens.\<close>

lemma run_steps: "run p s = Ok (a, s') \<Longrightarrow> prog_step\<^sup>*\<^sup>* (p, s) (Return a, s')"
proof (induction p arbitrary: s rule: prog_induct)
  case (Atomic f)
  from Atomic.prems obtain p t where p: "f s = Ok (p, t)" "run p t = Ok (a, s')"
    unfolding run_Atomic go_bind_eq_Ok by (auto split: prod.splits)
  then have "prog_step (Atomic f, s) (p, t)" by simp
  with Atomic.IH [OF p(1,2)] show ?case by (rule converse_rtranclp_into_rtranclp [rotated])
qed simp

lemma prog_step_bind:
  "prog_step (p, s) (p', s') \<Longrightarrow> prog_step (bind_prog p k, s) (bind_prog p' k, s')"
  by (auto elim!: prog_stepE)

text \<open>However the state changes between its steps, a program takes only finitely many of them.\<close>

definition prog_next :: "(('s, 'a) prog \<times> ('s, 'a) prog) set" where
  "prog_next = {(p', p). \<exists>s s'. prog_step (p, s) (p', s')}"

lemma wf_prog_next: "wf (prog_next :: (('s, 'a) prog \<times> ('s, 'a) prog) set)"
proof (rule wfUNIVI)
  fix P :: "('s, 'a) prog \<Rightarrow> bool" and p
  assume "\<forall>p. (\<forall>q. (q, p) \<in> prog_next \<longrightarrow> P q) \<longrightarrow> P p"
  then have step: "P p" if "\<And>q s s'. prog_step (p, s) (q, s') \<Longrightarrow> P q" for p
    using that by (auto simp: prog_next_def)
  show "P p"
  proof (induction p rule: prog_induct)
    case (Return a)
    show ?case by (rule step) simp
  next
    case (Atomic f)
    show ?case by (rule step) (use Atomic in simp)
  qed
qed

section \<open>Interleavings\<close>

text \<open>Goroutines \<open>ps\<close> on one state, with an environment that changes the state by \<open>E\<close>.\<close>

inductive par_step ::
  "('s \<Rightarrow> 's \<Rightarrow> bool) \<Rightarrow> (nat \<Rightarrow> ('s, 'a) prog) \<times> 's \<Rightarrow> (nat \<Rightarrow> ('s, 'a) prog) \<times> 's \<Rightarrow> bool" for E where
  own: "prog_step (ps i, s) (p', s') \<Longrightarrow> par_step E (ps, s) (ps(i := p'), s')"
| env: "E s s' \<Longrightarrow> par_step E (ps, s) (ps, s')"

lemma par_steps_own:
  "prog_step\<^sup>*\<^sup>* (ps i, s) (p', s') \<Longrightarrow> (par_step E)\<^sup>*\<^sup>* (ps, s) (ps(i := p'), s')"
proof (induction "(p', s')" arbitrary: p' s' rule: rtranclp_induct)
  case base
  show ?case by simp
next
  case (step q)
  obtain p1 s1 where q: "q = (p1, s1)" by fastforce
  with step.hyps(2) have "prog_step ((ps(i := p1)) i, s1) (p', s')" by simp
  from par_step.own [where i = i and ps = "ps(i := p1)", OF this] step.hyps(3) [OF q] show ?case
    by (simp add: rtranclp.rtrancl_into_rtrancl)
qed

lemma par_run:
  "run (ps i) s = Ok (a, s') \<Longrightarrow> (par_step E)\<^sup>*\<^sup>* (ps, s) (ps(i := Return a), s')"
  by (rule par_steps_own) (rule run_steps)

end
