(* ===== verification/Avi_Steps.thy ===== *)
theory Avi_Steps
  imports Avi_Controller Interleaving
begin

text \<open>
  \<^verbatim>\<open>syncHandler\<close> and the handlers it calls, as programs of atomic steps. The two workers, the
  informers and the handlers share the caches, the REST clients with the Avi controller behind
  them, and the informer stores. Each access to one of them is a step of its own: a lookup in
  an informer store, an operation of a cache (its methods hold the cache's lock), a request to
  the Avi controller. The code between two accesses is local and belongs to the step before.

  The steps are those of the sequential definitions of \<open>K8s_Ep\<close>, \<open>K8s_Svc\<close> and \<open>Avi_Controller\<close>: run without
  interference, every program computes what its sequential definition says when the stores do
  not change (\<open>run_ep_prog\<close>, \<open>run_svc_prog\<close>, \<open>run_svc_delete\<close>, \<open>run_sync_prog\<close>). Every single step keeps the invariant of
  the caches, whatever the state it is taken in (\<open>sync_prog_keeps\<close>).

  A row of the cache from Services to pools is read as a whole, although the code ranges over
  the map it shares with the cache: Go does not define what a \<^verbatim>\<open>range\<close> sees of a concurrent write.
\<close>

type_synonym 'w Shared = "'w K8sState \<times> Informers"

definition set_k8s :: "'w K8sState \<Rightarrow> 'w Shared \<Rightarrow> 'w Shared" where
  "set_k8s st s = (st, snd s)"

definition at_stores :: "'w Env \<Rightarrow> Informers \<Rightarrow> 'w Env" where
  "at_stores env infs = env\<lparr>env_informers := infs\<rparr>"

text \<open>A step that reads the shared state and may panic, and one that changes it.\<close>

definition query :: "('w K8sState \<Rightarrow> 'a go) \<Rightarrow> ('w Shared, 'a) prog" where
  "query g = act (\<lambda>s. go_bind (g (fst s)) (\<lambda>a. Ok (a, s)))"

definition update :: "('w K8sState \<Rightarrow> ('a \<times> 'w K8sState) go) \<Rightarrow> ('w Shared, 'a) prog" where
  "update h = act (\<lambda>s. go_bind (h (fst s)) (\<lambda>(a, st). Ok (a, set_k8s st s)))"

section \<open>Requests\<close>

definition client_prog :: "uint32 \<Rightarrow> ('w Shared, AviSession) prog" where
  "client_prog shard = query (\<lambda>st. go_index (AviClient st) (unat shard))"

text \<open>One request of a batch: the session is given the tenant and version of the operation.\<close>

definition send_op :: "'w Env \<Rightarrow> uint32 \<Rightarrow> RestOp \<Rightarrow> 'w K8sState \<Rightarrow> (RestOp \<times> 'w K8sState) go" where
  "send_op env shard op st =
     go_bind (go_index (AviClient st) (unat shard)) (\<lambda>sess.
       let sess1 = SetVersion (op_Version op) (SetTenant (op_Tenant op) sess);
           (op', w') = rest_call (env_api env) sess1 op (world st)
       in Ok (op', st\<lparr>AviClient := (AviClient st)[unat shard := sess1], world := w'\<rparr>))"

fun batch_prog :: "'w Env \<Rightarrow> uint32 \<Rightarrow> RestOp list \<Rightarrow> ('w Shared, go_error option \<times> RestOp list) prog" where
  "batch_prog env shard [] = Return (None, [])"
| "batch_prog env shard (op # ops) =
     bind_prog (update (send_op env shard op)) (\<lambda>op'.
       case op_Err op' of
         Some err \<Rightarrow> Return (Some err, op' # map aborted ops)
       | None \<Rightarrow> bind_prog (batch_prog env shard ops) (\<lambda>(err, ops'). Return (err, op' # ops')))"

definition rest_prog :: "'w Env \<Rightarrow> uint32 \<Rightarrow> RestOp list \<Rightarrow> ('w Shared, go_error option \<times> RestOp list) prog" where
  "rest_prog env shard ops = bind_prog (client_prog shard) (\<lambda>_. batch_prog env shard ops)"

definition undo_op :: "'w Env \<Rightarrow> uint32 \<Rightarrow> RestOp \<Rightarrow> 'w K8sState \<Rightarrow> (unit \<times> 'w K8sState) go" where
  "undo_op env shard op st =
     go_bind (go_index (AviClient st) (unat shard)) (\<lambda>sess.
     go_bind (rollback_op (env_api env) sess op (world st)) (\<lambda>w. Ok ((), st\<lparr>world := w\<rparr>)))"

definition rollback_prog :: "'w Env \<Rightarrow> uint32 \<Rightarrow> RestOp list \<Rightarrow> ('w Shared, unit) prog" where
  "rollback_prog env shard ops =
     bind_prog (client_prog shard) (\<lambda>_. each_prog (\<lambda>op. update (undo_op env shard op)) (rev ops))"

section \<open>Cache updates\<close>

definition pool_add_step :: "string \<Rightarrow> (string \<times> jval) list \<Rightarrow> 'w K8sState \<Rightarrow> (unit \<times> 'w K8sState) go" where
  "pool_add_step tenant resp st =
     go_bind (pool_cache_resp tenant resp (PoolCache (avi_obj_cache st))) (\<lambda>c. Ok ((), set_pool_cache st c))"

definition pool_add_prog :: "RestOp \<Rightarrow> ('w Shared, unit) prog" where
  "pool_add_prog op =
     bind_prog (local (pool_resp_elems op ''pool'')) (\<lambda>r.
       case r of
         Inl err \<Rightarrow> Return ()
       | Inr resp_elems \<Rightarrow> each_prog (\<lambda>resp. update (pool_add_step (op_Tenant op) resp)) resp_elems)"

definition svc_pool_add_prog :: "NamespaceName \<Rightarrow> string \<Rightarrow> RestOp \<Rightarrow> ('w Shared, unit) prog" where
  "svc_pool_add_prog key pre op =
     bind_prog (local (pool_resp_elems op ''pool'')) (\<lambda>r.
       case r of
         Inl err \<Rightarrow> Return ()
       | Inr resp_elems \<Rightarrow>
           each_prog (\<lambda>resp. update (\<lambda>st.
             Ok ((), st\<lparr>svc_to_pool_cache := svc_pool_resp pre key resp (svc_to_pool_cache st)\<rparr>))) resp_elems)"

definition vs_add_step ::
  "string \<Rightarrow> (string \<times> jval) list \<Rightarrow> 'w K8sState \<Rightarrow> (go_error option \<times> 'w K8sState) go" where
  "vs_add_step tenant resp st =
     go_bind (vs_cache_resps tenant [resp] (VsCache (avi_obj_cache st))) (\<lambda>(err, c). Ok (err, set_vs_cache st c))"

fun vs_resps_prog :: "string \<Rightarrow> (string \<times> jval) list list \<Rightarrow> ('w Shared, unit) prog" where
  "vs_resps_prog tenant [] = Return ()"
| "vs_resps_prog tenant (resp # resps) =
     bind_prog (update (vs_add_step tenant resp)) (\<lambda>err.
       if err = None then vs_resps_prog tenant resps else Return ())"

definition vs_add_prog :: "RestOp \<Rightarrow> ('w Shared, unit) prog" where
  "vs_add_prog op =
     bind_prog (local (pool_resp_elems op ''virtualservice'')) (\<lambda>r.
       case r of Inl err \<Rightarrow> Return () | Inr resp_elems \<Rightarrow> vs_resps_prog (op_Tenant op) resp_elems)"

definition ep_record_prog :: "RestOp \<Rightarrow> ('w Shared, unit) prog" where
  "ep_record_prog op = (if op_Err op = None then pool_add_prog op else Return ())"

definition svc_record_prog :: "NamespaceName \<Rightarrow> RestOp \<Rightarrow> ('w Shared, unit) prog" where
  "svc_record_prog vs_cache_key op =
     (if op_Err op = None then
        if op_Model op = ''Pool''
        then bind_prog (pool_add_prog op) (\<lambda>_. svc_pool_add_prog vs_cache_key ''service'' op)
        else if op_Model op = ''VirtualService'' then vs_add_prog op
        else Return ()
      else Return ())"

section \<open>The handlers\<close>

definition pools_prog ::
  "'w Env \<Rightarrow> Endpoints \<Rightarrow> string \<Rightarrow> string \<Rightarrow> AviPortStrProtocol list
   \<Rightarrow> ('w Shared, (string list \<times> ServiceMetadataObj) option) prog" where
  "pools_prog env ep name_prefix crud_hash_key port_protocols =
     (if name_prefix = '''' then
        bind_prog (reads (\<lambda>s. AviMultiCacheGetKey (svc_to_pool_cache (fst s)) (nsname (ep_Namespace ep) (ep_Name ep))))
          (\<lambda>row. case row of
             None \<Rightarrow> Return None
           | Some pools \<Rightarrow>
               bind_prog
                 (fold_prog (\<lambda>x acc. query (\<lambda>st. visit_pool (ep_Namespace ep) (PoolCache (avi_obj_cache st)) x acc))
                   (ord_pools env pools) ([], empty_metadata))
                 (\<lambda>r. Return (Some r)))
      else Return (Some (map (\<lambda>pp. pool_name_of name_prefix (psp_Port pp) (psp_Protocol pp))
                           (ord_ports env port_protocols),
                         \<lparr>CrudHashKey_field = crud_hash_key\<rparr>)))"

definition ep_prog ::
  "'w Env \<Rightarrow> uint32 \<Rightarrow> Endpoints \<Rightarrow> string \<Rightarrow> string \<Rightarrow> ('w Shared, RestOp list \<times> go_error option) prog" where
  "ep_prog env shard ep name_prefix crud_hash_key =
     bind_prog (reads (\<lambda>s. lister_Get ''service'' (ServiceInformer (snd s)) (ep_Namespace ep) (ep_Name ep))) (\<lambda>r.
     case r of
       Inl err \<Rightarrow> Return ([], Some (SkipSyncError ''Skip sync''))
     | Inr svc \<Rightarrow>
         bind_prog (local (ready_ports svc (ep_Subsets ep) [])) (\<lambda>ports.
         case ports of
           None \<Rightarrow> Return ([], None)
         | Some port_protocols \<Rightarrow>
             bind_prog (pools_prog env ep name_prefix crud_hash_key port_protocols) (\<lambda>pools.
             case pools of
               None \<Rightarrow> Return ([], None)
             | Some (pool_names, service_metadata) \<Rightarrow>
                 bind_prog (fold_prog (\<lambda>n ops. query (\<lambda>st. pool_rest_op env st ep service_metadata n ops)) pool_names [])
                   (\<lambda>rest_ops.
                     if name_prefix = '''' then
                       bind_prog (rest_prog env shard rest_ops) (\<lambda>(err, rest_ops').
                       bind_prog (each_prog ep_record_prog rest_ops') (\<lambda>_. Return ([], None)))
                     else Return (rest_ops, None)))))"

text \<open>The handler of Services after it looked its Endpoints up.\<close>

definition svc_body ::
  "'w Env \<Rightarrow> uint32 \<Rightarrow> Service \<Rightarrow> go_error + Endpoints \<Rightarrow> ('w Shared, RestOp list \<times> go_error option) prog" where
  "svc_body env shard svc found =
     (case found of
        Inl err \<Rightarrow>
          Return ([], Some (ErrorString (''Svc ep Namespace '' @ svc_Namespace svc @ '' Name ''
                                         @ svc_Name svc @ '' not found'')))
      | Inr ep \<Rightarrow>
          bind_prog (reads (\<lambda>s. svc_unchanged (fst s) svc)) (\<lambda>unchanged.
          if unchanged then Return ([], None)
          else
            bind_prog (local (CrudHashKey ''Service'' (KService svc))) (\<lambda>crud_hash_key.
            bind_prog (ep_prog env shard ep (svc_Name svc) crud_hash_key) (\<lambda>(pool_rest_ops, ep_err).
            bind_prog (local (svc_vs_meta svc crud_hash_key pool_rest_ops)) (\<lambda>avi_vs_meta.
            bind_prog (rest_prog env shard
                (pool_rest_ops @ AviVsBuild (ord_poolmap env) (env_version env) avi_vs_meta)) (\<lambda>(err, rest_ops').
            case err of
              Some e \<Rightarrow> bind_prog (rollback_prog env shard rest_ops') (\<lambda>_. Return ([], Some e))
            | None \<Rightarrow>
                bind_prog (each_prog (svc_record_prog \<lparr>nn_Namespace = svc_Namespace svc, nn_Name = svc_Name svc\<rparr>) rest_ops')
                  (\<lambda>_. Return ([], None))))))))"

definition svc_prog :: "'w Env \<Rightarrow> uint32 \<Rightarrow> Service \<Rightarrow> ('w Shared, RestOp list \<times> go_error option) prog" where
  "svc_prog env shard svc =
     bind_prog (reads (\<lambda>s. lister_Get ''endpoints'' (EpInformer (snd s)) (svc_Namespace svc) (svc_Name svc)))
       (svc_body env shard svc)"

definition drop_step :: "string \<Rightarrow> iface \<Rightarrow> 'w K8sState \<Rightarrow> (unit \<times> 'w K8sState) go" where
  "drop_step ns x st =
     go_bind (drop_pool ns x (PoolCache (avi_obj_cache st))) (\<lambda>c. Ok ((), set_pool_cache st c))"

definition unlink_step :: "NamespaceName \<Rightarrow> iface \<Rightarrow> 'w K8sState \<Rightarrow> (unit \<times> 'w K8sState) go" where
  "unlink_step key x st =
     Ok ((), if has_prefix_elem ''service'' x
             then st\<lparr>svc_to_pool_cache := AviMultiCacheDeleteVal (svc_to_pool_cache st) (INsName key) x\<rparr>
             else st)"

definition forget_prog :: "'w Env \<Rightarrow> string \<Rightarrow> string \<Rightarrow> ('w Shared, unit) prog" where
  "forget_prog env ns name =
     (let cache_key = \<lparr>nn_Namespace = ns, nn_Name = name\<rparr>
      in bind_prog (reads (\<lambda>s. K8sEpSvcToPoolCacheGet cache_key (fst s))) (\<lambda>row.
         bind_prog
           (case row of
              None \<Rightarrow> Return ()
            | Some ppool_map \<Rightarrow>
                each_prog (\<lambda>x. update (drop_step ns x)) (ord_pools env ppool_map)) (\<lambda>_.
         bind_prog (reads (\<lambda>s. K8sEpSvcToPoolCacheGet cache_key (fst s))) (\<lambda>row.
         bind_prog
           (case row of
              None \<Rightarrow> Return ()
            | Some mkey_map \<Rightarrow>
                each_prog (\<lambda>x. update (unlink_step cache_key x)) (ord_pools env mkey_map)) (\<lambda>_.
         update (\<lambda>st. Ok ((), set_vs_cache st (AviVsCacheDel (VsCache (avi_obj_cache st)) cache_key))))))))"

text \<open>The two requests of a deletion: finding the virtual service, and the macro call.\<close>

definition find_vs ::
  "'w Env \<Rightarrow> uint32 \<Rightarrow> string \<Rightarrow> string \<Rightarrow> 'w K8sState \<Rightarrow> ((go_error option \<times> jval option) \<times> 'w K8sState) go" where
  "find_vs env shard ns name st =
     go_bind (go_index (AviClient st) (unat shard)) (\<lambda>client.
       let sess = SetTenant ns client;
           (r, w) = api_GetObjectByName (env_api env) sess ''virtualservice'' name (world st)
       in Ok (r, st\<lparr>AviClient := (AviClient st)[unat shard := sess], world := w\<rparr>))"

definition delete_vs :: "'w Env \<Rightarrow> uint32 \<Rightarrow> jval option \<Rightarrow> 'w K8sState \<Rightarrow> (unit \<times> 'w K8sState) go" where
  "delete_vs env shard obj st =
     go_bind (go_index (AviClient st) (unat shard)) (\<lambda>sess.
       let payload = ObjMacro \<lparr>macro_ModelName = ''VirtualService'',
                               macro_Data = DataJson (case obj of Some v \<Rightarrow> v | None \<Rightarrow> JNull)\<rparr>;
           path = ''/api/macro/?created_by='' @ OSHIFT_K8S_CLOUD_CONNECTOR;
           (rerror, w) = api_Delete (env_api env) sess path (Some payload) (world st)
       in Ok ((), st\<lparr>world := w\<rparr>))"

definition svc_delete_prog :: "'w Env \<Rightarrow> uint32 \<Rightarrow> string \<Rightarrow> ('w Shared, RestOp list \<times> go_error option) prog" where
  "svc_delete_prog env shard key =
     bind_prog (local (go_index (SplitN 3 ''/'' key) 2)) (\<lambda>ns_name.
     case SplitMetaNamespaceKey ns_name of
       Inl err \<Rightarrow> Return ([], Some err)
     | Inr (ns, name) \<Rightarrow>
         bind_prog (update (find_vs env shard ns name)) (\<lambda>(err, obj).
         case err of
           Some e \<Rightarrow> Return ([], Some e)
         | None \<Rightarrow>
             bind_prog (update (delete_vs env shard obj)) (\<lambda>_.
             bind_prog (forget_prog env ns name) (\<lambda>_. Return ([], None)))))"

section \<open>syncHandler\<close>

definition update_prog ::
  "'w Env \<Rightarrow> string \<Rightarrow> string \<Rightarrow> uint32 \<Rightarrow> k8s_obj \<Rightarrow> ('w Shared, go_error option) prog" where
  "update_prog env obj_type hash wid obj =
     (if obj_type = ''Endpoints'' then
        (case obj of
           KEndpoints ep \<Rightarrow> bind_prog (ep_prog env wid ep '''' hash) (\<lambda>(ops, err). Return err)
         | _ \<Rightarrow> local (Panic TypeAssertionFailed))
      else if obj_type = ''Service'' then
        (case obj of
           KService svc \<Rightarrow> bind_prog (svc_prog env wid svc) (\<lambda>(ops, err). Return err)
         | _ \<Rightarrow> local (Panic TypeAssertionFailed))
      else Return None)"

definition delete_prog ::
  "'w Env \<Rightarrow> string \<Rightarrow> string \<Rightarrow> uint32 \<Rightarrow> go_error \<Rightarrow> ('w Shared, go_error option) prog" where
  "delete_prog env obj_type key wid err =
     (if obj_type = ''Endpoints'' then query (\<lambda>st. go_bind (K8sEp_K8sObjDelete wid key st) (\<lambda>(ops, err, _). Ok err))
      else if obj_type = ''Service'' then bind_prog (svc_delete_prog env wid key) (\<lambda>(ops, err). Return err)
      else Return (Some err))"

definition sync_prog :: "'w Env \<Rightarrow> string \<Rightarrow> uint32 \<Rightarrow> ('w Shared, go_error option) prog" where
  "sync_prog env key wid =
     (case SplitN 3 ''/'' key of
        [obj_type, hash, nskey] \<Rightarrow>
          (case SplitMetaNamespaceKey nskey of
             Inl err \<Rightarrow> Return None
           | Inr (namespace, name) \<Rightarrow>
               bind_prog (reads (\<lambda>s. lookup_obj (snd s) obj_type namespace name)) (\<lambda>r.
               case r of
                 None \<Rightarrow> Return (Some (ErrorString ''Unable to handle unknown obj type''))
               | Some (Inl err) \<Rightarrow>
                   if IsNotFound err then delete_prog env obj_type key wid err else Return (Some err)
               | Some (Inr obj) \<Rightarrow> update_prog env obj_type hash wid obj))
      | _ \<Rightarrow> Return None)"

section \<open>The steps are those of the sequential definitions\<close>

lemma at_stores_sel [simp]:
  "env_api (at_stores env infs) = env_api env" "env_version (at_stores env infs) = env_version env"
  "env_informers (at_stores env infs) = infs" "ord_ports (at_stores env infs) = ord_ports env"
  "ord_pools (at_stores env infs) = ord_pools env" "ord_poolmap (at_stores env infs) = ord_poolmap env"
  by (simp_all add: at_stores_def)

lemma set_k8s_simps [simp]:
  "fst (set_k8s st s) = st" "snd (set_k8s st s) = snd s" "set_k8s st (st', infs) = (st, infs)"
  by (simp_all add: set_k8s_def)

lemma run_query [run_simps]: "run (query g) s = go_bind (g (fst s)) (\<lambda>a. Ok (a, s))"
  by (simp add: query_def run_act)

lemma run_update [run_simps]: "run (update h) s = go_bind (h (fst s)) (\<lambda>(a, st). Ok (a, set_k8s st s))"
  by (simp add: update_def run_act)

lemma run_client [run_simps]:
  "run (client_prog shard) s = go_bind (go_index (AviClient (fst s)) (unat shard)) (\<lambda>a. Ok (a, s))"
  by (simp add: client_prog_def run_query)

text \<open>The parts of the shared state the loops write.\<close>

interpretation k8s_part: component fst set_k8s
  by unfold_locales (simp_all add: set_k8s_def)

interpretation pool_part: component "\<lambda>s. PoolCache (avi_obj_cache (fst s))" "\<lambda>c s. set_k8s (set_pool_cache (fst s) c) s"
  by unfold_locales (simp_all add: set_k8s_def set_pool_cache_def)

interpretation row_part: component "\<lambda>s. svc_to_pool_cache (fst s)" "\<lambda>c s. set_k8s ((fst s)\<lparr>svc_to_pool_cache := c\<rparr>) s"
  by unfold_locales (simp_all add: set_k8s_def)

lemma run_batch:
  assumes "unat shard < length (AviClient st)"
  shows "run (batch_prog env shard ops) (st, infs) =
    (case AviRestOperate (env_api env) (AviClient st ! unat shard) ops (world st) of
       (err, ops', sess, w) \<Rightarrow>
         Ok ((err, ops'), st\<lparr>AviClient := (AviClient st)[unat shard := sess], world := w\<rparr>, infs))"
  using assms
proof (induction ops arbitrary: st)
  case (Cons op ops)
  let ?sess = "op_session op (AviClient st ! unat shard)"
  obtain op' w where call: "rest_call (env_api env) ?sess op (world st) = (op', w)" by fastforce
  let ?st = "st\<lparr>AviClient := (AviClient st)[unat shard := ?sess], world := w\<rparr>"
  have send: "send_op env shard op st = Ok (op', ?st)"
    using Cons.prems call by (simp add: send_op_def go_index_Ok op_session_def)
  have "run (batch_prog env shard ops) (?st, infs) =
      (case AviRestOperate (env_api env) ?sess ops w of
         (err, ops', sess, w') \<Rightarrow>
           Ok ((err, ops'), st\<lparr>AviClient := (AviClient st)[unat shard := sess], world := w'\<rparr>, infs))"
    using Cons.IH [of ?st] Cons.prems by simp
  then show ?case
    using send call
    by (cases "op_Err op'") (simp_all add: run_bind run_update op_session_def split: prod.splits)
qed simp

lemma run_rest [run_simps]:
  "run (rest_prog env shard ops) (st, infs) =
     go_bind (rest_operate env shard ops st) (\<lambda>(err, ops', st'). Ok ((err, ops'), st', infs))"
  by (cases "unat shard < length (AviClient st)")
    (auto simp: rest_prog_def rest_operate_def run_bind run_client go_simps run_batch split: prod.splits)

lemma run_undo:
  assumes "unat shard < length (AviClient st)"
  shows "run (each_prog (\<lambda>op. update (undo_op env shard op)) ops) (st, infs) =
    go_bind (go_fold (rollback_op (env_api env) (AviClient st ! unat shard)) ops (world st))
      (\<lambda>w. Ok ((), st\<lparr>world := w\<rparr>, infs))"
  using assms
proof (induction ops arbitrary: st)
  case (Cons op ops)
  from Cons.IH [of "st\<lparr>world := w\<rparr>" for w] Cons.prems show ?case
    by (cases "rollback_op (env_api env) (AviClient st ! unat shard) op (world st)")
      (simp_all add: run_bind run_update undo_op_def go_index_Ok)
qed simp

lemma run_rollback [run_simps]:
  "run (rollback_prog env shard ops) (st, infs) =
     go_bind (rollback env shard ops st) (\<lambda>st'. Ok ((), st', infs))"
  by (cases "unat shard < length (AviClient st)")
    (simp_all add: rollback_prog_def rollback_def run_bind run_client go_simps run_undo go_bind_assoc)

lemma run_pool_add [run_simps]:
  "run (pool_add_prog op) s =
     go_bind (AviPoolCacheAdd (PoolCache (avi_obj_cache (fst s))) op)
       (\<lambda>(err, c). Ok ((), set_k8s (set_pool_cache (fst s) c) s))"
proof -
  have each: "run (each_prog (\<lambda>resp. update (pool_add_step t resp)) es) s =
      go_bind (go_fold (pool_cache_resp t) es (PoolCache (avi_obj_cache (fst s))))
        (\<lambda>c. Ok ((), set_k8s (set_pool_cache (fst s) c) s))" for t es
    by (rule pool_part.run_each) (simp add: run_update pool_add_step_def go_bind_assoc)
  show ?thesis
    by (cases "pool_resp_elems op ''pool''")
      (auto simp: pool_add_prog_def AviPoolCacheAdd_def run_bind run_local each go_bind_assoc
        set_k8s_def set_pool_cache_def split: sum.split)
qed

lemma run_svc_pool_add [run_simps]:
  "run (svc_pool_add_prog key pre op) s =
     go_bind (K8sEpSvcToPoolCacheAdd key pre op (fst s)) (\<lambda>(err, st). Ok ((), set_k8s st s))"
proof -
  have each: "run (each_prog (\<lambda>resp. update (\<lambda>st.
        Ok ((), st\<lparr>svc_to_pool_cache := svc_pool_resp pre key resp (svc_to_pool_cache st)\<rparr>))) es) s =
      Ok ((), set_k8s ((fst s)\<lparr>svc_to_pool_cache := fold (svc_pool_resp pre key) es (svc_to_pool_cache (fst s))\<rparr>) s)" for es
    by (rule row_part.run_each_pure) (simp add: run_update)
  show ?thesis
    by (cases "pool_resp_elems op ''pool''")
      (auto simp: svc_pool_add_prog_def K8sEpSvcToPoolCacheAdd_def AviSvcToPoolCacheAdd_def run_bind run_local
        each set_k8s_def split: sum.split)
qed

lemma vs_cache_resps_Cons:
  "vs_cache_resps tenant (resp # resps) c =
     go_bind (vs_cache_resps tenant [resp] c) (\<lambda>(err, c').
       if err = None then vs_cache_resps tenant resps c' else Ok (err, c'))"
  by (cases "must_string (jget resp ''cloud_config_cksum'')"; cases "must_string (jget resp ''service_metadata'')")
    (auto split: option.split)

lemma run_vs_resps:
  "run (vs_resps_prog tenant resps) s =
     go_bind (vs_cache_resps tenant resps (VsCache (avi_obj_cache (fst s))))
       (\<lambda>(err, c). Ok ((), set_k8s (set_vs_cache (fst s) c) s))"
proof (induction resps arbitrary: s)
  case (Cons resp resps)
  then show ?case
    by (subst vs_cache_resps_Cons, cases "vs_cache_resps tenant [resp] (VsCache (avi_obj_cache (fst s)))")
      (auto simp: run_bind run_update vs_add_step_def set_vs_cache_def set_k8s_def simp del: vs_cache_resps.simps split: prod.splits)
qed (simp add: set_vs_cache_def set_k8s_def)

lemma run_vs_add [run_simps]:
  "run (vs_add_prog op) s =
     go_bind (AviVsCacheAdd (VsCache (avi_obj_cache (fst s))) op)
       (\<lambda>(err, c). Ok ((), set_k8s (set_vs_cache (fst s) c) s))"
  by (cases "pool_resp_elems op ''virtualservice''")
    (auto simp: vs_add_prog_def AviVsCacheAdd_def run_bind run_local run_vs_resps set_vs_cache_def set_k8s_def split: sum.split)

lemma run_ep_record [run_simps]:
  "run (each_prog ep_record_prog ops) s = go_bind (go_fold add_pool_op ops (fst s)) (\<lambda>st. Ok ((), set_k8s st s))"
proof (rule k8s_part.run_each)
  show "run (ep_record_prog op) s = go_bind (add_pool_op op (fst s)) (\<lambda>st. Ok ((), set_k8s st s))"
    for op and s :: "'w Shared"
    by (cases "AviPoolCacheAdd (PoolCache (avi_obj_cache (fst s))) op")
      (auto simp: ep_record_prog_def add_pool_op_def run_pool_add set_k8s_def)
qed

lemma run_svc_record [run_simps]:
  "run (each_prog (svc_record_prog key) ops) s = go_bind (go_fold (record_op key) ops (fst s)) (\<lambda>st. Ok ((), set_k8s st s))"
proof (rule k8s_part.run_each)
  show "run (svc_record_prog key op) s = go_bind (record_op key op (fst s)) (\<lambda>st. Ok ((), set_k8s st s))"
    for op and s :: "'w Shared"
  proof (cases "op_Err op = None \<and> op_Model op = ''Pool''")
    case True
    then show ?thesis
      by (cases "AviPoolCacheAdd (PoolCache (avi_obj_cache (fst s))) op")
        (auto simp: svc_record_prog_def record_op_def run_bind run_pool_add run_svc_pool_add set_k8s_def go_bind_assoc case_prod_unfold)
  next
    case False
    then show ?thesis
      by (cases "AviVsCacheAdd (VsCache (avi_obj_cache (fst s))) op")
        (auto simp: svc_record_prog_def record_op_def run_vs_add set_k8s_def)
  qed
qed

lemma run_pools [run_simps]:
  "run (pools_prog env ep pre crud pps) s =
     go_bind (pools_to_update env (fst s) ep pre crud pps) (\<lambda>r. Ok (r, s))"
proof -
  have "run (fold_prog (\<lambda>x acc. query (\<lambda>st. visit_pool t (PoolCache (avi_obj_cache st)) x acc)) xs a) s =
      go_bind (go_fold (visit_pool t (PoolCache (avi_obj_cache (fst s)))) xs a) (\<lambda>r. Ok (r, s))" for t xs a
    by (rule run_fold_reads) (simp add: run_query)
  then show ?thesis
    by (auto simp: pools_prog_def pools_to_update_def run_bind run_reads go_bind_assoc split: option.split)
qed

lemma pools_to_update_stores [simp]:
  "pools_to_update (at_stores env infs) st ep pre crud pps = pools_to_update env st ep pre crud pps"
  by (simp add: pools_to_update_def cong: option.case_cong)

lemma rest_operate_stores [simp]: "rest_operate (at_stores env infs) shard ops st = rest_operate env shard ops st"
  by (simp add: rest_operate_def)

lemma rollback_stores [simp]: "rollback (at_stores env infs) shard ops st = rollback env shard ops st"
  by (simp add: rollback_def)

lemma pool_rest_op_stores [simp]: "pool_rest_op (at_stores env infs) = pool_rest_op env"
  by (intro ext) (simp add: pool_rest_op_def)

lemma run_ep_prog [run_simps]:
  "run (ep_prog env shard ep pre crud) (st, infs) =
     go_bind (K8sEp_K8sObjCrUpd (at_stores env infs) shard ep pre crud st) (\<lambda>(ops, err, st'). Ok ((ops, err), st', infs))"
proof -
  have ops: "run (fold_prog (\<lambda>n ops. query (\<lambda>st. pool_rest_op env st ep md n ops)) ns a) (st, infs) =
      go_bind (go_fold (pool_rest_op env st ep md) ns a) (\<lambda>r. Ok (r, st, infs))" for md ns a
    by (rule run_fold_reads) (simp add: run_query)
  show ?thesis
  proof (cases "lister_Get ''service'' (ServiceInformer infs) (ep_Namespace ep) (ep_Name ep)")
    case (Inl e)
    then show ?thesis by (simp add: ep_prog_def K8sEp_K8sObjCrUpd_def run_simps)
  next
    case (Inr svc)
    then show ?thesis
      by (auto simp: ep_prog_def K8sEp_K8sObjCrUpd_def run_simps ops go_bind_assoc
        intro!: go_bind_cong split: option.split)
  qed
qed

lemma run_svc_body:
  assumes "lister_Get ''endpoints'' (EpInformer read) (svc_Namespace svc) (svc_Name svc) = found"
    "ServiceInformer read = ServiceInformer infs"
  shows "run (svc_body env shard svc found) (st, infs) =
    go_bind (K8sSvc_K8sObjCrUpd (at_stores env read) shard svc st) (\<lambda>(ops, err, st'). Ok ((ops, err), st', infs))"
proof (cases found)
  case (Inl e)
  with assms(1) show ?thesis by (simp add: svc_body_def K8sSvc_K8sObjCrUpd_def run_simps)
next
  case (Inr ep)
  have ep: "K8sEp_K8sObjCrUpd (at_stores env infs) = K8sEp_K8sObjCrUpd (at_stores env read)"
    using assms(2) by (intro ext) (auto simp: K8sEp_K8sObjCrUpd_def intro!: go_bind_cong split: sum.split option.split)
  show ?thesis
    using assms(1) Inr
    by (auto simp: svc_body_def K8sSvc_K8sObjCrUpd_def run_simps ep go_bind_assoc Let_def
      intro!: go_bind_cong split: option.split)
qed

lemma run_svc_prog [run_simps]:
  "run (svc_prog env shard svc) (st, infs) =
     go_bind (K8sSvc_K8sObjCrUpd (at_stores env infs) shard svc st) (\<lambda>(ops, err, st'). Ok ((ops, err), st', infs))"
  by (simp add: svc_prog_def run_simps run_svc_body [where read = infs])

lemma run_forget [run_simps]:
  "run (forget_prog env ns name) (st, infs) = go_bind (forget_svc env ns name st) (\<lambda>st'. Ok ((), st', infs))"
proof -
  have drop: "run (each_prog (\<lambda>x. update (drop_step ns x)) xs) s =
      go_bind (go_fold (drop_pool ns) xs (PoolCache (avi_obj_cache (fst s))))
        (\<lambda>c. Ok ((), set_k8s (set_pool_cache (fst s) c) s))" for xs and s :: "'a Shared"
    by (rule pool_part.run_each) (simp add: run_update drop_step_def go_bind_assoc)
  have rows: "run (each_prog (\<lambda>x. update (unlink_step key x)) xs) s =
      Ok ((), set_k8s ((fst s)\<lparr>svc_to_pool_cache := fold (\<lambda>x mc. if has_prefix_elem ''service'' x
        then AviMultiCacheDeleteVal mc (INsName key) x else mc) xs (svc_to_pool_cache (fst s))\<rparr>) s)"
    for xs key and s :: "'a Shared"
    by (rule row_part.run_each_pure) (simp add: run_update unlink_step_def)
  show ?thesis
    by (auto simp: forget_prog_def forget_svc_def K8sEpSvcToPoolCacheGet_def K8sEpSvcToPoolCacheDel_def
      AviSvcToPoolCacheDel_def Let_def run_simps drop rows go_bind_assoc set_pool_cache_def set_vs_cache_def
      intro!: go_bind_cong split: option.split)
qed

lemma run_svc_delete [run_simps]:
  "run (svc_delete_prog env shard key) (st, infs) =
     go_bind (K8sSvc_K8sObjDelete env shard key st) (\<lambda>(ops, err, st'). Ok ((ops, err), st', infs))"
proof (cases "go_index (SplitN 3 ''/'' key) 2")
  case (Ok ns_name)
  show ?thesis
  proof (cases "\<exists>nn. SplitMetaNamespaceKey ns_name = Inr nn \<and> unat shard < length (AviClient st)")
    case True
    then obtain ns name where nn: "SplitMetaNamespaceKey ns_name = Inr (ns, name)"
      and i: "unat shard < length (AviClient st)" by force
    obtain err obj w where g: "api_GetObjectByName (env_api env) (SetTenant ns (AviClient st ! unat shard))
        ''virtualservice'' name (world st) = ((err, obj), w)" by (metis surj_pair)
    show ?thesis
      using Ok nn i g
      by (cases err) (auto simp: svc_delete_prog_def K8sSvc_K8sObjDelete_def run_simps find_vs_def delete_vs_def
        go_index_Ok go_bind_assoc Let_def intro!: go_bind_cong split: prod.split)
  next
    case False
    with Ok show ?thesis
      by (cases "SplitMetaNamespaceKey ns_name")
        (auto simp: svc_delete_prog_def K8sSvc_K8sObjDelete_def run_simps find_vs_def go_index_def)
  qed
qed (simp add: svc_delete_prog_def K8sSvc_K8sObjDelete_def run_simps)

lemma K8sSvc_K8sObjDelete_stores [simp]:
  "K8sSvc_K8sObjDelete (at_stores env infs) shard key st = K8sSvc_K8sObjDelete env shard key st"
proof -
  have "forget_svc (at_stores env infs) = forget_svc env"
    by (intro ext) (simp add: forget_svc_def K8sEpSvcToPoolCacheDel_def cong: option.case_cong)
  then show ?thesis
    by (auto simp: K8sSvc_K8sObjDelete_def Let_def intro!: go_bind_cong split: sum.split option.split prod.split)
qed

lemma run_update_prog [run_simps]:
  "run (update_prog env t h wid obj) (st, infs) =
     go_bind (handle_update (at_stores env infs) t h wid obj st) (\<lambda>(err, st'). Ok (err, st', infs))"
  by (cases obj) (simp_all add: update_prog_def handle_update_def run_simps go_bind_assoc case_prod_unfold del: split_paired_All)

lemma run_delete_prog [run_simps]:
  "run (delete_prog env t key wid e) (st, infs) =
     go_bind (handle_delete (at_stores env infs) t key wid e st) (\<lambda>(err, st'). Ok (err, st', infs))"
  by (simp add: delete_prog_def handle_delete_def run_simps go_bind_assoc case_prod_unfold K8sEp_K8sObjDelete_def)

lemma run_sync_prog [run_simps]:
  "run (sync_prog env key wid) (st, infs) =
     go_bind (syncHandler infs (at_stores env infs) key wid st) (\<lambda>(err, st'). Ok (err, st', infs))"
  by (auto simp: sync_prog_def syncHandler_def run_simps split: list.split sum.split option.split)

section \<open>What every step keeps\<close>

text \<open>The handlers' steps keep the invariant of the caches and the number of clients.\<close>

definition kept :: "'w K8sState \<Rightarrow> 'w K8sState \<Rightarrow> bool" where
  "kept st st' \<longleftrightarrow> (st_ok st \<longrightarrow> st_ok st' \<and> length (AviClient st') = length (AviClient st))"

definition step_kept :: "'w Shared \<Rightarrow> 'w Shared \<Rightarrow> bool" where
  "step_kept s s' \<longleftrightarrow> kept (fst s) (fst s') \<and> snd s' = snd s"

lemma kept_refl [simp]: "kept st st"
  by (simp add: kept_def)

lemma step_kept_refl [simp]: "step_kept s s"
  by (simp add: step_kept_def)

lemma keeps_query: "keeps step_kept (query g)"
  unfolding query_def by (rule keeps_act) auto

lemma keeps_update:
  assumes "\<And>st a st'. h st = Ok (a, st') \<Longrightarrow> kept st st'"
  shows "keeps step_kept (update h)"
  unfolding update_def by (rule keeps_act) (auto simp: step_kept_def assms)

lemma kept_send: "send_op env shard op st = Ok (a, st') \<Longrightarrow> kept st st'"
  by (auto simp: send_op_def kept_def st_ok_def Let_def case_prod_unfold)

lemma kept_undo: "undo_op env shard op st = Ok (a, st') \<Longrightarrow> kept st st'"
  by (auto simp: undo_op_def kept_def st_ok_def)

lemma kept_pool_add: "pool_add_step tenant resp st = Ok (a, st') \<Longrightarrow> kept st st'"
  using pool_cache_resp_ok [of "PoolCache (avi_obj_cache st)"]
  by (auto simp: pool_add_step_def kept_def st_ok_def)

lemma kept_vs_add: "vs_add_step tenant resp st = Ok (a, st') \<Longrightarrow> kept st st'"
  using vs_cache_resps_ok [of tenant "[resp]" "VsCache (avi_obj_cache st)"]
  by (auto simp: vs_add_step_def kept_def st_ok_def simp del: vs_cache_resps.simps)

lemmas keeps_intros = keeps_bind keeps_fold keeps_each keeps_local keeps_Return keeps_query
  keeps_reads [where R = step_kept, OF step_kept_refl] keeps_update

lemma keeps_find: "keeps step_kept (update (find_vs env shard ns name))"
  by (rule keeps_update) (auto simp: find_vs_def kept_def st_ok_def Let_def case_prod_unfold)

lemma keeps_delete: "keeps step_kept (update (delete_vs env shard obj))"
  by (rule keeps_update) (auto simp: delete_vs_def kept_def st_ok_def Let_def case_prod_unfold)

lemma batch_keeps: "keeps step_kept (batch_prog env shard ops)"
  by (induction ops) (auto intro!: keeps_intros kept_send split: option.split)

lemma rest_keeps: "keeps step_kept (rest_prog env shard ops)"
  by (auto simp: rest_prog_def client_prog_def intro!: keeps_intros batch_keeps)

lemma rollback_keeps: "keeps step_kept (rollback_prog env shard ops)"
  by (auto simp: rollback_prog_def client_prog_def intro!: keeps_intros kept_undo)

lemma pool_add_keeps: "keeps step_kept (pool_add_prog op)"
  by (auto simp: pool_add_prog_def intro!: keeps_intros kept_pool_add split: sum.split)

lemma svc_pool_add_keeps: "keeps step_kept (svc_pool_add_prog key pre op)"
  by (auto simp: svc_pool_add_prog_def kept_def st_ok_def svc_pool_resp_ok intro!: keeps_intros split: sum.split)

lemma vs_add_keeps: "keeps step_kept (vs_add_prog op)"
proof -
  have "keeps step_kept (vs_resps_prog t es)" for t es
    by (induction t es rule: vs_resps_prog.induct) (auto intro!: keeps_intros kept_vs_add)
  then show ?thesis by (auto simp: vs_add_prog_def intro!: keeps_intros split: sum.split)
qed

lemma record_keeps: "keeps step_kept (ep_record_prog op)" "keeps step_kept (svc_record_prog key op)"
  by (auto simp: ep_record_prog_def svc_record_prog_def
      intro!: keeps_intros pool_add_keeps svc_pool_add_keeps vs_add_keeps)

lemma ep_keeps: "keeps step_kept (ep_prog env shard ep pre crud)"
  by (auto simp: ep_prog_def pools_prog_def intro!: keeps_intros rest_keeps record_keeps split: sum.split option.split)

lemma svc_body_keeps: "keeps step_kept (svc_body env shard svc found)"
  by (auto simp: svc_body_def intro!: keeps_intros ep_keeps rest_keeps rollback_keeps record_keeps split: sum.split option.split)

lemma svc_keeps: "keeps step_kept (svc_prog env shard svc)"
  by (auto simp: svc_prog_def intro!: keeps_intros svc_body_keeps)

lemma kept_drop: "drop_step ns x st = Ok (a, st') \<Longrightarrow> kept st st'"
  by (auto simp: drop_step_def drop_pool_def kept_def st_ok_def cache_ok_del Let_def split: iface.splits if_splits)

lemma kept_unlink: "unlink_step key x st = Ok (a, st') \<Longrightarrow> kept st st'"
  by (auto simp: unlink_step_def kept_def st_ok_def svc_pool_ok_def avi_mcache.rels avi_mcache.oks split: if_splits)

lemma kept_forget_vs: "kept st (set_vs_cache st (AviVsCacheDel (VsCache (avi_obj_cache st)) key))"
  by (simp add: kept_def st_ok_def cache_ok_del)

lemma svc_delete_keeps: "keeps step_kept (svc_delete_prog env shard key)"
proof -
  have "keeps step_kept (forget_prog env ns name)" for ns name
    by (auto simp: forget_prog_def Let_def kept_forget_vs intro!: keeps_intros dest: kept_drop kept_unlink split: option.split)
  then show ?thesis
    by (auto simp: svc_delete_prog_def intro!: keeps_bind keeps_local keeps_Return keeps_find keeps_delete split: sum.split option.split)
qed

lemma update_keeps: "keeps step_kept (update_prog env t h wid obj)"
  by (cases obj) (auto simp: update_prog_def simp del: local.simps intro!: keeps_intros ep_keeps svc_keeps)

lemma delete_keeps: "keeps step_kept (delete_prog env t key wid e)"
  by (auto simp: delete_prog_def intro!: keeps_intros svc_delete_keeps)

lemma sync_keeps: "keeps step_kept (sync_prog env key wid)"
  by (auto simp: sync_prog_def intro!: keeps_intros update_keeps delete_keeps split: list.split sum.split option.split)

section \<open>Properties\<close>

text \<open>
  The steps of the handlers put together are the handlers. Run without interference, the
  program of atomic steps that \<^verbatim>\<open>syncHandler\<close> is makes the same changes, returns the same error and
  panics on the same inputs as the sequential definition, in which the informer stores do not
  change.
\<close>

theorem steps_make_syncHandler:
  "run (sync_prog env key wid) (st, infs) =
     (case syncHandler infs (env\<lparr>env_informers := infs\<rparr>) key wid st of
        Ok (err, st') \<Rightarrow> Ok (err, (st', infs))
      | Panic p \<Rightarrow> Panic p)"
  by (simp add: run_sync_prog at_stores_def split: go.split)

end
