(* ===== verification/Avi_Workers.thy ===== *)
theory Avi_Workers
  imports Avi_Steps "HOL-Library.Multiset"
begin

text \<open>
  The controller at run time: the goroutines of \<^verbatim>\<open>Run\<close> (each a \<^verbatim>\<open>wait.Until\<close> around \<^verbatim>\<open>runWorker\<close>), the
  informers with their stores and events, the waiting loops of the queues and the shutdown, as
  a step relation on the shared state. Each step is a region the code runs under a lock, or one
  access of a handler to what it shares with the others (\<open>Avi_Steps\<close>): the steps of two handlers
  interleave in every order, and the stores change between them.

  The invariant \<open>sys_ok\<close> ties the mask of free worker numbers to the numbers the goroutines
  hold, and the items a queue is processing to the items the goroutines work on.
\<close>

text \<open>
  A goroutine is outside \<^verbatim>\<open>runWorker\<close>, has entered it, serves a queue, or works on an item: \<open>p\<close> is
  what is left of the handler.
\<close>

datatype 'w worker = Idle | Entering | Serving uint32 | Busy uint32 iface "('w Shared, go_error option) prog"

record 'w Sys =
  ctl :: "'w AviController"
  workers :: "nat \<Rightarrow> 'w worker"
  stores :: Informers
  stopped :: bool

definition item_prog :: "'w Env \<Rightarrow> uint32 \<Rightarrow> iface \<Rightarrow> ('w Shared, go_error option) prog" where
  "item_prog env wid obj = (case obj of IStr ev \<Rightarrow> sync_prog env ev wid | _ \<Rightarrow> Return None)"

text \<open>The events of the three informers; a handler that returns leaves the controller \<open>c'\<close>.\<close>

inductive informer_event :: "'w AviController \<Rightarrow> 'w AviController \<Rightarrow> bool" where
  "ep_AddFunc qe obj c = Ok (Some c') \<Longrightarrow> informer_event c c'"
| "ep_UpdateFunc qe old obj c = Ok (Some c') \<Longrightarrow> informer_event c c'"
| "ep_DeleteFunc qe obj c = Ok (Some c') \<Longrightarrow> informer_event c c'"
| "svc_AddFunc qe obj c = Ok (Some c') \<Longrightarrow> informer_event c c'"
| "svc_UpdateFunc qe old obj c = Ok (Some c') \<Longrightarrow> informer_event c c'"
| "svc_DeleteFunc qe obj c = Ok (Some c') \<Longrightarrow> informer_event c c'"
| "ing_AddFunc qe obj c = Ok (Some c') \<Longrightarrow> informer_event c c'"
| "ing_UpdateFunc qe old obj c = Ok (Some c') \<Longrightarrow> informer_event c c'"
| "ing_DeleteFunc qe obj c = Ok (Some c') \<Longrightarrow> informer_event c c'"

inductive sys_step :: "'w Sys \<Rightarrow> 'w Sys \<Rightarrow> bool" where
  enter: "\<lbrakk>g < unat (num_workers (ctl s)); workers s g = Idle; \<not> stopped s\<rbrakk> \<Longrightarrow>
   sys_step s (s\<lparr>workers := (workers s)(g := Entering)\<rparr>)"
| pick: "\<lbrakk>g < unat (num_workers (ctl s)); workers s g = Entering;
     pick_worker_id (num_workers (ctl s)) (worker_id (ctl s)) = (wid, m)\<rbrakk> \<Longrightarrow>
   sys_step s (s\<lparr>ctl := (ctl s)\<lparr>worker_id := m\<rparr>, workers := (workers s)(g := Serving wid)\<rparr>)"
| take: "\<lbrakk>workers s g = Serving wid; take_item wid (ctl s) = Ok (Work obj, c)\<rbrakk> \<Longrightarrow>
   sys_step s (s\<lparr>ctl := c, workers := (workers s)(g := Busy wid obj (item_prog env wid obj))\<rparr>)"
| handle: "\<lbrakk>workers s g = Busy wid obj p; prog_step (p, k8s (ctl s), stores s) (p', st', infs')\<rbrakk> \<Longrightarrow>
   sys_step s (s\<lparr>ctl := (ctl s)\<lparr>k8s := st'\<rparr>, workers := (workers s)(g := Busy wid obj p'), stores := infs'\<rparr>)"
| finish: "\<lbrakk>workers s g = Busy wid obj (Return err); finish_item qe wid obj err (ctl s) = Ok (Some c)\<rbrakk> \<Longrightarrow>
   sys_step s (s\<lparr>ctl := c, workers := (workers s)(g := Serving wid)\<rparr>)"
| leave: "\<lbrakk>workers s g = Serving wid; take_item wid (ctl s) = Ok (Shutdown, c)\<rbrakk> \<Longrightarrow>
   sys_step s (s\<lparr>ctl := c\<lparr>worker_id := release_worker_id (worker_id c) wid\<rparr>,
                 workers := (workers s)(g := Idle)\<rparr>)"
| event: "informer_event (ctl s) c \<Longrightarrow> sys_step s (s\<lparr>ctl := c\<rparr>)"
| inform: "sys_step s (s\<lparr>stores := infs\<rparr>)"
| ready: "\<lbrakk>i < length (workqueue (ctl s)); q = workqueue (ctl s) ! i\<rbrakk> \<Longrightarrow>
   sys_step s (s\<lparr>ctl := set_queue i (add_ready now q) (ctl s)\<rparr>)"
| recv: "\<lbrakk>i < length (workqueue (ctl s)); q = workqueue (ctl s) ! i; \<not> shuttingDown (dq_queue q)\<rbrakk> \<Longrightarrow>
   sys_step s (s\<lparr>ctl := set_queue i (receive now q) (ctl s)\<rparr>)"
| close: "sys_step s (s\<lparr>stopped := True\<rparr>)"
| stop: "\<lbrakk>stopped s; Run_exit (ctl s) = Ok c\<rbrakk> \<Longrightarrow> sys_step s (s\<lparr>ctl := c\<rparr>)"

definition start :: "uint32 \<Rightarrow> 'w K8sState \<Rightarrow> Informers \<Rightarrow> 'w Sys" where
  "start num st infs = \<lparr>ctl = NewAviController num st, workers = (\<lambda>_. Idle), stores = infs, stopped = False\<rparr>"

definition reachable :: "uint32 \<Rightarrow> 'w K8sState \<Rightarrow> 'w Sys \<Rightarrow> bool" where
  "reachable num st s \<longleftrightarrow> (\<exists>infs. sys_step\<^sup>*\<^sup>* (start num st infs) s)"

inductive_cases sys_stepE: "sys_step s s'"
inductive_cases informer_eventE: "informer_event c c'"

fun held :: "'w worker \<Rightarrow> uint32 option" where
  "held Idle = None"
| "held Entering = None"
| "held (Serving wid) = Some wid"
| "held (Busy wid obj p) = Some wid"

fun item :: "'w worker \<Rightarrow> (uint32 \<times> iface) option" where
  "item (Busy wid obj p) = Some (wid, obj)"
| "item _ = None"

section \<open>What the steps keep of the queues\<close>

definition same_processing :: "'a delayingType \<Rightarrow> 'a delayingType \<Rightarrow> bool" where
  "same_processing q q' \<longleftrightarrow> processing (dq_queue q') = processing (dq_queue q)"

lemma AddRateLimited_processing: "AddRateLimited stop now b x q = Some q' \<Longrightarrow> same_processing q q'"
  by (auto simp: AddRateLimited_def AddAfter_def same_processing_def wq.busy_add split: prod.splits if_splits)

lemma add_ready_processing: "same_processing q (add_ready now q)"
proof -
  have "processing (dq_queue (add_ready_loop n now q)) = processing (dq_queue q)" for n
    by (induction n now q rule: add_ready_loop.induct) (auto simp: Let_def wq.busy_add split: prod.splits)
  then show ?thesis by (simp add: add_ready_def same_processing_def)
qed

lemma receive_processing: "same_processing q (receive now q)"
  by (auto simp: receive_def receive_entry_def same_processing_def wq.busy_add split: list.split prod.split)

lemma enqueue_queue:
  assumes "enqueue qe key c = Ok (Some c')"
  shows "\<exists>q'. unat (Bkt key (num_workers c)) < length (workqueue c)
    \<and> AddRateLimited (qe_stop qe) (qe_now qe) (qe_bucket qe) (IStr key) (workqueue c ! unat (Bkt key (num_workers c))) = Some q'
    \<and> c' = set_queue (unat (Bkt key (num_workers c))) q' c"
  using assms by (auto simp: enqueue_def Let_def go_index_eq_Ok set_queue_def split: option.splits)

lemma on_add_enqueue: "on_add t k qe obj c = Ok (Some c') \<Longrightarrow> \<exists>qe key. enqueue qe key c = Ok (Some c')"
  by (auto simp: on_add_def split: if_splits)

lemma on_delete_enqueue:
  "on_delete t k qe obj c = Ok (Some c') \<Longrightarrow> c' = c \<or> (\<exists>qe key. enqueue qe key c = Ok (Some c'))"
  by (auto simp: on_delete_def split: if_splits)

lemma ep_UpdateFunc_enqueue:
  "ep_UpdateFunc qe old cur c = Ok (Some c') \<Longrightarrow> c' = c \<or> (\<exists>qe key. enqueue qe key c = Ok (Some c'))"
  by (cases old; cases cur) (auto simp: ep_UpdateFunc_def split: if_splits)

text \<open>Every handler either leaves the controller alone or queues one key.\<close>

lemma informer_event_cases:
  assumes "informer_event c c'"
  shows "c' = c \<or> (\<exists>qe key. enqueue qe key c = Ok (Some c'))"
  using assms
  by cases (simp_all only: ep_AddFunc_def ep_DeleteFunc_def svc_AddFunc_def svc_UpdateFunc_def svc_DeleteFunc_def
    ing_AddFunc_def ing_UpdateFunc_def ing_DeleteFunc_def on_add_enqueue on_delete_enqueue ep_UpdateFunc_enqueue simp_thms)

section \<open>The mask of free numbers\<close>

lemma bit_pow: "bit (2 ^ i :: uint32) k \<longleftrightarrow> k = i \<and> i < 32"
  by (auto simp: bit_exp_iff)

lemma test_bit: "(2 ^ i :: uint32) AND m \<noteq> 0 \<longleftrightarrow> bit m i"
proof -
  have "bit (2 ^ i AND m) k \<longleftrightarrow> k = i \<and> bit m i" for k
    using bit_imp_le_length [of m i] by (auto simp: bit_and_iff bit_pow)
  then have "bit (2 ^ i AND m) i \<longleftrightarrow> bit m i" "\<not> bit m i \<Longrightarrow> 2 ^ i AND m = 0"
    by (simp, metis bit_0_eq bit_eqI bot_apply bot_bool_def)
  then show ?thesis by auto
qed

lemma bit_clear: "bit (m AND NOT (2 ^ i :: uint32)) k \<longleftrightarrow> bit m k \<and> k \<noteq> i"
  using bit_imp_le_length [of m k] by (auto simp: bit_and_iff bit_not_iff bit_pow)

lemma bit_release: "bit (release_worker_id m wid) k \<longleftrightarrow> bit m k \<or> k = unat wid \<and> k < 32"
  by (auto simp: release_worker_id_def bit_or_iff bit_pow)

lemma pick_worker_id_found:
  assumes "bit m j" "j < unat num"
  shows "\<exists>i. pick_worker_id num m = (of_nat i, m AND NOT (push_bit i 1)) \<and> i < unat num \<and> bit m i \<and> i < 32"
proof -
  have "find (\<lambda>i. (push_bit i 1 :: uint32) AND m \<noteq> 0) [0..<unat num] \<noteq> None"
    using assms by (auto simp: find_None_iff test_bit)
  then obtain i where i: "find (\<lambda>i. (push_bit i 1 :: uint32) AND m \<noteq> 0) [0..<unat num] = Some i" by blast
  then have "bit m i" "i < unat num" by (auto simp: find_Some_iff test_bit)
  with i bit_imp_le_length [of m i] show ?thesis by (auto simp: pick_worker_id_def)
qed

text \<open>
  The numbers free in the mask are those no goroutine holds; a goroutine holds one number of
  its own.
\<close>

definition workers_ok :: "nat \<Rightarrow> uint32 \<Rightarrow> (nat \<Rightarrow> 'w worker) \<Rightarrow> bool" where
  "workers_ok n m ws \<longleftrightarrow> n \<le> 32
     \<and> (\<forall>i. bit m i \<longleftrightarrow> i < n \<and> (\<forall>g. held (ws g) \<noteq> Some (of_nat i)))
     \<and> (\<forall>g wid. held (ws g) = Some wid \<longrightarrow> unat wid < n \<and> g < n)
     \<and> (\<forall>g g' wid. held (ws g) = Some wid \<and> held (ws g') = Some wid \<longrightarrow> g = g')"

lemma all_upd: "(\<forall>g'. P ((f(g := w)) g')) \<longleftrightarrow> P w \<and> (\<forall>g'. g' \<noteq> g \<longrightarrow> P (f g'))"
  by auto

lemma all_split: "(\<forall>g'. P (f g')) \<longleftrightarrow> P (f g) \<and> (\<forall>g'. g' \<noteq> g \<longrightarrow> P (f g'))"
  by auto

lemma of_nat_unat_small: "i < 32 \<Longrightarrow> unat (of_nat i :: uint32) = i"
  by (simp add: unat_of_nat)

lemma free_number:
  assumes "workers_ok n m ws" "g < n" "held (ws g) = None"
  shows "\<exists>i < n. bit m i"
proof (rule ccontr)
  assume "\<not> (\<exists>i < n. bit m i)"
  then have "\<forall>i < n. \<exists>g'. held (ws g') = Some (of_nat i)" using assms(1) by (auto simp: workers_ok_def)
  then obtain f where f: "\<forall>i < n. held (ws (f i)) = Some (of_nat i)" by metis
  have "inj_on f {0..<n}"
  proof (rule inj_onI)
    fix i j assume ij: "i \<in> {0..<n}" "j \<in> {0..<n}" "f i = f j"
    with f have "(of_nat i :: uint32) = of_nat j" by (metis atLeastLessThan_iff option.inject)
    with ij assms(1) show "i = j" using of_nat_unat_small by (metis atLeastLessThan_iff less_le_trans workers_ok_def)
  qed
  moreover have "f ` {0..<n} \<subseteq> {0..<n} - {g}"
    using f assms(1,3) by (force simp: workers_ok_def)
  ultimately have "card {0..<n} \<le> card ({0..<n} - {g})" by (metis card_inj_on_le finite_Diff finite_atLeastLessThan)
  with assms(2) show False by simp
qed

lemma workers_ok_pick:
  assumes "workers_ok (unat num) m ws" "g < unat num" "held (ws g) = None" "pick_worker_id num m = (wid, m')"
  shows "workers_ok (unat num) m' (ws(g := Serving wid)) \<and> unat wid < unat num \<and> (\<forall>g'. held (ws g') \<noteq> Some wid)"
proof -
  from free_number [OF assms(1,2)] assms(3) obtain j where "j < unat num" "bit m j" by auto
  from pick_worker_id_found [OF this(2,1)] assms(4) obtain i where
    i: "wid = of_nat i" "m' = m AND NOT (push_bit i 1)" "i < unat num" "bit m i" "i < 32" by auto
  have free: "\<forall>g'. held (ws g') \<noteq> Some (of_nat i)" using assms(1) i(4) by (simp add: workers_ok_def)
  have u: "unat wid = i" using i(1,5) by (simp add: of_nat_unat_small)
  have eq: "(of_nat k :: uint32) = of_nat i \<longleftrightarrow> k = i" if "k < unat num" for k
    using that i(5) assms(1) of_nat_unat_small by (metis less_le_trans workers_ok_def)
  have "bit m' k \<longleftrightarrow> k < unat num \<and> (\<forall>g'. held ((ws(g := Serving wid)) g') \<noteq> Some (of_nat k))" for k
  proof (cases "k < unat num")
    case True
    have "bit m' k \<longleftrightarrow> (\<forall>g'. held (ws g') \<noteq> Some (of_nat k)) \<and> k \<noteq> i"
      using True assms(1) i(2) by (simp add: bit_clear workers_ok_def)
    also have "\<dots> \<longleftrightarrow> (\<forall>g'. held ((ws(g := Serving wid)) g') \<noteq> Some (of_nat k))"
      using eq [OF True] i(1) assms(3)
      unfolding all_upd [of "\<lambda>w. held w \<noteq> Some (of_nat k)"] all_split [of "\<lambda>w. held w \<noteq> Some (of_nat k)" ws g]
      by (simp only: held.simps option.inject option.distinct simp_thms eq_commute [of "of_nat i" "of_nat k"]) blast
    finally show ?thesis using True by blast
  next
    case False
    with assms(1) i(2) show ?thesis by (simp add: bit_clear workers_ok_def)
  qed
  then show ?thesis
    using assms(1,2) free u i(1,3) unfolding workers_ok_def by (auto simp: fun_upd_def)
qed

lemma workers_ok_leave:
  assumes "workers_ok n m ws" "held (ws g) = Some wid"
  shows "workers_ok n (release_worker_id m wid) (ws(g := Idle))"
proof -
  have u: "unat wid < n" "n \<le> 32" using assms by (auto simp: workers_ok_def)
  have eq: "(of_nat k :: uint32) = wid \<longleftrightarrow> k = unat wid" if "k < n" for k
    using that u(2) of_nat_unat_small [of k] by (metis less_le_trans word_unat_eq_iff)
  have uniq: "held (ws g') = Some wid \<longleftrightarrow> g' = g" for g' using assms by (auto simp: workers_ok_def)
  have "bit (release_worker_id m wid) k \<longleftrightarrow> k < n \<and> (\<forall>g'. held ((ws(g := Idle)) g') \<noteq> Some (of_nat k))" for k
  proof (cases "k < n")
    case True
    have "(\<forall>g'. held ((ws(g := Idle)) g') \<noteq> Some (of_nat k)) \<longleftrightarrow> (\<forall>g'. held (ws g') \<noteq> Some (of_nat k)) \<or> k = unat wid"
    proof (cases "k = unat wid")
      case True
      with eq [OF \<open>k < n\<close>] uniq show ?thesis
        unfolding all_upd [of "\<lambda>w. held w \<noteq> Some (of_nat k)"] by simp
    next
      case False
      with eq [OF \<open>k < n\<close>] assms(2) show ?thesis
        unfolding all_upd [of "\<lambda>w. held w \<noteq> Some (of_nat k)"] all_split [of "\<lambda>w. held w \<noteq> Some (of_nat k)" ws g]
        by simp
    qed
    with True assms(1) u show ?thesis by (auto simp: bit_release workers_ok_def)
  next
    case False
    with assms(1) u show ?thesis by (auto simp: bit_release workers_ok_def)
  qed
  then show ?thesis using assms(1) unfolding workers_ok_def by (auto simp: fun_upd_def)
qed

lemma workers_ok_same:
  "workers_ok n m ws \<Longrightarrow> held (ws g) = held w \<Longrightarrow> workers_ok n m (ws(g := w))"
  unfolding workers_ok_def by (auto simp: fun_upd_def)

lemma workers_ok_start:
  assumes "unat num \<le> 32"
  shows "workers_ok (unat num) (push_bit (unat num) 1 - 1) (\<lambda>_. Idle)"
proof -
  have "(push_bit (unat num) 1 - 1 :: uint32) = mask (unat num)" by (simp add: mask_eq_exp_minus_1 push_bit_of_1)
  with assms show ?thesis by (auto simp: workers_ok_def bit_mask_iff)
qed

section \<open>The invariant of the running controller\<close>

definition proc :: "'w AviController \<Rightarrow> nat \<Rightarrow> iface set" where
  "proc c i = processing (dq_queue (workqueue c ! i))"

definition ctl_ok :: "uint32 \<Rightarrow> 'w AviController \<Rightarrow> bool" where
  "ctl_ok num c \<longleftrightarrow> num_workers c = num \<and> length (workqueue c) = unat num
     \<and> (\<forall>q \<in> set (workqueue c). dq_inv q) \<and> st_ok (k8s c) \<and> unat num \<le> length (AviClient (k8s c))"

definition sys_ok :: "uint32 \<Rightarrow> 'w Sys \<Rightarrow> bool" where
  "sys_ok num s \<longleftrightarrow> ctl_ok num (ctl s) \<and> workers_ok (unat num) (worker_id (ctl s)) (workers s)
     \<and> (\<forall>i < unat num. proc (ctl s) i = {x. \<exists>g. item (workers s g) = Some (of_nat i, x)})
     \<and> (\<forall>g wid obj p. workers s g = Busy wid obj p \<longrightarrow> keeps step_kept p)
     \<and> (\<forall>g. workers s g \<noteq> Idle \<longrightarrow> g < unat num)"

lemma set_queue_sel [simp]:
  "num_workers (set_queue i q c) = num_workers c" "worker_id (set_queue i q c) = worker_id c"
  "k8s (set_queue i q c) = k8s c" "workqueue (set_queue i q c) = (workqueue c)[i := q]"
  by (simp_all add: set_queue_def)

lemma ctl_ok_set_queue: "ctl_ok num c \<Longrightarrow> dq_inv q \<Longrightarrow> ctl_ok num (set_queue i q c)"
  using set_update_subset_insert [of "workqueue c" i q] by (auto simp: ctl_ok_def)

lemma proc_set_queue:
  "i < length (workqueue c) \<Longrightarrow> proc (set_queue i q c) j = (if j = i then processing (dq_queue q) else proc c j)"
  by (simp add: proc_def nth_list_update)

lemma proc_set_queue_same:
  "i < length (workqueue c) \<Longrightarrow> same_processing (workqueue c ! i) q \<Longrightarrow> proc (set_queue i q c) = proc c"
  by (rule ext) (simp add: proc_set_queue, simp add: same_processing_def proc_def)

lemma ctl_ok_nth: "ctl_ok num c \<Longrightarrow> i < unat num \<Longrightarrow> dq_inv (workqueue c ! i)"
  by (simp add: ctl_ok_def)

lemma event_ok:
  assumes "informer_event c c'" "ctl_ok num c"
  shows "ctl_ok num c' \<and> proc c' = proc c \<and> worker_id c' = worker_id c"
proof -
  consider "c' = c" | qe key where "enqueue qe key c = Ok (Some c')"
    using informer_event_cases [OF assms(1)] by blast
  then show ?thesis
  proof cases
    case 2
    let ?i = "unat (Bkt key (num_workers c))"
    from enqueue_queue [OF 2] obtain q' where
      q': "?i < length (workqueue c)" "AddRateLimited (qe_stop qe) (qe_now qe) (qe_bucket qe) (IStr key) (workqueue c ! ?i) = Some q'"
        "c' = set_queue ?i q' c" by blast
    have "dq_inv q'"
      using AddRateLimited_inv [OF _ q'(2)] assms(2) q'(1) by (simp add: ctl_ok_def)
    with q' AddRateLimited_processing [OF q'(2)] assms(2) show ?thesis
      by (simp add: ctl_ok_set_queue proc_set_queue_same)
  qed (use assms(2) in simp)
qed

lemma take_item_work:
  assumes "take_item wid c = Ok (Work obj, c')" "ctl_ok num c"
  shows "unat wid < unat num" "ctl_ok num c'" "worker_id c' = worker_id c"
    "proc c' j = (if j = unat wid then insert obj (proc c j) else proc c j)" "obj \<notin> proc c (unat wid)"
proof -
  from assms(1) obtain q q' where q: "unat wid < length (workqueue c)" "q = workqueue c ! unat wid"
    "Get (dq_queue q) = Some (Some obj, q')" "c' = set_queue (unat wid) (q\<lparr>dq_queue := q'\<rparr>) c"
    by (auto simp: take_item_def go_index_eq_Ok split: option.splits prod.splits)
  have inv: "dq_inv q" using assms(2) q(1,2) by (simp add: ctl_ok_def)
  then have qi: "q_inv (dq_queue q)" by (simp add: dq_inv_def)
  have "dq_inv (q\<lparr>dq_queue := q'\<rparr>)" using inv wq.inv_get [OF qi q(3)] by (simp add: dq_inv_def)
  then show "ctl_ok num c'" using ctl_ok_set_queue [OF assms(2)] q(4) by simp
  show "unat wid < unat num" using q(1) assms(2) by (simp add: ctl_ok_def)
  show "worker_id c' = worker_id c" using q(4) by simp
  show "proc c' j = (if j = unat wid then insert obj (proc c j) else proc c j)"
    using wq.get_itemD(3) [OF q(3)] q(1) unfolding q(4) proc_set_queue [OF q(1)] q(2)
    by (simp add: proc_def)
  show "obj \<notin> proc c (unat wid)"
    using wq.exclusive [OF qi q(3)] q(2) by (simp add: proc_def)
qed

lemma finish_item_queue:
  assumes "finish_item qe wid obj err c = Ok (Some c')"
  shows "\<exists>q1. unat wid < length (workqueue c) \<and> c' = set_queue (unat wid) (dq_Done obj q1) c
    \<and> (q1 = Forget obj (workqueue c ! unat wid)
       \<or> AddRateLimited (qe_stop qe) (qe_now qe) (qe_bucket qe) obj (workqueue c ! unat wid) = Some q1)
    \<and> (dq_inv (workqueue c ! unat wid) \<longrightarrow> dq_inv q1) \<and> same_processing (workqueue c ! unat wid) q1"
proof -
  have i: "unat wid < length (workqueue c)" using assms by (auto simp: finish_item_def go_index_eq_Ok)
  let ?q = "workqueue c ! unat wid"
  obtain q1 where q1: "c' = set_queue (unat wid) (dq_Done obj q1) c" "q1 = Forget obj ?q
      \<or> AddRateLimited (qe_stop qe) (qe_now qe) (qe_bucket qe) obj ?q = Some q1"
    using assms i by (auto simp: finish_item_def go_index_def split: option.splits go_error.splits)
  have "dq_inv ?q \<longrightarrow> dq_inv q1" "same_processing ?q q1"
    using q1(2) Forget_inv [of ?q obj] AddRateLimited_inv [of ?q] AddRateLimited_processing [of _ _ _ obj ?q]
    by (auto simp: Forget_def same_processing_def)
  with i q1 show ?thesis by blast
qed

lemma finish_item_ok:
  assumes "finish_item qe wid obj err c = Ok (Some c')" "ctl_ok num c" "obj \<in> proc c (unat wid)"
  shows "ctl_ok num c'" "worker_id c' = worker_id c"
    "proc c' j = (if j = unat wid then proc c j - {obj} else proc c j)"
proof -
  from finish_item_queue [OF assms(1)] obtain q q1 where q: "unat wid < length (workqueue c)"
    "q = workqueue c ! unat wid" "c' = set_queue (unat wid) (dq_Done obj q1) c" "dq_inv q \<Longrightarrow> dq_inv q1"
    "same_processing q q1" by blast
  have "dq_inv q" using assms(2) q(1,2) by (simp add: ctl_ok_def)
  with q(4) have inv: "dq_inv q1" by blast
  have busy: "processing (dq_queue q1) = proc c (unat wid)" using q(2,5) by (simp add: same_processing_def proc_def)
  have "q_inv (Done obj (dq_queue q1))"
    using inv busy assms(3) by (intro wq.inv_finish) (auto simp: dq_inv_def)
  with inv have "dq_inv (dq_Done obj q1)" by (simp add: dq_inv_def dq_Done_def)
  then show "ctl_ok num c'" "worker_id c' = worker_id c" using ctl_ok_set_queue [OF assms(2)] q(3) by simp_all
  show "proc c' j = (if j = unat wid then proc c j - {obj} else proc c j)"
    using q(1,3) busy by (simp add: proc_set_queue dq_Done_def wq.busy_finish)
qed

lemma item_Some: "item w = Some (wid, obj) \<longleftrightarrow> (\<exists>p. w = Busy wid obj p)"
  by (cases w) auto

lemma item_held: "item w = Some (wid, obj) \<Longrightarrow> held w = Some wid"
  by (auto simp: item_Some)

lemma item_prog_keeps: "keeps step_kept (item_prog env wid obj)"
  by (cases obj) (auto simp: item_prog_def intro: sync_keeps keeps_Return)

lemma same_wid:
  assumes "sys_ok num s" "held (workers s g) = Some wid" "held (workers s g') = Some wid"
  shows "g = g'"
  using assms unfolding sys_ok_def workers_ok_def by blast

lemma of_nat_wid:
  "sys_ok num s \<Longrightarrow> i < unat num \<Longrightarrow> (of_nat i :: uint32) = wid \<longleftrightarrow> i = unat wid"
  using of_nat_unat_small [of i] unfolding sys_ok_def workers_ok_def by (metis less_le_trans word_unat_eq_iff)

text \<open>A goroutine that goes from one worker state to another with the same number.\<close>

lemma sys_ok_switch:
  assumes s: "sys_ok num s" and w: "held (workers s g) = Some wid" "held w' = Some wid"
    and c: "ctl_ok num c" "worker_id c = worker_id (ctl s)"
    and p: "\<And>j. proc c j = (if j = unat wid then {x. item w' = Some (wid, x)} else proc (ctl s) j)"
    and k: "\<And>wid obj p. w' = Busy wid obj p \<Longrightarrow> keeps step_kept p"
  shows "sys_ok num (s\<lparr>ctl := c, workers := (workers s)(g := w')\<rparr>)"
proof -
  have "proc c i = {x. \<exists>g'. item (((workers s)(g := w')) g') = Some (of_nat i, x)}" if i: "i < unat num" for i
  proof (cases "i = unat wid")
    case True
    then have wid: "of_nat i = wid" by simp
    have "item (workers s g') \<noteq> Some (wid, x)" if "g' \<noteq> g" for g' x
      using same_wid [OF s w(1), of g'] that item_held by blast
    with True p wid show ?thesis by auto
  next
    case False
    then have wid: "of_nat i \<noteq> wid" using of_nat_wid [OF s i] by simp
    have "item w' \<noteq> Some (of_nat i, x)" "item (workers s g) \<noteq> Some (of_nat i, x)" for x
      using w wid item_held [of w' "of_nat i" x] item_held [of "workers s g" "of_nat i" x] by auto
    then have "{x. \<exists>g'. item (((workers s)(g := w')) g') = Some (of_nat i, x)} = {x. \<exists>g'. item (workers s g') = Some (of_nat i, x)}"
      by (metis (no_types, opaque_lifting) fun_upd_apply)
    with False p s i show ?thesis by (simp add: sys_ok_def)
  qed
  moreover have "workers_ok (unat num) (worker_id c) ((workers s)(g := w'))"
    using s w c(2) workers_ok_same [of "unat num" "worker_id c" "workers s" g w'] by (simp add: sys_ok_def)
  moreover have "((workers s)(g := w')) g' = Busy wid obj p \<Longrightarrow> keeps step_kept p" for g' wid obj p
    using k s by (auto simp: sys_ok_def split: if_splits)
  moreover have "g < unat num" using s w(1) by (auto simp: sys_ok_def workers_ok_def)
  ultimately show ?thesis using c(1) s by (auto simp: sys_ok_def)
qed

lemma sys_ok_idle:
  assumes s: "sys_ok num s" and g: "item (workers s g) = None" "item w' = None" "w' \<noteq> Idle \<Longrightarrow> g < unat num"
    and c: "ctl_ok num c" "proc c = proc (ctl s)" "workers_ok (unat num) (worker_id c) ((workers s)(g := w'))"
  shows "sys_ok num (s\<lparr>ctl := c, workers := (workers s)(g := w')\<rparr>)"
proof -
  have "(\<exists>g'. item (((workers s)(g := w')) g') = Some k) \<longleftrightarrow> (\<exists>g'. item (workers s g') = Some k)" for k
    using g by (metis fun_upd_apply option.distinct(1))
  moreover have "((workers s)(g := w')) g' = Busy wid obj p \<Longrightarrow> keeps step_kept p" for g' wid obj p
    using g s by (auto simp: sys_ok_def split: if_splits)
  ultimately show ?thesis using s c g(3) by (auto simp: sys_ok_def)
qed

lemma sys_ok_frame:
  "sys_ok num (s\<lparr>stores := infs\<rparr>) = sys_ok num s" "sys_ok num (s\<lparr>stopped := b\<rparr>) = sys_ok num s"
  by (simp_all add: sys_ok_def)

lemma sys_ok_ctl:
  assumes "sys_ok num s" "ctl_ok num c" "proc c = proc (ctl s)" "worker_id c = worker_id (ctl s)"
  shows "sys_ok num (s\<lparr>ctl := c\<rparr>)"
  using assms by (simp add: sys_ok_def)

lemma worker_id_frame: "ctl_ok num (c\<lparr>worker_id := m\<rparr>) = ctl_ok num c" "proc (c\<lparr>worker_id := m\<rparr>) = proc c"
  by (auto simp: ctl_ok_def proc_def)

lemma shutdown_queues_ok:
  "shutdown_queues is c = Ok c' \<Longrightarrow> ctl_ok num c \<Longrightarrow> ctl_ok num c' \<and> proc c' = proc c \<and> worker_id c' = worker_id c"
proof (induction "is" c rule: shutdown_queues.induct)
  case (2 i "is" c)
  from "2.prems"(1) obtain q' where q: "i < length (workqueue c)" "dq_ShutDown (workqueue c ! i) = Ok q'"
    "shutdown_queues is (set_queue i q' c) = Ok c'" by (auto simp: go_index_eq_Ok)
  have "dq_inv q'" using dq_ShutDown_inv [OF _ q(2)] "2.prems"(2) q(1) by (simp add: ctl_ok_def)
  moreover have "same_processing (workqueue c ! i) q'"
    using q(2) by (auto simp: dq_ShutDown_def ShutDown_def same_processing_def split: if_splits)
  ultimately have "ctl_ok num (set_queue i q' c)" "proc (set_queue i q' c) = proc c"
    using "2.prems"(2) q(1) by (simp_all add: ctl_ok_set_queue proc_set_queue_same)
  then show ?case using "2.IH" [of q'] q(3) by simp
qed simp

lemma sys_okD: "sys_ok num s \<Longrightarrow> ctl_ok num (ctl s)"
  "sys_ok num s \<Longrightarrow> workers_ok (unat num) (worker_id (ctl s)) (workers s)"
  by (simp_all add: sys_ok_def)

lemma step_enter:
  assumes "g < unat (num_workers (ctl s))" "workers s g = Idle" and s: "sys_ok num s"
  shows "sys_ok num (s\<lparr>workers := (workers s)(g := Entering)\<rparr>)"
proof -
  have "workers_ok (unat num) (worker_id (ctl s)) ((workers s)(g := Entering))"
    using sys_okD(2) [OF s] assms(2) by (intro workers_ok_same) simp_all
  from sys_ok_idle [OF s, of g Entering "ctl s"] this assms(1,2) sys_okD(1) [OF s] show ?thesis
    by (simp add: ctl_ok_def)
qed

lemma step_pick:
  assumes "g < unat (num_workers (ctl s))" "workers s g = Entering"
    "pick_worker_id (num_workers (ctl s)) (worker_id (ctl s)) = (wid, m)" and s: "sys_ok num s"
  shows "sys_ok num (s\<lparr>ctl := (ctl s)\<lparr>worker_id := m\<rparr>, workers := (workers s)(g := Serving wid)\<rparr>)"
proof (rule sys_ok_idle [OF s])
  have "num_workers (ctl s) = num" using sys_okD(1) [OF s] by (simp add: ctl_ok_def)
  with workers_ok_pick [OF sys_okD(2) [OF s], of g wid m] assms
  show "workers_ok (unat num) (worker_id ((ctl s)\<lparr>worker_id := m\<rparr>)) ((workers s)(g := Serving wid))" by simp
qed (use assms sys_okD(1) [OF s] in \<open>auto simp: worker_id_frame ctl_ok_def\<close>)

lemma proc_wid:
  assumes "sys_ok num s" "held (workers s g) = Some wid"
  shows "proc (ctl s) (unat wid) = {x. item (workers s g) = Some (wid, x)}"
proof -
  have "unat wid < unat num" using sys_okD(2) [OF assms(1)] assms(2) by (auto simp: workers_ok_def)
  moreover have "(\<exists>g'. item (workers s g') = Some (wid, x)) \<longleftrightarrow> item (workers s g) = Some (wid, x)" for x
    using same_wid [OF assms] item_held by blast
  ultimately show ?thesis using assms(1) by (simp add: sys_ok_def)
qed

lemma step_take:
  assumes "workers s g = Serving wid" "take_item wid (ctl s) = Ok (Work obj, c)" and s: "sys_ok num s"
  shows "sys_ok num (s\<lparr>ctl := c, workers := (workers s)(g := Busy wid obj (item_prog env wid obj))\<rparr>)"
proof -
  note t = take_item_work [OF assms(2) sys_okD(1) [OF s]]
  let ?w = "Busy wid obj (item_prog env wid obj)"
  have "proc (ctl s) (unat wid) = {}" using proc_wid [OF s, of g wid] assms(1) by simp
  with t(4) have p: "proc c j = (if j = unat wid then {x. item ?w = Some (wid, x)} else proc (ctl s) j)" for j
    by auto
  show ?thesis by (rule sys_ok_switch [OF s _ _ t(2,3) p]) (use assms(1) item_prog_keeps in auto)
qed

lemma step_handle:
  assumes "workers s g = Busy wid obj p" "prog_step (p, k8s (ctl s), stores s) (p', st', infs')" and s: "sys_ok num s"
  shows "sys_ok num (s\<lparr>ctl := (ctl s)\<lparr>k8s := st'\<rparr>, workers := (workers s)(g := Busy wid obj p'), stores := infs'\<rparr>)"
proof -
  have "keeps step_kept p" using s assms(1) by (auto simp: sys_ok_def)
  from prog_step_keeps [OF assms(2) this] have k: "kept (k8s (ctl s)) st'" "keeps step_kept p'"
    by (simp_all add: step_kept_def)
  then have c: "ctl_ok num ((ctl s)\<lparr>k8s := st'\<rparr>)" using sys_okD(1) [OF s] by (auto simp: ctl_ok_def kept_def)
  have "proc (ctl s) (unat wid) = {obj}" using proc_wid [OF s, of g wid] assms(1) by auto
  then have "proc ((ctl s)\<lparr>k8s := st'\<rparr>) j = (if j = unat wid then {x. item (Busy wid obj p') = Some (wid, x)} else proc (ctl s) j)" for j
    by (auto simp: proc_def)
  from sys_ok_switch [OF s _ _ c _ this] k(2) assms(1)
  have "sys_ok num (s\<lparr>ctl := (ctl s)\<lparr>k8s := st'\<rparr>, workers := (workers s)(g := Busy wid obj p')\<rparr>)" by simp
  then show ?thesis by (simp add: sys_ok_frame)
qed

lemma step_finish:
  assumes "workers s g = Busy wid obj (Return err)" "finish_item qe wid obj err (ctl s) = Ok (Some c)"
    and s: "sys_ok num s"
  shows "sys_ok num (s\<lparr>ctl := c, workers := (workers s)(g := Serving wid)\<rparr>)"
proof -
  have "proc (ctl s) (unat wid) = {obj}" using proc_wid [OF s, of g wid] assms(1) by auto
  with finish_item_ok [OF assms(2) sys_okD(1) [OF s]]
  have f: "ctl_ok num c" "worker_id c = worker_id (ctl s)"
    and p: "proc c j = (if j = unat wid then {x. item (Serving wid :: 'a worker) = Some (wid, x)} else proc (ctl s) j)" for j
    by auto
  show ?thesis by (rule sys_ok_switch [OF s _ _ f p]) (use assms(1) in simp_all)
qed

lemma step_leave:
  assumes "workers s g = Serving wid" "take_item wid (ctl s) = Ok (Shutdown, c)" and s: "sys_ok num s"
  shows "sys_ok num (s\<lparr>ctl := c\<lparr>worker_id := release_worker_id (worker_id c) wid\<rparr>, workers := (workers s)(g := Idle)\<rparr>)"
proof -
  have c: "c = ctl s" using assms(2) by (auto simp: take_item_def split: option.splits prod.splits)
  have "workers_ok (unat num) (release_worker_id (worker_id (ctl s)) wid) ((workers s)(g := Idle))"
    using sys_okD(2) [OF s] assms(1) by (intro workers_ok_leave) auto
  then show ?thesis
    by (intro sys_ok_idle [OF s]) (use c assms sys_okD(1) [OF s] in \<open>auto simp: worker_id_frame\<close>)
qed

lemma step_event: "informer_event (ctl s) c \<Longrightarrow> sys_ok num s \<Longrightarrow> sys_ok num (s\<lparr>ctl := c\<rparr>)"
  using event_ok [of "ctl s" c num] by (auto intro: sys_ok_ctl dest: sys_okD(1))

lemma step_queue:
  assumes "i < length (workqueue (ctl s))" "dq_inv (workqueue (ctl s) ! i) \<Longrightarrow> dq_inv q"
    "same_processing (workqueue (ctl s) ! i) q" and s: "sys_ok num s"
  shows "sys_ok num (s\<lparr>ctl := set_queue i q (ctl s)\<rparr>)"
proof -
  have c: "ctl_ok num (ctl s)" using sys_okD(1) [OF s] .
  with assms(1) have "dq_inv (workqueue (ctl s) ! i)" by (simp add: ctl_ok_def)
  with assms c show ?thesis
    by (intro sys_ok_ctl [OF s]) (simp_all add: ctl_ok_set_queue proc_set_queue_same)
qed

lemma step_stop: "stopped s \<Longrightarrow> Run_exit (ctl s) = Ok c \<Longrightarrow> sys_ok num s \<Longrightarrow> sys_ok num (s\<lparr>ctl := c\<rparr>)"
  using shutdown_queues_ok [of _ "ctl s" c num]
  by (auto simp: Run_exit_def intro: sys_ok_ctl dest: sys_okD(1))

lemma sys_ok_step: "sys_step s s' \<Longrightarrow> sys_ok num s \<Longrightarrow> sys_ok num s'"
proof (induction rule: sys_step.induct)
  case (ready i s q now)
  then show ?case by (intro step_queue) (simp_all add: add_ready_inv add_ready_processing)
next
  case (recv i s q now)
  then show ?case by (intro step_queue) (simp_all add: receive_inv receive_processing)
next
  case inform
  then show ?case by (simp add: sys_ok_frame)
next
  case close
  then show ?case by (simp add: sys_ok_frame)
qed (rule step_enter step_pick step_take step_handle step_finish step_leave step_event step_stop; assumption)+

definition startable :: "uint32 \<Rightarrow> 'w K8sState \<Rightarrow> bool" where
  "startable num st \<longleftrightarrow> unat num \<le> 32 \<and> st_ok st \<and> unat num \<le> length (AviClient st)"

lemma sys_ok_start: "startable num st \<Longrightarrow> sys_ok num (start num st infs)"
  using workers_ok_start [of num] dq_inv_new [of DefaultControllerRateLimiter]
  by (auto simp: startable_def sys_ok_def start_def ctl_ok_def NewAviController_def proc_def)
    (simp add: newDelayingQueue_def newQueue_def)

interpretation sys: invariant_system "\<lambda>s. \<exists>st infs. startable num st \<and> s = start num st infs" sys_step "sys_ok num" for num
  by unfold_locales (auto intro: sys_ok_start sys_ok_step)

lemma reachable_ok: "startable num st \<Longrightarrow> reachable num st s \<Longrightarrow> sys_ok num s"
  unfolding reachable_def by (blast intro: sys.inv_reachable)

section \<open>The shutdown\<close>

text \<open>
  After \<^verbatim>\<open>Run\<close> returned, every queue refuses new items and no goroutine enters \<^verbatim>\<open>runWorker\<close> again. What
  is left to do is measured by the items the queues still hold, and, among states with the
  same items, by how far each goroutine has come.
\<close>

definition shut_down :: "'w Sys \<Rightarrow> bool" where
  "shut_down s \<longleftrightarrow> stopped s \<and> (\<forall>q \<in> set (workqueue (ctl s)). shuttingDown (dq_queue q))"

definition queues :: "'w AviController \<Rightarrow> iface Type list" where
  "queues c = map dq_queue (workqueue c)"

definition backlog :: "'w AviController \<Rightarrow> nat" where
  "backlog c = sum_list (map (\<lambda>q. card (dirty q)) (queues c))"

fun progress :: "'w worker \<Rightarrow> nat \<times> ('w Shared, go_error option) prog" where
  "progress Idle = (0, Return None)"
| "progress Entering = (2, Return None)"
| "progress (Serving wid) = (1, Return None)"
| "progress (Busy wid obj p) = (2, p)"

definition worker_less :: "('w worker \<times> 'w worker) set" where
  "worker_less = inv_image (less_than <*lex*> prog_next) progress"

definition left_to_do :: "'w Sys \<Rightarrow> nat \<times> 'w worker multiset" where
  "left_to_do s = (backlog (ctl s), image_mset (workers s) (mset_set {..<unat (num_workers (ctl s))}))"

definition less_to_do :: "((nat \<times> 'w worker multiset) \<times> (nat \<times> 'w worker multiset)) set" where
  "less_to_do = less_than <*lex*> mult worker_less"

lemma wf_less_to_do: "wf less_to_do"
  unfolding less_to_do_def worker_less_def
  by (intro wf_lex_prod wf_mult wf_inv_image wf_less_than wf_prog_next)

lemma shut_queues: "shut_down s \<longleftrightarrow> stopped s \<and> (\<forall>q \<in> set (queues (ctl s)). shuttingDown q)"
  by (auto simp: shut_down_def queues_def)

lemma queues_set_queue: "queues (set_queue i q c) = (queues c)[i := dq_queue q]"
  by (simp add: queues_def map_update)

lemma AddRateLimited_shut:
  "AddRateLimited stop now b x q = Some q' \<Longrightarrow> shuttingDown (dq_queue q) \<Longrightarrow> dq_queue q' = dq_queue q"
  by (auto simp: AddRateLimited_def AddAfter_def ShuttingDown_def split: prod.splits)

lemma queues_same:
  "i < length (workqueue c) \<Longrightarrow> dq_queue q = dq_queue (workqueue c ! i) \<Longrightarrow> queues (set_queue i q c) = queues c"
  by (simp add: queues_set_queue) (simp add: queues_def list_update_same_conv)

lemma event_shut:
  assumes "informer_event c c'" "\<forall>q \<in> set (queues c). shuttingDown q"
  shows "queues c' = queues c \<and> num_workers c' = num_workers c"
  using informer_event_cases [OF assms(1)] assms(2) AddRateLimited_shut
  by (fastforce dest!: enqueue_queue simp: queues_def list_update_same_conv map_update)

lemma shutdown_shut:
  "shutdown_queues is c = Ok c' \<Longrightarrow> \<forall>q \<in> set (queues c). shuttingDown q \<Longrightarrow> queues c' = queues c \<and> num_workers c' = num_workers c"
proof (induction "is" c rule: shutdown_queues.induct)
  case (2 i "is" c)
  from "2.prems"(1) obtain q' where q: "i < length (workqueue c)" "dq_ShutDown (workqueue c ! i) = Ok q'"
    "shutdown_queues is (set_queue i q' c) = Ok c'" by (auto simp: go_index_eq_Ok)
  have "shuttingDown (dq_queue (workqueue c ! i))" using "2.prems"(2) q(1) by (simp add: queues_def)
  then have "queues (set_queue i q' c) = queues c"
    using q(1,2) by (intro queues_same) (auto simp: dq_ShutDown_def ShutDown_def split: if_splits)
  with "2.IH" [of q'] q(3) "2.prems"(2) show ?case by simp
qed simp

lemma finish_shut:
  assumes "finish_item qe wid obj err c = Ok (Some c')" "\<forall>q \<in> set (queues c). shuttingDown q"
  shows "map dirty (queues c') = map dirty (queues c)" "\<forall>q \<in> set (queues c'). shuttingDown q" "num_workers c' = num_workers c"
proof -
  from finish_item_queue [OF assms(1)] obtain q1 where q: "unat wid < length (workqueue c)"
    "c' = set_queue (unat wid) (dq_Done obj q1) c" "q1 = Forget obj (workqueue c ! unat wid)
       \<or> AddRateLimited (qe_stop qe) (qe_now qe) (qe_bucket qe) obj (workqueue c ! unat wid) = Some q1" by blast
  have sh: "shuttingDown (queues c ! unat wid)" using assms(2) q(1) by (simp add: queues_def)
  then have "dq_queue q1 = queues c ! unat wid"
    using q(1,3) AddRateLimited_shut [of _ _ _ obj "workqueue c ! unat wid" q1] by (auto simp: queues_def Forget_def)
  then have c': "queues c' = (queues c)[unat wid := Done obj (queues c ! unat wid)]"
    using q(2) by (simp add: queues_set_queue dq_Done_def)
  show "map dirty (queues c') = map dirty (queues c)"
    unfolding c' map_update wq.wanted_finish by (simp only: map_update [symmetric] list_update_id)
  have "shuttingDown (Done obj (queues c ! unat wid))" using sh by (simp add: Done_def Let_def)
  then show "\<forall>q \<in> set (queues c'). shuttingDown q"
    using assms(2) set_update_subset_insert [of "queues c"] by (auto simp: c')
  show "num_workers c' = num_workers c" using q(2) by simp
qed

lemma backlog_cong:
  fixes c c' :: "'w AviController"
  shows "map dirty (queues c') = map dirty (queues c) \<Longrightarrow> backlog c' = backlog c"
proof -
  have "backlog c = sum_list (map card (map dirty (queues c)))" for c :: "'w AviController"
    by (simp add: backlog_def comp_def)
  then show "map dirty (queues c') = map dirty (queues c) \<Longrightarrow> backlog c' = backlog c" by (simp only:)
qed

lemma take_shut:
  assumes "take_item wid c = Ok (Work obj, c')" "\<forall>q \<in> set (queues c). shuttingDown q"
    "ctl_ok num c" "finite (proc c (unat wid))"
  shows "backlog c' < backlog c" "\<forall>q \<in> set (queues c'). shuttingDown q" "num_workers c' = num_workers c"
proof -
  from assms(1) obtain q q' where q: "unat wid < length (workqueue c)" "q = workqueue c ! unat wid"
    "Get (dq_queue q) = Some (Some obj, q')" "c' = set_queue (unat wid) (q\<lparr>dq_queue := q'\<rparr>) c"
    by (auto simp: take_item_def go_index_eq_Ok split: option.splits prod.splits)
  have c': "queues c' = (queues c)[unat wid := q']" using q(4) by (simp add: queues_set_queue)
  note g = wq.get_item [OF q(3)]
  have inv: "q_inv (dq_queue q)" using assms(3) q(1,2) by (simp add: ctl_ok_def dq_inv_def)
  have "set (queue (dq_queue q)) = dirty (dq_queue q) - processing (dq_queue q)"
    using wq.inv_listed [OF inv] by blast
  moreover have "finite (processing (dq_queue q))" using assms(4) q(2) by (simp add: proc_def)
  ultimately have fin: "finite (dirty (dq_queue q))" using List.finite_set finite_Diff2 by metis
  have "obj \<in> dirty (dq_queue q)" using g wq.inv_listed [OF inv] by auto
  then have "card (dirty q') < card (dirty (dq_queue q))" using g fin by (metis card_Diff1_less)
  moreover have i: "unat wid < length (queues c)" "queues c ! unat wid = dq_queue q"
    using q(1,2) by (simp_all add: queues_def)
  moreover have "backlog c' = sum_list ((map (\<lambda>q. card (dirty q)) (queues c))[unat wid := card (dirty q')])"
    by (simp add: backlog_def c' map_update)
  moreover have "map (\<lambda>q. card (dirty q)) (queues c) ! unat wid \<le> backlog c"
    unfolding backlog_def by (rule elem_le_sum_list) (use i(1) in simp)
  ultimately show "backlog c' < backlog c"
    by (simp add: sum_list_update) (simp add: backlog_def)
  have "shuttingDown q'" using g assms(2) q(1,2) by (simp add: queues_def)
  then show "\<forall>q \<in> set (queues c'). shuttingDown q"
    using assms(2) set_update_subset_insert [of "queues c"] by (auto simp: c')
  show "num_workers c' = num_workers c" using q(4) by simp
qed

lemma moved:
  assumes "g < unat (num_workers (ctl s))" "(w', workers s g) \<in> worker_less"
    "backlog c = backlog (ctl s)" "num_workers c = num_workers (ctl s)"
  shows "(left_to_do (s\<lparr>ctl := c, workers := (workers s)(g := w'), stores := infs\<rparr>), left_to_do s) \<in> less_to_do"
proof -
  let ?n = "unat (num_workers (ctl s))"
  let ?M = "image_mset (workers s) (mset_set ({..<?n} - {g}))"
  have m: "mset_set {..<?n} = add_mset g (mset_set ({..<?n} - {g}))"
    using assms(1) by (simp add: mset_set.remove)
  have "image_mset ((workers s)(g := w')) (mset_set ({..<?n} - {g})) = ?M"
    by (rule image_mset_cong) auto
  with m have new: "image_mset ((workers s)(g := w')) (mset_set {..<?n}) = add_mset w' ?M" by simp
  have old: "image_mset (workers s) (mset_set {..<?n}) = add_mset (workers s g) ?M" using m by simp
  have "(add_mset w' ?M, add_mset (workers s g) ?M) \<in> mult1 worker_less"
    by (rule mult1I [where K = "{#w'#}"]) (use assms(2) in simp_all)
  then have "(add_mset w' ?M, add_mset (workers s g) ?M) \<in> mult worker_less" by (simp add: mult_def)
  with assms(3,4) new old show ?thesis by (simp add: left_to_do_def less_to_do_def)
qed

lemma less_to_do_backlog: "backlog (ctl s') < backlog (ctl s) \<Longrightarrow> (left_to_do s', left_to_do s) \<in> less_to_do"
  by (simp add: left_to_do_def less_to_do_def)

lemma left_to_do_cong:
  "workers s' = workers s \<Longrightarrow> queues (ctl s') = queues (ctl s) \<Longrightarrow> num_workers (ctl s') = num_workers (ctl s) \<Longrightarrow>
   left_to_do s' = left_to_do s"
  by (simp add: left_to_do_def backlog_def)

lemma queues_frame [simp]:
  "queues (c\<lparr>worker_id := m\<rparr>) = queues c" "queues (c\<lparr>k8s := st\<rparr>) = queues c"
  "backlog (c\<lparr>worker_id := m\<rparr>) = backlog c" "backlog (c\<lparr>k8s := st\<rparr>) = backlog c"
  by (simp_all add: queues_def backlog_def)

text \<open>A step after the shutdown moves no goroutine, or leaves less to do.\<close>

lemma drain_step:
  assumes "sys_step s s'" "shut_down s" "sys_ok num s"
  shows "shut_down s' \<and> (workers s' = workers s \<and> left_to_do s' = left_to_do s
    \<or> (left_to_do s', left_to_do s) \<in> less_to_do)"
proof -
  have sh: "stopped s" "\<forall>q \<in> set (queues (ctl s)). shuttingDown q" using assms(2) by (auto simp: shut_queues)
  have n: "num_workers (ctl s) = num" using sys_okD(1) [OF assms(3)] by (simp add: ctl_ok_def)
  have held: "g < unat (num_workers (ctl s))" if "held (workers s g) = Some wid" for g wid
    using sys_okD(2) [OF assms(3)] that n by (auto simp: workers_ok_def)
  from assms(1) show ?thesis
  proof cases
    case (enter g)
    with sh show ?thesis by simp
  next
    case (pick g wid m)
    with moved [of g s "Serving wid" "(ctl s)\<lparr>worker_id := m\<rparr>" "stores s"] sh show ?thesis
      by (simp add: shut_queues worker_less_def)
  next
    case (take g wid obj c env)
    have "finite (proc (ctl s) (unat wid))" using proc_wid [OF assms(3), of g wid] take(2) by simp
    from take_shut [OF take(3) sh(2) sys_okD(1) [OF assms(3)] this] sh(1) take(1) show ?thesis
      by (simp add: shut_queues less_to_do_backlog)
  next
    case (handle g wid obj p p' st' infs')
    then have "(p', p) \<in> prog_next" by (auto simp: prog_next_def)
    with moved [of g s "Busy wid obj p'" "(ctl s)\<lparr>k8s := st'\<rparr>" infs'] held [of g wid] handle sh show ?thesis
      by (simp add: shut_queues worker_less_def)
  next
    case (finish g wid obj err qe c)
    note f = finish_shut [OF finish(3) sh(2)]
    from moved [of g s "Serving wid" c "stores s"] held [of g wid] finish f(3) backlog_cong [OF f(1)] f(2) sh(1) show ?thesis
      by (simp add: shut_queues worker_less_def)
  next
    case (leave g wid c)
    have "c = ctl s" using leave(3) by (auto simp: take_item_def split: option.splits prod.splits)
    with moved [of g s Idle "(ctl s)\<lparr>worker_id := release_worker_id (worker_id (ctl s)) wid\<rparr>" "stores s"]
      held [of g wid] leave sh show ?thesis by (simp add: shut_queues worker_less_def)
  next
    case (event c)
    from event_shut [OF event(2) sh(2)] event(1) sh show ?thesis
      by (auto simp: shut_queues intro: left_to_do_cong)
  next
    case inform
    with sh show ?thesis by (auto simp: shut_queues intro: left_to_do_cong)
  next
    case (ready i q now)
    then have "shuttingDown (dq_queue q)" using sh(2) by (simp add: queues_def)
    with ready have "queues (set_queue i (add_ready now q) (ctl s)) = queues (ctl s)"
      by (intro queues_same) (simp_all add: add_ready_def ShuttingDown_def)
    with ready(1) sh show ?thesis by (auto simp: shut_queues intro: left_to_do_cong)
  next
    case (recv i q now)
    with sh(2) show ?thesis by (simp add: queues_def)
  next
    case close
    with sh show ?thesis by (auto simp: shut_queues intro: left_to_do_cong)
  next
    case (stop c)
    with shutdown_shut [of _ "ctl s" c] sh show ?thesis
      by (auto simp: shut_queues Run_exit_def intro: left_to_do_cong)
  qed
qed

text \<open>Nothing waits for a queue that is shutting down.\<close>

lemma take_item_shut:
  assumes "unat wid < length (workqueue c)" "shuttingDown (dq_queue (workqueue c ! unat wid))"
  shows "\<exists>w c'. take_item wid c = Ok (w, c') \<and> (w = Shutdown \<or> (\<exists>obj. w = Work obj))"
  using assms by (auto simp: take_item_def go_index_def Get_def split: list.split)

lemma finish_item_shut:
  assumes "unat wid < length (workqueue c)" "shuttingDown (dq_queue (workqueue c ! unat wid))"
  shows "\<exists>c'. finish_item qe wid obj err c = Ok (Some c')"
  using assms
  by (auto simp: finish_item_def go_index_def AddRateLimited_def AddAfter_def ShuttingDown_def
    split: option.split go_error.split prod.split)

section \<open>Properties\<close>

subsection \<open>No key is lost\<close>

text \<open>The keys a queue still has to do: pending, or being processed.\<close>

definition open_keys :: "'w AviController \<Rightarrow> nat \<Rightarrow> iface set" where
  "open_keys c i = pending (workqueue c ! i) \<union> proc c i"

definition live :: "'w AviController \<Rightarrow> nat \<Rightarrow> bool" where
  "live c i \<longleftrightarrow> \<not> shuttingDown (dq_queue (workqueue c ! i)) \<and> \<not> stopCh_closed (workqueue c ! i)"

lemma open_keys_set_queue:
  assumes "j < length (workqueue c)" "i = j \<Longrightarrow> pending (workqueue c ! j) \<subseteq> pending q"
    "same_processing (workqueue c ! j) q"
  shows "open_keys c i \<subseteq> open_keys (set_queue j q c) i"
  using assms by (cases "i = j") (auto simp: open_keys_def proc_def same_processing_def)

lemma open_keys_event:
  assumes "informer_event c c'" "live c i"
  shows "open_keys c i \<subseteq> open_keys c' i"
proof -
  consider "c' = c" | qe key where "enqueue qe key c = Ok (Some c')"
    using informer_event_cases [OF assms(1)] by blast
  then show ?thesis
  proof cases
    case 2
    from enqueue_queue [OF this] obtain j q' where q: "j < length (workqueue c)" "c' = set_queue j q' c"
      "AddRateLimited (qe_stop qe) (qe_now qe) (qe_bucket qe) (IStr key) (workqueue c ! j) = Some q'" by blast
    show ?thesis
      unfolding q(2)
      by (rule open_keys_set_queue [OF q(1) _ AddRateLimited_processing [OF q(3)]])
        (use assms(2) AddRateLimited_pending(1) [OF q(3)] in \<open>auto simp: live_def\<close>)
  qed simp
qed

lemma open_keys_take:
  assumes "take_item wid c = Ok (Work obj, c')" "ctl_ok num c"
  shows "open_keys c i \<subseteq> open_keys c' i"
proof -
  from assms(1) obtain q q' where q: "unat wid < length (workqueue c)" "q = workqueue c ! unat wid"
    "Get (dq_queue q) = Some (Some obj, q')" "c' = set_queue (unat wid) (q\<lparr>dq_queue := q'\<rparr>) c"
    by (auto simp: take_item_def go_index_eq_Ok split: option.splits prod.splits)
  have "pending q \<subseteq> insert obj (pending (q\<lparr>dq_queue := q'\<rparr>))"
    using wq.get_itemD(2) [OF q(3)] by (auto simp: pending_def)
  then show ?thesis
    using wq.get_itemD(3) [OF q(3)] q(1,2) unfolding q(4)
    by (cases "i = unat wid") (auto simp: open_keys_def proc_def)
qed

lemma open_keys_frame:
  "open_keys (c\<lparr>worker_id := m\<rparr>) i = open_keys c i" "open_keys (c\<lparr>k8s := st\<rparr>) i = open_keys c i"
  by (simp_all add: open_keys_def proc_def)

text \<open>An item leaves the open keys only when its handler succeeded or asked to skip it.\<close>

definition settled :: "go_error option \<Rightarrow> bool" where
  "settled err \<longleftrightarrow> err = None \<or> (\<exists>m. err = Some (SkipSyncError m))"

lemma finish_item_unsettled:
  assumes "finish_item qe wid obj err c = Ok (Some c')" "\<not> settled err"
  shows "\<exists>q1. unat wid < length (workqueue c) \<and> c' = set_queue (unat wid) (dq_Done obj q1) c
    \<and> AddRateLimited (qe_stop qe) (qe_now qe) (qe_bucket qe) obj (workqueue c ! unat wid) = Some q1"
  using assms by (auto simp: finish_item_def go_index_eq_Ok settled_def split: option.splits go_error.splits)

lemma open_keys_finish:
  assumes "finish_item qe wid obj err c = Ok (Some c')" "live c i" "x \<in> open_keys c i"
  shows "x \<in> open_keys c' i \<or> i = unat wid \<and> x = obj \<and> settled err"
proof -
  from finish_item_queue [OF assms(1)] obtain q1 where q1: "unat wid < length (workqueue c)"
    "c' = set_queue (unat wid) (dq_Done obj q1) c" "same_processing (workqueue c ! unat wid) q1"
    "q1 = Forget obj (workqueue c ! unat wid)
       \<or> AddRateLimited (qe_stop qe) (qe_now qe) (qe_bucket qe) obj (workqueue c ! unat wid) = Some q1" by blast
  show ?thesis
  proof (cases "i = unat wid")
    case True
    have p: "pending (workqueue c ! i) \<subseteq> pending q1"
      using q1(4)
    proof
      assume "AddRateLimited (qe_stop qe) (qe_now qe) (qe_bucket qe) obj (workqueue c ! unat wid) = Some q1"
      from AddRateLimited_pending(1) [OF this] assms(2) True show ?thesis by (auto simp: live_def)
    qed (simp add: Forget_facts True)
    have "obj \<in> pending (workqueue c' ! i)" if u: "\<not> settled err"
    proof -
      from finish_item_unsettled [OF assms(1) u] obtain q2 where q2: "c' = set_queue (unat wid) (dq_Done obj q2) c"
        "AddRateLimited (qe_stop qe) (qe_now qe) (qe_bucket qe) obj (workqueue c ! unat wid) = Some q2" by blast
      from AddRateLimited_pending(1) [OF q2(2)] assms(2) True q2(1) q1(1) show ?thesis
        by (simp add: live_def dq_Done_facts)
    qed
    with p True q1(1-3) assms(3) show ?thesis
      by (auto simp: open_keys_def proc_def same_processing_def dq_Done_facts)
  next
    case False
    with q1(1,2) assms(3) show ?thesis by (auto simp: open_keys_def proc_def)
  qed
qed

lemma open_keys_shutdown:
  "shutdown_queues js c = Ok c' \<Longrightarrow> open_keys c i \<subseteq> open_keys c' i"
proof (induction js c rule: shutdown_queues.induct)
  case (2 j js c)
  from "2.prems" obtain q' where q: "j < length (workqueue c)" "dq_ShutDown (workqueue c ! j) = Ok q'"
    "shutdown_queues js (set_queue j q' c) = Ok c'" by (auto simp: go_index_eq_Ok)
  have "open_keys c i \<subseteq> open_keys (set_queue j q' c) i"
    by (rule open_keys_set_queue [OF q(1)])
      (use q(2) in \<open>auto simp: dq_ShutDown_def ShutDown_def same_processing_def pending_def split: if_splits\<close>)
  with "2.IH" [OF q(3)] show ?case by simp
qed simp

text \<open>
  C8: in every state the running controller can reach, a key a live queue has to do is still
  to be done after the next step, whatever thread takes it, unless that step ends the
  handling of this very key, whose handler has returned without an error or with
  \<^verbatim>\<open>SkipSyncError\<close>.
\<close>

theorem no_key_lost:
  assumes "startable num st" "reachable num st s" "sys_step s s'" "i < unat num" "live (ctl s) i"
    "x \<in> open_keys (ctl s) i"
  shows "x \<in> open_keys (ctl s') i
    \<or> (\<exists>g err. workers s g = Busy (of_nat i) x (Return err) \<and> workers s' g = Serving (of_nat i)
         \<and> (err = None \<or> (\<exists>m. err = Some (SkipSyncError m))))"
proof -
  have s: "sys_ok num s" by (rule reachable_ok [OF assms(1,2)])
  note c = sys_okD(1) [OF s]
  from assms(3) show ?thesis
  proof cases
    case (finish g wid obj err qe c2)
    from open_keys_finish [OF finish(3) assms(5,6)] have "x \<in> open_keys c2 i \<or> i = unat wid \<and> x = obj \<and> settled err" .
    then show ?thesis
    proof
      assume e: "i = unat wid \<and> x = obj \<and> settled err"
      then have wid: "wid = of_nat i" by simp
      from finish e show ?thesis unfolding settled_def wid by (intro disjI2 exI [of _ g]) fastforce
    qed (use finish in simp)
  next
    case (ready j q now)
    have "open_keys (ctl s) i \<subseteq> open_keys (set_queue j (add_ready now q) (ctl s)) i"
      by (rule open_keys_set_queue)
        (use ready c assms(4,5) in \<open>auto simp: add_ready_processing add_ready_pending ctl_ok_nth live_def\<close>)
    with ready assms(6) show ?thesis by auto
  next
    case (recv j q now)
    have "open_keys (ctl s) i \<subseteq> open_keys (set_queue j (receive now q) (ctl s)) i"
      by (rule open_keys_set_queue)
        (use recv c assms(4,5) in \<open>auto simp: receive_processing receive_pending ctl_ok_nth live_def\<close>)
    with recv assms(6) show ?thesis by auto
  next
    case (leave g wid c)
    have "c = ctl s" using leave(3) by (auto simp: take_item_def split: option.splits prod.splits)
    with leave assms(6) show ?thesis by (simp add: open_keys_frame)
  next
    case (stop c)
    with assms(6) open_keys_shutdown [of _ "ctl s" c i] show ?thesis by (auto simp: Run_exit_def)
  qed (use assms(5,6) c in \<open>auto simp: open_keys_frame dest: open_keys_event open_keys_take\<close>)
qed

lemma one_startable: "startable 1 one_state"
  by (simp add: startable_def one_state_def st_ok_new) (simp add: NewK8sEp_def)

text \<open>The first steps of a controller with one worker.\<close>

definition one_start :: "unit Sys" where
  "one_start = start 1 one_state no_informers"

lemma one_reachable: "sys_step\<^sup>*\<^sup>* one_start s \<Longrightarrow> reachable 1 one_state s"
  by (auto simp: reachable_def one_start_def)

lemma one_enter: "sys_step (one_start\<lparr>ctl := c\<rparr>) (one_start\<lparr>ctl := c, workers := (\<lambda>_. Idle)(0 := Entering)\<rparr>)"
  if "num_workers c = 1"
  using sys_step.enter [of 0 "one_start\<lparr>ctl := c\<rparr>"] that by (simp add: one_start_def start_def)

theorem no_key_lost_witness:
  "\<exists>s s'. reachable 1 one_state s \<and> sys_step s s' \<and> IStr ''Service/n:s/n/s'' \<in> open_keys (ctl s') 0"
proof -
  let ?c = "NewAviController 1 one_state" and ?key = "''Service/n:s/n/s''"
  let ?q = "newDelayingQueue DefaultControllerRateLimiter :: iface delayingType"
  obtain q where q: "AddRateLimited False 0 0 (IStr ?key) ?q = Some q"
    using AddRateLimited_waits [of False 0 0 "IStr ?key" ?q] by (fastforce simp: newDelayingQueue_def)
  have b: "Bkt ?key 1 = 0" by (simp add: Bkt_def)
  have wq: "workqueue ?c = [?q]" "num_workers ?c = 1" "ctl one_start = ?c"
    by (simp_all add: NewAviController_def one_start_def start_def)
  have k: "obj_key ''Service'' (KService one_svc) = Ok ?key"
    by (simp add: obj_key_of key_of_def meta_key_def one_svc_def)
  have "svc_AddFunc \<lparr>qe_now = 0, qe_bucket = 0, qe_stop = False\<rparr> (KService one_svc) ?c = Ok (Some (set_queue 0 q ?c))"
    using k q b wq by (simp add: svc_AddFunc_def on_add_def is_svc_def enqueue_bucket)
  then have "informer_event ?c (set_queue 0 q ?c)" by (rule informer_event.intros)
  then have e: "sys_step one_start (one_start\<lparr>ctl := set_queue 0 q ?c\<rparr>)"
    using sys_step.event [of one_start] wq by simp
  let ?s = "one_start\<lparr>ctl := set_queue 0 q ?c\<rparr>"
  obtain s' where s': "sys_step ?s s'" using one_enter [of "set_queue 0 q ?c"] wq by auto
  have r: "reachable 1 one_state ?s" using e by (blast intro: one_reachable)
  have "live (ctl ?s) 0" using q wq
    by (auto simp: live_def AddRateLimited_def AddAfter_def newDelayingQueue_def newQueue_def Add_def Let_def split: prod.splits if_splits)
  moreover have "IStr ?key \<in> open_keys (ctl ?s) 0"
    using AddRateLimited_pending(1) [OF q] wq by (simp add: open_keys_def newDelayingQueue_def newQueue_def)
  moreover have "workers ?s g \<noteq> Busy wid x p" for g wid x p by (simp add: one_start_def start_def)
  ultimately have "IStr ?key \<in> open_keys (ctl s') 0"
    using no_key_lost [OF one_startable r s', of 0 "IStr ?key"] by auto
  with r s' show ?thesis by blast
qed

text \<open>
  C9: in every state the running controller can reach, a goroutine that serves a queue has
  the number of an existing queue, no other goroutine has the same number, and each queue has
  at most one item being processed: the one its goroutine works on.
\<close>

theorem workers_exclusive:
  assumes "startable num st" "reachable num st s" "held (workers s g) = Some wid"
  shows "unat wid < unat num \<and> (held (workers s g') = Some wid \<longrightarrow> g' = g)
    \<and> proc (ctl s) (unat wid) = {x. \<exists>p. workers s g = Busy wid x p}"
proof -
  note s = reachable_ok [OF assms(1,2)]
  have "unat wid < unat num" using sys_okD(2) [OF s] assms(3) by (auto simp: workers_ok_def)
  with proc_wid [OF s assms(3)] same_wid [OF s assms(3), of g'] show ?thesis by (auto simp: item_Some)
qed

lemma one_serving: "\<exists>s wid. reachable 1 one_state s \<and> held (workers s 0) = Some wid"
proof -
  let ?c = "ctl one_start"
  let ?s = "one_start\<lparr>ctl := ?c, workers := (\<lambda>_. Idle)(0 := Entering)\<rparr>"
  obtain wid m where p: "pick_worker_id 1 (worker_id ?c) = (wid, m)" by fastforce
  have n: "num_workers ?c = 1" by (simp add: one_start_def start_def NewAviController_def)
  then have e: "sys_step one_start ?s" using one_enter [of ?c] by simp
  let ?s' = "?s\<lparr>ctl := ?c\<lparr>worker_id := m\<rparr>, workers := (workers ?s)(0 := Serving wid)\<rparr>"
  have "sys_step ?s ?s'" using sys_step.pick [of 0 ?s wid m] p n by simp
  with e have r: "reachable 1 one_state ?s'"
    by (intro one_reachable) (rule converse_rtranclp_into_rtranclp, assumption, rule r_into_rtranclp)
  have "held (workers ?s' 0) = Some wid" by simp
  with r show ?thesis by blast
qed

theorem workers_exclusive_witness:
  "\<exists>s g wid. reachable 1 one_state s \<and> held (workers s g) = Some wid \<and> unat wid < 1"
proof -
  obtain s wid where s: "reachable 1 one_state s" "held (workers s 0) = Some wid" using one_serving by blast
  from workers_exclusive [OF one_startable s] s show ?thesis by (intro exI [of _ s] exI [of _ 0] exI [of _ wid]) simp
qed

text \<open>
  C10: in every state the running controller can reach, in the middle of any handlers and
  however their steps interleave, the caches hold objects of the right kind and well-formed
  entries, every queue is well formed, and a worker number is the index of a queue and of a
  REST client, so that \<^verbatim>\<open>AviClient[shard]\<close> is in range.
\<close>

theorem controller_state_ok:
  assumes "startable num st" "reachable num st s"
  shows "st_ok (k8s (ctl s)) \<and> (\<forall>q \<in> set (workqueue (ctl s)). dq_inv q)
    \<and> (\<forall>g wid. held (workers s g) = Some wid \<longrightarrow>
         unat wid < length (AviClient (k8s (ctl s))) \<and> unat wid < length (workqueue (ctl s)))"
proof -
  note s = reachable_ok [OF assms]
  have "unat wid < unat num" if "held (workers s g) = Some wid" for g wid
    using sys_okD(2) [OF s] that by (auto simp: workers_ok_def)
  with sys_okD(1) [OF s] show ?thesis unfolding ctl_ok_def by (metis less_le_trans)
qed

theorem controller_state_ok_witness:
  "\<exists>s wid. reachable 1 one_state s \<and> held (workers s 0) = Some wid \<and> st_ok (k8s (ctl s))
    \<and> unat wid < length (AviClient (k8s (ctl s)))"
proof -
  obtain s wid where s: "reachable 1 one_state s" "held (workers s 0) = Some wid" using one_serving by blast
  from controller_state_ok [OF one_startable s(1)] s show ?thesis by blast
qed

subsection \<open>The shutdown ends\<close>

text \<open>
  C11: once the stop channel is closed and \<^verbatim>\<open>Run\<close> has shut the queues down, the goroutines come to
  rest in every run, however their handlers' steps, the informers and the waiting loops
  interleave: from some point on no goroutine moves.
\<close>

theorem shutdown_terminates:
  assumes "startable num st" "reachable num st (\<sigma> 0)" "shut_down (\<sigma> 0)" "\<And>k. sys_step (\<sigma> k) (\<sigma> (Suc k))"
  shows "\<exists>N. \<forall>k \<ge> N. workers (\<sigma> k) = workers (\<sigma> N)"
proof -
  have inv: "sys_ok num (\<sigma> k) \<and> shut_down (\<sigma> k)" for k
    using reachable_ok [OF assms(1,2)] assms(3,4) drain_step sys_ok_step by (induction k) blast+
  note down = drain_step [OF assms(4) conjunct2 [OF inv] conjunct1 [OF inv]]
  have "left_to_do (\<sigma> (Suc k)) = left_to_do (\<sigma> k) \<or> (left_to_do (\<sigma> (Suc k)), left_to_do (\<sigma> k)) \<in> less_to_do" for k
    using down [of k] by blast
  from wf_stable [where m = "\<lambda>k. left_to_do (\<sigma> k)", OF wf_less_to_do this] obtain N where
    N: "\<forall>k \<ge> N. left_to_do (\<sigma> k) = left_to_do (\<sigma> N)" by blast
  have "workers (\<sigma> k) = workers (\<sigma> N)" if "N \<le> k" for k
    using that
  proof (induction k rule: dec_induct)
    case (step k)
    then have "left_to_do (\<sigma> (Suc k)) = left_to_do (\<sigma> k)" by (metis N le_SucI)
    then have "(left_to_do (\<sigma> (Suc k)), left_to_do (\<sigma> k)) \<notin> less_to_do"
      using wf_not_refl [OF wf_less_to_do, of "left_to_do (\<sigma> k)"] by simp
    with down [of k] step.IH show ?case by simp
  qed simp
  then show ?thesis by blast
qed

lemma one_shut_down: "\<exists>s. reachable 1 one_state s \<and> shut_down s"
proof -
  let ?s = "one_start\<lparr>stopped := True\<rparr>"
  obtain c where c: "Run_exit (ctl ?s) = Ok c" "\<forall>q \<in> set (workqueue c). shuttingDown (dq_queue q)"
    by (auto simp: Run_exit_def one_start_def start_def NewAviController_def go_index_def dq_ShutDown_def
      newDelayingQueue_def ShutDown_def set_queue_def)
  have "sys_step ?s (?s\<lparr>ctl := c\<rparr>)" using c(1) by (intro sys_step.stop) simp_all
  with sys_step.close [of one_start] have "reachable 1 one_state (?s\<lparr>ctl := c\<rparr>)"
    by (intro one_reachable) (rule converse_rtranclp_into_rtranclp, assumption, rule r_into_rtranclp)
  with c(2) show ?thesis by (intro exI [of _ "?s\<lparr>ctl := c\<rparr>"]) (simp add: shut_down_def)
qed

theorem shutdown_terminates_witness:
  "\<exists>\<sigma>. reachable 1 one_state (\<sigma> 0) \<and> shut_down (\<sigma> 0) \<and> (\<exists>N. \<forall>k \<ge> N. workers (\<sigma> k) = workers (\<sigma> N))"
proof -
  obtain s where s: "reachable 1 one_state s" "shut_down s" using one_shut_down by blast
  then have "s\<lparr>stopped := True\<rparr> = s" by (simp add: shut_down_def)
  then have "sys_step s s" using sys_step.close [of s] by simp
  with shutdown_terminates [OF one_startable, of "\<lambda>_. s"] s show ?thesis by (intro exI [of _ "\<lambda>_. s"]) simp
qed



subsection \<open>A worker alone\<close>

lemma handle_steps:
  assumes "workers s g = Busy wid obj p" "prog_step\<^sup>*\<^sup>* (p, k8s (ctl s), stores s) (p', st', infs')"
  shows "sys_step\<^sup>*\<^sup>* s (s\<lparr>ctl := (ctl s)\<lparr>k8s := st'\<rparr>, workers := (workers s)(g := Busy wid obj p'), stores := infs'\<rparr>)"
  using assms(2)
proof (induction "(p', st', infs')" arbitrary: p' st' infs' rule: rtranclp_induct)
  case base
  have "(ctl s)\<lparr>k8s := k8s (ctl s)\<rparr> = ctl s" "(workers s)(g := Busy wid obj p) = workers s"
    "s\<lparr>ctl := ctl s, workers := workers s, stores := stores s\<rparr> = s" using assms(1) by auto
  then show ?case by simp
next
  case (step q)
  obtain p1 st1 infs1 where q: "q = (p1, st1, infs1)" by (cases q) auto
  let ?t = "s\<lparr>ctl := (ctl s)\<lparr>k8s := st1\<rparr>, workers := (workers s)(g := Busy wid obj p1), stores := infs1\<rparr>"
  have "sys_step ?t (s\<lparr>ctl := (ctl s)\<lparr>k8s := st'\<rparr>, workers := (workers s)(g := Busy wid obj p'), stores := infs'\<rparr>)"
    using sys_step.handle [of ?t g wid obj p1 p' st' infs'] step.hyps(2) q by simp
  with step.hyps(3) [OF q] show ?case by (rule rtranclp.rtrancl_into_rtrancl)
qed

lemma item_prog_steps:
  assumes "sync_item infs (at_stores env infs) wid obj c = Ok (err, c')"
  shows "\<exists>st'. c' = c\<lparr>k8s := st'\<rparr> \<and> prog_step\<^sup>*\<^sup>* (item_prog env wid obj, k8s c, infs) (Return err, st', infs)"
proof (cases "\<exists>ev. obj = IStr ev")
  case True
  then obtain ev where ev: "obj = IStr ev" by blast
  with assms obtain st' where st': "syncHandler infs (at_stores env infs) ev wid (k8s c) = Ok (err, st')" "c' = c\<lparr>k8s := st'\<rparr>"
    by (auto simp: sync_item_def)
  then have "run (sync_prog env ev wid) (k8s c, infs) = Ok (err, st', infs)" by (simp add: run_sync_prog)
  with run_steps [OF this] st'(2) ev show ?thesis by (auto simp: item_prog_def)
next
  case False
  with assms have "err = None" "c' = c" by (cases obj; simp add: sync_item_def)+
  with False show ?thesis by (intro exI [of _ "k8s c"]) (cases obj; simp add: item_prog_def)
qed

lemma processNextWorkItem_cases:
  assumes "processNextWorkItem infs env qe wid c = Ok (Some (again, c'))"
  shows "\<not> again \<and> take_item wid c = Ok (Shutdown, c')
    \<or> again \<and> (\<exists>obj c1 err c2. take_item wid c = Ok (Work obj, c1) \<and> sync_item infs env wid obj c1 = Ok (err, c2)
        \<and> finish_item qe wid obj err c2 = Ok (Some c'))"
proof -
  from assms obtain w c1 where t: "take_item wid c = Ok (w, c1)" by (auto simp: processNextWorkItem_def)
  with assms show ?thesis by (cases w) (auto simp: processNextWorkItem_def split: option.splits)
qed

lemma round_run:
  assumes "workers s g = Serving wid"
    "processNextWorkItem (stores s) (at_stores env (stores s)) qe wid (ctl s) = Ok (Some (True, c))"
  shows "sys_step\<^sup>*\<^sup>* s (s\<lparr>ctl := c\<rparr>)"
proof -
  from assms(2) obtain obj c1 err c2 where t: "take_item wid (ctl s) = Ok (Work obj, c1)"
    and i: "sync_item (stores s) (at_stores env (stores s)) wid obj c1 = Ok (err, c2)"
    and f: "finish_item qe wid obj err c2 = Ok (Some c)"
    using processNextWorkItem_cases [OF assms(2)] by blast
  from item_prog_steps [OF i] obtain st' where st': "c2 = c1\<lparr>k8s := st'\<rparr>"
    "prog_step\<^sup>*\<^sup>* (item_prog env wid obj, k8s c1, stores s) (Return err, st', stores s)" by blast
  let ?s1 = "s\<lparr>ctl := c1, workers := (workers s)(g := Busy wid obj (item_prog env wid obj))\<rparr>"
  let ?s2 = "s\<lparr>ctl := c2, workers := (workers s)(g := Busy wid obj (Return err))\<rparr>"
  have "sys_step s ?s1" using sys_step.take [OF assms(1)] t by simp
  moreover have "sys_step\<^sup>*\<^sup>* ?s1 ?s2"
    using handle_steps [of ?s1 g wid obj "item_prog env wid obj" "Return err" st' "stores s"] st' by simp
  moreover have "sys_step ?s2 (s\<lparr>ctl := c, workers := (workers s)(g := Serving wid)\<rparr>)"
    using sys_step.finish [of ?s2 g wid obj err qe c] f by simp
  moreover have "(workers s)(g := Serving wid) = workers s" using assms(1) by auto
  ultimately show ?thesis by (simp add: converse_rtranclp_into_rtranclp rtranclp.rtrancl_into_rtrancl)
qed

text \<open>
  A round of \<^verbatim>\<open>processNextWorkItem\<close>, in which nothing else happens and the informer stores do not
  change, is a run of the step relation: the goroutine takes the item, goes through the
  handler access by access and finishes, and the controller is the one the sequential
  definition computes; when the queue is shut down and empty, it gives its number back.
\<close>

theorem round_is_a_run:
  assumes "workers s g = Serving wid"
    "processNextWorkItem (stores s) (at_stores env (stores s)) qe wid (ctl s) = Ok (Some (again, c))"
  shows "if again then sys_step\<^sup>*\<^sup>* s (s\<lparr>ctl := c\<rparr>)
    else sys_step s (s\<lparr>ctl := c\<lparr>worker_id := release_worker_id (worker_id c) wid\<rparr>, workers := (workers s)(g := Idle)\<rparr>)"
proof (cases again)
  case False
  with assms(2) have "take_item wid (ctl s) = Ok (Shutdown, c)"
    using processNextWorkItem_cases by blast
  with False sys_step.leave [OF assms(1)] show ?thesis by simp
qed (use round_run [OF assms(1)] assms(2) in simp)

theorem round_is_a_run_witness:
  "\<exists>c s. processNextWorkItem (stores s) (at_stores one_env (stores s)) \<lparr>qe_now = 0, qe_bucket = 0, qe_stop = False\<rparr> 0 (ctl s)
       = Ok (Some (True, c)) \<and> Len (dq_queue (workqueue (ctl s) ! 0)) = 1 \<and> sys_step\<^sup>*\<^sup>* s (s\<lparr>ctl := c\<rparr>)"
proof -
  let ?q = "newDelayingQueue DefaultControllerRateLimiter\<lparr>dq_queue := Add (IStr ''x'') newQueue\<rparr>"
  let ?s = "one_start\<lparr>ctl := ctl one_start\<lparr>workqueue := [?q]\<rparr>, workers := (\<lambda>_. Idle)(0 := Serving 0)\<rparr>"
  let ?qe = "\<lparr>qe_now = 0, qe_bucket = 0, qe_stop = False\<rparr>"
  have x: "SplitN 3 ''/'' ''x'' = [''x'']" by code_simp
  obtain c where c: "processNextWorkItem (stores ?s) (at_stores one_env (stores ?s)) ?qe 0 (ctl ?s) = Ok (Some (True, c))"
    by (auto simp: processNextWorkItem_def take_item_def go_index_def Get_def Add_def newQueue_def Let_def
      set_queue_def sync_item_def syncHandler_def x finish_item_def)
  have "Len (dq_queue (workqueue (ctl ?s) ! 0)) = 1" by (simp add: Len_def Add_def newQueue_def)
  with c round_is_a_run [of ?s 0 0 one_env ?qe True c] show ?thesis
    by (intro exI [of _ c] exI [of _ ?s]) simp
qed

end
