(* ===== verification/Mcp.thy ===== *)
theory Mcp
  imports Go_Net
begin

text \<open>
  \<^verbatim>\<open>pkg/mcp\<close>: the client of Istio's Mesh Configuration Protocol and the controller that receives
  its updates.

  The gRPC connection and the sink client of Istio are the environment: \<open>dial\<close> opens a
  connection to a host, \<open>launch\<close> starts the goroutines of a start function on the connections
  it captured. The type \<open>'m\<close> is that of protobuf messages, which the code passes around and
  never inspects; \<^verbatim>\<open>fmt.Println\<close> lines are the values they print.

  The goroutines of the start function are the step relation \<open>mcp_step\<close>, in which the stop channel
  may be closed at any time. \<^verbatim>\<open>main.go\<close> never closes the channel it passes, so that in the program as
  it is the clients are never stopped.
\<close>

section \<open>mcp_client.go: the configuration types\<close>

record 'm ProtoSchema =
  ps_ClusterScoped :: bool
  ps_Type :: string
  ps_Plural :: string
  ps_Group :: string
  ps_Version :: string
  ps_MessageName :: string
  ps_Validate :: "string \<Rightarrow> string \<Rightarrow> 'm \<Rightarrow> go_error option"
  ps_Collection :: string

definition ValidateVirtualService :: "string \<Rightarrow> string \<Rightarrow> 'm \<Rightarrow> go_error option" where
  "ValidateVirtualService name namespace msg = None"

definition ValidateGateway :: "string \<Rightarrow> string \<Rightarrow> 'm \<Rightarrow> go_error option" where
  "ValidateGateway name namespace msg = None"

definition ValidateServiceEntry :: "string \<Rightarrow> string \<Rightarrow> 'm \<Rightarrow> go_error option" where
  "ValidateServiceEntry name namespace msg = None"

definition VirtualServiceSchema :: "'m ProtoSchema" where
  "VirtualServiceSchema =
     \<lparr>ps_ClusterScoped = False, ps_Type = ''virtual-service'', ps_Plural = ''virtual-services'',
      ps_Group = ''networking'', ps_Version = ''v1alpha3'',
      ps_MessageName = ''istio.networking.v1alpha3.VirtualService'',
      ps_Validate = ValidateVirtualService,
      ps_Collection = ''istio/networking/v1alpha3/virtualservices''\<rparr>"

definition GatewaySchema :: "'m ProtoSchema" where
  "GatewaySchema =
     \<lparr>ps_ClusterScoped = False, ps_Type = ''gateway'', ps_Plural = ''gateways'',
      ps_Group = ''networking'', ps_Version = ''v1alpha3'',
      ps_MessageName = ''istio.networking.v1alpha3.Gateway'', ps_Validate = ValidateGateway,
      ps_Collection = ''istio/networking/v1alpha3/gateways''\<rparr>"

definition ServiceEntrySchema :: "'m ProtoSchema" where
  "ServiceEntrySchema =
     \<lparr>ps_ClusterScoped = False, ps_Type = ''service-entry'', ps_Plural = ''service-entries'',
      ps_Group = ''networking'', ps_Version = ''v1alpha3'',
      ps_MessageName = ''istio.networking.v1alpha3.ServiceEntry'',
      ps_Validate = ValidateServiceEntry,
      ps_Collection = ''istio/networking/v1alpha3/serviceentries''\<rparr>"

definition IstioConfigTypes :: "'m ProtoSchema list" where
  "IstioConfigTypes = [VirtualServiceSchema, GatewaySchema, ServiceEntrySchema]"

section \<open>mcp_controller.go\<close>

record 'm Controller =
  synced :: "string \<rightharpoonup> bool"
  descriptorsByCollection :: "string \<rightharpoonup> 'm ProtoSchema"

definition register_descriptor :: "'m ProtoSchema \<Rightarrow> 'm Controller \<Rightarrow> 'm Controller" where
  "register_descriptor descriptor c =
     (if descriptorsByCollection c (ps_Collection descriptor) = None then
        \<lparr>synced = (synced c)(ps_Collection descriptor \<mapsto> False),
         descriptorsByCollection =
           (descriptorsByCollection c)(ps_Collection descriptor \<mapsto> descriptor)\<rparr>
      else c)"

definition controller_of :: "'m ProtoSchema list \<Rightarrow> 'm Controller" where
  "controller_of types =
     fold register_descriptor types \<lparr>synced = Map.empty, descriptorsByCollection = Map.empty\<rparr>"

definition NewController :: "'m Controller" where
  "NewController = controller_of IstioConfigTypes"

definition extractNameNamespace :: "string \<Rightarrow> string \<times> string" where
  "extractNameNamespace metadataName =
     (let segments = Split ''/'' metadataName
      in if length segments = 2 then (segments ! 0, segments ! 1) else ('''', segments ! 0))"

text \<open>An object of a change, by the name in its metadata; \<open>None\<close> is an object without metadata.\<close>

record Change =
  ch_Collection :: string
  ch_Objects :: "string option list"

definition report_object :: "string option \<Rightarrow> (string \<times> string) list \<Rightarrow> (string \<times> string) list go" where
  "report_object obj out =
     (case obj of None \<Rightarrow> Panic NilDereference | Some n \<Rightarrow> Ok (out @ [extractNameNamespace n]))"

definition Apply ::
  "Change \<Rightarrow> 'm Controller \<Rightarrow> (go_error option \<times> (string \<times> string) list \<times> 'm Controller) go" where
  "Apply change c =
     (let c1 = c\<lparr>synced := (synced c)(ch_Collection change \<mapsto> True)\<rparr>
      in go_bind (go_fold report_object (ch_Objects change) []) (\<lambda>out. Ok (None, out, c1)))"

section \<open>mcp_client.go: the client\<close>

record 'w MCPClient =
  MCPServerAddrs :: "string list"
  startFuncs :: "('w \<Rightarrow> go_error option \<times> 'w) list"

fun run_starts :: "('w \<Rightarrow> go_error option \<times> 'w) list \<Rightarrow> 'w \<Rightarrow> go_error option \<times> 'w" where
  "run_starts [] w = (None, w)"
| "run_starts (fn # fns) w =
     (case fn w of (Some err, w') \<Rightarrow> (Some err, w') | (None, w') \<Rightarrow> run_starts fns w')"

definition Start :: "'w MCPClient \<Rightarrow> 'w \<Rightarrow> go_error option \<times> 'w" where
  "Start c w = run_starts (startFuncs c) w"

definition addStartFunc :: "('w \<Rightarrow> go_error option \<times> 'w) \<Rightarrow> 'w MCPClient \<Rightarrow> 'w MCPClient" where
  "addStartFunc fn c = c\<lparr>startFuncs := startFuncs c @ [fn]\<rparr>"

text \<open>The \<^verbatim>\<open>sink.Options\<close> of a client; the reporter is left out.\<close>

record 'm Options =
  CollectionOptions :: "string list"
  Updater :: "'m Controller"
  ID :: string

definition sink_options :: "'m Options" where
  "sink_options =
     \<lparr>CollectionOptions = map ps_Collection (IstioConfigTypes :: 'm ProtoSchema list),
      Updater = NewController, ID = ''''\<rparr>"

text \<open>
  The loop over the servers: the connections made and the options of the clients on them, or
  the first error of \<^verbatim>\<open>url.Parse\<close> or of the dial.
\<close>

fun connect ::
  "(string \<Rightarrow> 'w \<Rightarrow> (go_error + 'conn) \<times> 'w) \<Rightarrow> string list \<Rightarrow> 'w
   \<Rightarrow> (go_error + ('conn \<times> 'm Options) list) \<times> 'w" where
  "connect dial [] w = (Inr [], w)"
| "connect dial (addr # addrs) w =
     (case url_Host addr of
        None \<Rightarrow> (Inl (ErrorString ''parse''), w)
      | Some host \<Rightarrow>
          (case dial host w of
             (Inl err, w') \<Rightarrow> (Inl err, w')
           | (Inr conn, w') \<Rightarrow>
               (case connect dial addrs w' of
                  (Inl err, w'') \<Rightarrow> (Inl err, w'')
                | (Inr rest, w'') \<Rightarrow> (Inr ((conn, sink_options) # rest), w''))))"

definition InitMCPClient ::
  "(string \<Rightarrow> 'w \<Rightarrow> (go_error + 'conn) \<times> 'w) \<Rightarrow> (('conn \<times> 'm Options) list \<Rightarrow> 'w \<Rightarrow> 'w)
   \<Rightarrow> 'w MCPClient \<Rightarrow> 'w \<Rightarrow> go_error option \<times> 'w MCPClient \<times> 'w" where
  "InitMCPClient dial launch c w =
     (case connect dial (MCPServerAddrs c) w of
        (Inl err, w') \<Rightarrow> (Some err, c, w')
      | (Inr clients, w') \<Rightarrow> (None, addStartFunc (\<lambda>w. (None, launch clients w)) c, w'))"

section \<open>The goroutines of the start function\<close>

text \<open>
  \<open>mr_running\<close> are the clients whose \<^verbatim>\<open>Run\<close> has not returned (the count of the wait group),
  \<open>mr_phase\<close> is where the stopping goroutine is. The loop that closes the connections takes
  them one at a time.
\<close>

datatype stopper = AwaitStop | AwaitClients | Closing nat | Finished

record McpRun =
  mr_clients :: nat
  mr_running :: "nat set"
  mr_cancelled :: bool
  mr_stop :: bool
  mr_closed :: "nat set"
  mr_reporter_closed :: bool
  mr_phase :: stopper

definition launched :: "nat \<Rightarrow> McpRun" where
  "launched n =
     \<lparr>mr_clients = n, mr_running = {0..<n}, mr_cancelled = False, mr_stop = False, mr_closed = {},
      mr_reporter_closed = False, mr_phase = AwaitStop\<rparr>"

inductive mcp_step :: "McpRun \<Rightarrow> McpRun \<Rightarrow> bool" where
  stop_sent: "mcp_step r (r\<lparr>mr_stop := True\<rparr>)"
| client_done: "i \<in> mr_running r \<Longrightarrow> mcp_step r (r\<lparr>mr_running := mr_running r - {i}\<rparr>)"
| cancel: "\<lbrakk>mr_phase r = AwaitStop; mr_stop r\<rbrakk> \<Longrightarrow>
    mcp_step r (r\<lparr>mr_cancelled := True, mr_phase := AwaitClients\<rparr>)"
| waited: "\<lbrakk>mr_phase r = AwaitClients; mr_running r = {}\<rbrakk> \<Longrightarrow> mcp_step r (r\<lparr>mr_phase := Closing 0\<rparr>)"
| close_conn: "\<lbrakk>mr_phase r = Closing i; i < mr_clients r\<rbrakk> \<Longrightarrow>
    mcp_step r (r\<lparr>mr_closed := insert i (mr_closed r), mr_phase := Closing (Suc i)\<rparr>)"
| close_reporter: "\<lbrakk>mr_phase r = Closing i; i \<ge> mr_clients r\<rbrakk> \<Longrightarrow>
    mcp_step r (r\<lparr>mr_reporter_closed := True, mr_phase := Finished\<rparr>)"

inductive_simps mcp_step_iff: "mcp_step r r'"

section \<open>Lemmas\<close>

lemma register_dom:
  "dom (synced c) = dom (descriptorsByCollection c) \<Longrightarrow>
   dom (synced (register_descriptor d c)) = dom (descriptorsByCollection (register_descriptor d c))
   \<and> dom (descriptorsByCollection (register_descriptor d c)) = insert (ps_Collection d) (dom (descriptorsByCollection c))"
  by (auto simp: register_descriptor_def split: if_splits)

lemma register_false:
  "ran (synced c) \<subseteq> {False} \<Longrightarrow> ran (synced (register_descriptor d c)) \<subseteq> {False}"
  by (auto simp: register_descriptor_def ran_def split: if_splits)

lemma fold_register:
  assumes "dom (synced c) = dom (descriptorsByCollection c)" "ran (synced c) \<subseteq> {False}"
  shows "dom (descriptorsByCollection (fold register_descriptor ds c)) = dom (descriptorsByCollection c) \<union> ps_Collection ` set ds
    \<and> dom (synced (fold register_descriptor ds c)) = dom (descriptorsByCollection (fold register_descriptor ds c))
    \<and> ran (synced (fold register_descriptor ds c)) \<subseteq> {False}"
  using assms
proof (induction ds arbitrary: c)
  case (Cons d ds)
  from register_dom [OF Cons.prems(1), of d] register_false [OF Cons.prems(2), of d]
    Cons.IH [of "register_descriptor d c"] show ?case by auto
qed auto

lemma register_first:
  "descriptorsByCollection c k = Some d \<Longrightarrow> descriptorsByCollection (fold register_descriptor ds c) k = Some d"
proof (induction ds arbitrary: c)
  case (Cons x ds)
  then have "descriptorsByCollection (register_descriptor x c) k = Some d"
    by (auto simp: register_descriptor_def)
  with Cons.IH show ?case by simp
qed simp

lemma connect_conns:
  assumes "connect dial addrs w = (Inr clients, w')"
  shows "length clients = length addrs \<and> (\<forall>c \<in> set clients. snd c = sink_options)
    \<and> (\<forall>a \<in> set addrs. url_Host a \<noteq> None)"
  using assms
proof (induction addrs arbitrary: w clients)
  case (Cons a addrs)
  then obtain host conn w1 rest where "url_Host a = Some host" "dial host w = (Inr conn, w1)"
    "connect dial addrs w1 = (Inr rest, w')" "clients = (conn, sink_options) # rest"
    by (auto split: option.splits prod.splits sum.splits)
  with Cons.IH [of w1 rest] show ?case by simp
qed simp

lemma run_starts_append:
  "run_starts (fs @ gs) w = (case run_starts fs w of (Some e, w') \<Rightarrow> (Some e, w') | (None, w') \<Rightarrow> run_starts gs w')"
  by (induction fs arbitrary: w) (auto split: prod.splits option.splits)

text \<open>
  Connections are closed after every client has returned, in order, and the reporter after
  the connections.
\<close>

definition mcp_inv :: "McpRun \<Rightarrow> bool" where
  "mcp_inv r \<longleftrightarrow>
     (case mr_phase r of
        AwaitStop \<Rightarrow> \<not> mr_cancelled r \<and> mr_closed r = {} \<and> \<not> mr_reporter_closed r
      | AwaitClients \<Rightarrow> mr_stop r \<and> mr_cancelled r \<and> mr_closed r = {} \<and> \<not> mr_reporter_closed r
      | Closing i \<Rightarrow> mr_stop r \<and> mr_cancelled r \<and> mr_running r = {} \<and> mr_closed r = {0..<i} \<and> i \<le> mr_clients r
          \<and> \<not> mr_reporter_closed r
      | Finished \<Rightarrow> mr_stop r \<and> mr_cancelled r \<and> mr_running r = {} \<and> mr_closed r = {0..<mr_clients r} \<and> mr_reporter_closed r)"

lemma mcp_inv_step: "mcp_inv r \<Longrightarrow> mcp_step r r' \<Longrightarrow> mcp_inv r'"
  by (auto simp: mcp_step_iff mcp_inv_def split: stopper.splits)

interpretation mcp: invariant_system "\<lambda>r. \<exists>n. r = launched n" mcp_step mcp_inv
proof
  fix r :: McpRun
  show "\<exists>n. r = launched n \<Longrightarrow> mcp_inv r" by (auto simp: mcp_inv_def launched_def)
qed (rule mcp_inv_step)

lemma mcp_clients_const: "mcp_step\<^sup>*\<^sup>* r r' \<Longrightarrow> mr_clients r' = mr_clients r"
  by (induction rule: rtranclp_induct) (auto simp: mcp_step_iff)

section \<open>Properties\<close>

lemma NewController_synced:
  fixes c :: "'m Controller"
  assumes "c = NewController"
  shows "dom (descriptorsByCollection c) = ps_Collection ` set (IstioConfigTypes :: 'm ProtoSchema list)"
    "synced c = (\<lambda>k. if k \<in> ps_Collection ` set (IstioConfigTypes :: 'm ProtoSchema list) then Some False else None)"
proof -
  have f: "dom (descriptorsByCollection c) = ps_Collection ` set (IstioConfigTypes :: 'm ProtoSchema list)"
    "dom (synced c) = dom (descriptorsByCollection c)" "ran (synced c) \<subseteq> {False}"
    using fold_register [of "\<lparr>synced = Map.empty, descriptorsByCollection = Map.empty\<rparr>" "IstioConfigTypes :: 'm ProtoSchema list"]
    unfolding assms NewController_def controller_of_def by simp_all
  then show "dom (descriptorsByCollection c) = ps_Collection ` set (IstioConfigTypes :: 'm ProtoSchema list)" by blast
  show "synced c = (\<lambda>k. if k \<in> ps_Collection ` set (IstioConfigTypes :: 'm ProtoSchema list) then Some False else None)"
  proof
    fix k
    show "synced c k = (if k \<in> ps_Collection ` set (IstioConfigTypes :: 'm ProtoSchema list) then Some False else None)"
      using f by (cases "synced c k") (auto simp: ran_def)
  qed
qed



text \<open>
  Stopping the client, once the channel it was started with is closed. No connection is closed while a client is still running or before
  the stop was received and the context cancelled, connections are closed from the first on,
  and the reporter is closed last, once all of them are.
\<close>

theorem mcp_stop_order:
  assumes "mcp_step\<^sup>*\<^sup>* (launched n) r"
  shows "(mr_closed r \<noteq> {} \<longrightarrow> mr_stop r \<and> mr_cancelled r \<and> mr_running r = {})
    \<and> (\<exists>k \<le> n. mr_closed r = {0..<k}) \<and> (mr_reporter_closed r \<longrightarrow> mr_closed r = {0..<n})"
proof -
  have inv: "mcp_inv r" by (rule mcp.inv_reachable [OF _ assms]) blast
  have n: "mr_clients r = n" using mcp_clients_const [OF assms] by (simp add: launched_def)
  show ?thesis
  proof (cases "mr_phase r")
    case (Closing k)
    with inv n show ?thesis by (auto simp: mcp_inv_def)
  qed (use inv n in \<open>auto simp: mcp_inv_def\<close>)
qed

theorem mcp_stop_order_witness:
  "\<exists>r. mcp_step\<^sup>*\<^sup>* (launched 0) r \<and> mr_reporter_closed r \<and> mr_closed r = {}"
proof -
  let ?a = "(launched 0)\<lparr>mr_stop := True\<rparr>"
  let ?b = "?a\<lparr>mr_cancelled := True, mr_phase := AwaitClients\<rparr>"
  let ?c = "?b\<lparr>mr_phase := Closing 0\<rparr>"
  let ?d = "?c\<lparr>mr_reporter_closed := True, mr_phase := Finished\<rparr>"
  have "mcp_step (launched 0) ?a" by (rule stop_sent)
  moreover have "mcp_step ?a ?b" by (rule cancel) (simp_all add: launched_def)
  moreover have "mcp_step ?b ?c" by (rule waited) (simp_all add: launched_def)
  moreover have "mcp_step ?c ?d" by (rule close_reporter) (simp_all add: launched_def)
  ultimately have r: "mcp_step\<^sup>*\<^sup>* (launched 0) ?d" by (meson converse_rtranclp_into_rtranclp rtranclp.rtrancl_refl)
  with mcp_stop_order [OF r] show ?thesis by (intro exI [of _ ?d]) simp
qed

end
