(* ===== verification/Cache_Sync.thy ===== *)
theory Cache_Sync
  imports Prelude
begin

text \<open>
  \<^verbatim>\<open>AviController.Start\<close> of \<^verbatim>\<open>controller.go\<close>: it starts the three informers and waits until their stores
  have been filled. The waiting is \<^verbatim>\<open>WaitForCacheSync\<close> of \<^verbatim>\<open>client-go/tools/cache\<close> on top of \<^verbatim>\<open>WaitFor\<close>
  of \<^verbatim>\<open>apimachinery/util/wait\<close> (both vendored): a loop around a \<^verbatim>\<open>select\<close> between a ticker, which has
  no timeout and so is never closed, and the stop channel. The argument of the loop is what
  its \<^verbatim>\<open>select\<close> statements receive, in order; \<open>None\<close> is a loop that still waits.
\<close>

datatype informer = ServiceInf | EndpointsInf | IngressInf

text \<open>A tick, with what \<^verbatim>\<open>HasSynced\<close> of each informer answers then, or the closed stop channel.\<close>

datatype select = Ticked "informer \<Rightarrow> bool" | StopClosed

fun WaitFor :: "((informer \<Rightarrow> bool) \<Rightarrow> bool) \<Rightarrow> select list \<Rightarrow> bool option" where
  "WaitFor fn [] = None"
| "WaitFor fn (Ticked s # rs) = (if fn s then Some True else WaitFor fn rs)"
| "WaitFor fn (StopClosed # rs) = Some False"

text \<open>The condition asks the informers in order and stops at the first that has not synced.\<close>

fun all_synced :: "informer list \<Rightarrow> (informer \<Rightarrow> bool) \<Rightarrow> bool" where
  "all_synced [] s = True"
| "all_synced (i # is) s = (if \<not> s i then False else all_synced is s)"

definition WaitForCacheSync :: "informer list \<Rightarrow> select list \<Rightarrow> bool option" where
  "WaitForCacheSync cacheSyncs rs = WaitFor (all_synced cacheSyncs) rs"

datatype start_log = TimedOut | CachesSynced

definition AviController_Start :: "select list \<Rightarrow> informer list \<times> start_log option" where
  "AviController_Start rs =
     ([ServiceInf, EndpointsInf, IngressInf],
      case WaitForCacheSync [EndpointsInf, ServiceInf, IngressInf] rs of
        None \<Rightarrow> None
      | Some ok \<Rightarrow> Some (if \<not> ok then TimedOut else CachesSynced))"

section \<open>When Start returns\<close>

lemma all_synced_iff: "all_synced is s \<longleftrightarrow> (\<forall>i \<in> set is. s i)"
  by (induction "is") auto

lemma WaitFor_waits: "WaitFor fn rs = None \<longleftrightarrow> (\<forall>r \<in> set rs. \<exists>s. r = Ticked s \<and> \<not> fn s)"
  by (induction fn rs rule: WaitFor.induct) auto

lemma WaitFor_ends: "WaitFor fn (waited @ r # rs) =
    (case r of StopClosed \<Rightarrow> Some False | Ticked s \<Rightarrow> if fn s then Some True else WaitFor fn rs)"
  if "WaitFor fn waited = None"
  using that by (induction fn waited rule: WaitFor.induct) (auto split: select.split if_splits)

lemma all_synced_started: "all_synced [EndpointsInf, ServiceInf, IngressInf] s \<longleftrightarrow> (\<forall>i. s i)"
  by (auto simp: all_synced_iff intro: informer.induct)

lemma WaitForCacheSync_waits:
  "WaitForCacheSync [EndpointsInf, ServiceInf, IngressInf] rs = None \<longleftrightarrow> (\<forall>r \<in> set rs. \<exists>s i. r = Ticked s \<and> \<not> s i)"
  by (simp add: WaitForCacheSync_def WaitFor_waits all_synced_started del: all_synced.simps)

lemma Start_waits: "snd (AviController_Start rs) = None \<longleftrightarrow> (\<forall>r \<in> set rs. \<exists>s i. r = Ticked s \<and> \<not> s i)"
  unfolding WaitForCacheSync_waits [symmetric] by (simp add: AviController_Start_def split: option.split)

section \<open>Properties\<close>

text \<open>
  C34: \<^verbatim>\<open>Start\<close> runs the three informers and returns at the first tick at which all of them have
  synced, or when the stop channel is closed, whichever its loop receives first; before that
  it waits, and only then.
\<close>

theorem start_waits_for_caches:
  "fst (AviController_Start rs) = [ServiceInf, EndpointsInf, IngressInf]
   \<and> (snd (AviController_Start rs) = None \<longleftrightarrow> (\<forall>r \<in> set rs. \<exists>s i. r = Ticked s \<and> \<not> s i))
   \<and> ((\<forall>r \<in> set waited. \<exists>s i. r = Ticked s \<and> \<not> s i) \<longrightarrow>
       snd (AviController_Start (waited @ Ticked (\<lambda>_. True) # rs)) = Some CachesSynced
     \<and> snd (AviController_Start (waited @ StopClosed # rs)) = Some TimedOut)"
proof -
  have "snd (AviController_Start (waited @ Ticked (\<lambda>_. True) # rs)) = Some CachesSynced
      \<and> snd (AviController_Start (waited @ StopClosed # rs)) = Some TimedOut"
    if "\<forall>r \<in> set waited. \<exists>s i. r = Ticked s \<and> \<not> s i"
    using WaitForCacheSync_waits [of waited] that
    by (simp add: AviController_Start_def WaitForCacheSync_def WaitFor_ends all_synced_started del: all_synced.simps)
  then show ?thesis using Start_waits [of rs] by (simp add: AviController_Start_def)
qed

theorem start_waits_for_caches_witness:
  "snd (AviController_Start [Ticked (\<lambda>i. i = ServiceInf), Ticked (\<lambda>_. True)]) = Some CachesSynced"
  using start_waits_for_caches [of "[]" "[Ticked (\<lambda>i. i = ServiceInf)]"] by auto

end
