(* ===== verification/Avi_Log.thy ===== *)
theory Avi_Log
  imports Go_Strings
begin

text \<open>
  \<^verbatim>\<open>pkg/utils/log.go\<close>: the four loggers of the program, with what the source uses of Go's \<^verbatim>\<open>log\<close>
  package: a logger writes one line per call, made of its prefix, the date and time and the
  position of the call, as its flags say, and the message. \<open>Fatalf\<close> ends the process after
  writing, \<open>Panic\<close> panics.

  The writer \<^verbatim>\<open>ioutil.Discard\<close> drops what it is given; standard output is the list of the lines
  written. The other theories leave the calls of the loggers out, since the program never reads what
  they write.
\<close>

unbundle bit_operations_syntax

section \<open>The loggers\<close>

datatype Writer = Discard | Stdout

record Logger =
  lg_out :: Writer
  lg_prefix :: string
  lg_flag :: nat

record AviLogger =
  Trace :: Logger
  Info :: Logger
  Warning :: Logger
  Error :: Logger

definition Ldate :: nat where "Ldate = 1"
definition Ltime :: nat where "Ltime = 2"
definition Lshortfile :: nat where "Lshortfile = 16"

definition log_New :: "Writer \<Rightarrow> string \<Rightarrow> nat \<Rightarrow> Logger" where
  "log_New out pre flag = \<lparr>lg_out = out, lg_prefix = pre, lg_flag = flag\<rparr>"

definition AviLog :: AviLogger where
  "AviLog =
     \<lparr>Trace = log_New Discard ''TRACE: '' (Ldate OR Ltime OR Lshortfile),
      Info = log_New Stdout ''INFO: '' (Ldate OR Ltime OR Lshortfile),
      Warning = log_New Stdout ''WARNING: '' (Ldate OR Ltime OR Lshortfile),
      Error = log_New Stdout ''ERROR: '' (Ldate OR Ltime OR Lshortfile)\<rparr>"

section \<open>Writing a line\<close>

text \<open>The moment and the position of a call.\<close>

record LogCall =
  lc_year :: nat
  lc_month :: nat
  lc_day :: nat
  lc_hour :: nat
  lc_min :: nat
  lc_sec :: nat
  lc_file :: string
  lc_line :: nat

definition pad :: "nat \<Rightarrow> nat \<Rightarrow> string" where
  "pad wid i = replicate (wid - length (nat_to_string i)) (CHR ''0'') @ nat_to_string i"

definition short_file :: "string \<Rightarrow> string" where
  "short_file file = rev (takeWhile (\<lambda>c. c \<noteq> CHR ''/'') (rev file))"

definition formatHeader :: "Logger \<Rightarrow> LogCall \<Rightarrow> string" where
  "formatHeader l t =
     lg_prefix l
     @ (if lg_flag l AND Ldate \<noteq> 0
        then pad 4 (lc_year t) @ ''/'' @ pad 2 (lc_month t) @ ''/'' @ pad 2 (lc_day t) @ '' '' else '''')
     @ (if lg_flag l AND Ltime \<noteq> 0
        then pad 2 (lc_hour t) @ '':'' @ pad 2 (lc_min t) @ '':'' @ pad 2 (lc_sec t) @ '' '' else '''')
     @ (if lg_flag l AND Lshortfile \<noteq> 0
        then short_file (lc_file t) @ '':'' @ nat_to_string (lc_line t) @ '': '' else '''')"

definition newline :: char where
  "newline = CHR 0x0A"

definition Output :: "Logger \<Rightarrow> LogCall \<Rightarrow> string \<Rightarrow> string list \<Rightarrow> string list" where
  "Output l t s out =
     (let line = formatHeader l t @ s @ (if s = '''' \<or> last s \<noteq> newline then [newline] else '''')
      in case lg_out l of Discard \<Rightarrow> out | Stdout \<Rightarrow> out @ [line])"

text \<open>\<open>Printf\<close> and \<open>Print\<close> differ in how the message \<open>s\<close> is formatted, \<open>Println\<close> ends it with a newline.\<close>

definition Print :: "Logger \<Rightarrow> LogCall \<Rightarrow> string \<Rightarrow> string list \<Rightarrow> string list" where
  "Print l t s out = Output l t s out"

definition Println :: "Logger \<Rightarrow> LogCall \<Rightarrow> string \<Rightarrow> string list \<Rightarrow> string list" where
  "Println l t s out = Output l t (s @ [newline]) out"

text \<open>The exit code of the process and its output.\<close>

definition Fatalf :: "Logger \<Rightarrow> LogCall \<Rightarrow> string \<Rightarrow> string list \<Rightarrow> int \<times> string list" where
  "Fatalf l t s out = (1, Output l t s out)"

definition Log_Panic :: "Logger \<Rightarrow> LogCall \<Rightarrow> string \<Rightarrow> string list \<Rightarrow> 'a go \<times> string list" where
  "Log_Panic l t s out = (Panic (LogPanic s), Output l t s out)"

section \<open>What is written\<close>

lemma AviLog_flags: "lg_flag l AND Ldate \<noteq> 0" "lg_flag l AND Ltime \<noteq> 0" "lg_flag l AND Lshortfile \<noteq> 0"
  if "l \<in> {Trace AviLog, Info AviLog, Warning AviLog, Error AviLog}"
  using that by (auto simp: AviLog_def log_New_def Ldate_def Ltime_def Lshortfile_def)

lemma trace_discarded: "Output (Trace AviLog) t s out = out"
  by (simp add: Output_def AviLog_def log_New_def)

lemma one_line_per_call:
  assumes "l \<in> {Info AviLog, Warning AviLog, Error AviLog}"
  shows "\<exists>line. Output l t s out = out @ [lg_prefix l @ line] \<and> last line = newline"
  using assms by (auto simp: Output_def AviLog_def log_New_def formatHeader_def Let_def)

text \<open>The three levels can be told apart by the first letter of a line.\<close>

lemma level_of_line:
  assumes "l \<in> {Info AviLog, Warning AviLog, Error AviLog}" "Output l t s [] = [line]"
  shows "l = (if hd line = CHR ''I'' then Info AviLog else if hd line = CHR ''W'' then Warning AviLog else Error AviLog)"
  using assms by (auto simp: Output_def AviLog_def log_New_def formatHeader_def Let_def)

end
