(* ===== verification/Go_Flag.thy ===== *)
theory Go_Flag
  imports Prelude
begin

text \<open>
  What \<^verbatim>\<open>main.go\<close> uses of Go's package \<^verbatim>\<open>flag\<close>: the flags registered on the command line's set, and
  the parsing of the arguments, which ends at the first argument that is not a flag and ends the
  process when one is wrong (\<^verbatim>\<open>ExitOnError\<close>).
\<close>

section \<open>Registered flags\<close>

text \<open>\<open>is_bool\<close>: the flag takes no argument of its own. \<open>accepts v\<close>: its \<^verbatim>\<open>Set\<close> returns no error for \<open>v\<close>.\<close>

record Flag =
  is_bool :: bool
  accepts :: "string \<Rightarrow> bool"

type_synonym flag_set = "string \<rightharpoonup> Flag"

definition stringFlag :: Flag where
  "stringFlag = \<lparr>is_bool = False, accepts = (\<lambda>_. True)\<rparr>"

definition ParseBool :: "string \<Rightarrow> bool option" where
  "ParseBool s =
     (if s \<in> {''1'', ''t'', ''T'', ''TRUE'', ''true'', ''True''} then Some True
      else if s \<in> {''0'', ''f'', ''F'', ''FALSE'', ''false'', ''False''} then Some False
      else None)"

definition boolFlag :: Flag where
  "boolFlag = \<lparr>is_bool = True, accepts = (\<lambda>s. ParseBool s \<noteq> None)\<rparr>"

definition flag_Var :: "string \<Rightarrow> Flag \<Rightarrow> flag_set \<Rightarrow> flag_set go" where
  "flag_Var name fl formal = (if formal name \<noteq> None then Panic (FlagRedefined name) else Ok (formal(name \<mapsto> fl)))"

definition StringVar :: "string \<Rightarrow> flag_set \<Rightarrow> flag_set go" where
  "StringVar name formal = flag_Var name stringFlag formal"

section \<open>Parsing\<close>

datatype flag_error =
    BadFlagSyntax string
  | ErrHelp
  | NotDefined string
  | InvalidValue string string
  | NeedsArgument string

text \<open>The result of \<^verbatim>\<open>parseOne\<close>: no more flags, an error, or a flag's value and the arguments left.\<close>

datatype parsed_one = NoFlag "string list" | FlagError flag_error | FlagSet string string "string list"

text \<open>A flag's name up to its first equals sign, which cannot be the first character.\<close>

definition cut_name :: "string \<Rightarrow> string \<times> string option" where
  "cut_name s = (let n = hd s # takeWhile (\<lambda>c. c \<noteq> CHR ''='') (tl s)
     in (n, if length n < length s then Some (drop (Suc (length n)) s) else None))"

definition set_flag :: "Flag \<Rightarrow> string \<Rightarrow> string \<Rightarrow> string list \<Rightarrow> parsed_one" where
  "set_flag fl name v args = (if accepts fl v then FlagSet name v args else FlagError (InvalidValue name v))"

definition parseOne :: "flag_set \<Rightarrow> string list \<Rightarrow> parsed_one" where
  "parseOne formal args =
     (case args of
        [] \<Rightarrow> NoFlag []
      | s # rest \<Rightarrow>
          if length s < 2 \<or> s ! 0 \<noteq> CHR ''-'' then NoFlag (s # rest)
          else if s = ''--'' then NoFlag rest
          else
            (let name = drop (if s ! 1 = CHR ''-'' then 2 else 1) s
             in if name = [] \<or> hd name = CHR ''-'' \<or> hd name = CHR ''='' then FlagError (BadFlagSyntax s)
                else
                  (case cut_name name of
                     (name, value) \<Rightarrow>
                       (case formal name of
                          None \<Rightarrow> FlagError (if name = ''help'' \<or> name = ''h'' then ErrHelp else NotDefined name)
                        | Some fl \<Rightarrow>
                            if is_bool fl then set_flag fl name (case value of Some v \<Rightarrow> v | None \<Rightarrow> ''true'') rest
                            else
                              (case value of
                                 Some v \<Rightarrow> set_flag fl name v rest
                               | None \<Rightarrow>
                                   (case rest of
                                      v # rest' \<Rightarrow> set_flag fl name v rest'
                                    | [] \<Rightarrow> FlagError (NeedsArgument name)))))))"

lemma parseOne_shorter: "parseOne formal args = FlagSet name v args' \<Longrightarrow> length args' < length args"
  by (auto simp: parseOne_def set_flag_def Let_def split: list.splits if_splits option.splits prod.splits)

text \<open>The values set last, and the arguments after the flags.\<close>

function Parse :: "flag_set \<Rightarrow> string list \<Rightarrow> (string \<rightharpoonup> string) \<Rightarrow> flag_error + (string \<rightharpoonup> string) \<times> string list" where
  "Parse formal args vals =
     (case parseOne formal args of
        NoFlag rest \<Rightarrow> Inr (vals, rest)
      | FlagError e \<Rightarrow> Inl e
      | FlagSet name v rest \<Rightarrow> Parse formal rest (vals(name \<mapsto> v)))"
  by pat_completeness auto
termination
  by (relation "measure (\<lambda>(formal, args, vals). length args)") (auto dest: parseOne_shorter)

declare Parse.simps [simp del]

text \<open>The value of the variable of a string flag.\<close>

definition flag_value :: "string \<Rightarrow> string \<Rightarrow> (string \<rightharpoonup> string) \<Rightarrow> string" where
  "flag_value name def vals = (case vals name of Some v \<Rightarrow> v | None \<Rightarrow> def)"

section \<open>Arguments that are read back\<close>

text \<open>A name a flag can be given by, with the value after an equals sign or, but for booleans, in the next argument.\<close>

definition flag_name :: "string \<Rightarrow> bool" where
  "flag_name n \<longleftrightarrow> n \<noteq> [] \<and> hd n \<noteq> CHR ''-'' \<and> CHR ''='' \<notin> set n"

datatype flag_arg = Joined string string | Separate string string

fun arg_name :: "flag_arg \<Rightarrow> string" where
  "arg_name (Joined n v) = n"
| "arg_name (Separate n v) = n"

fun arg_value :: "flag_arg \<Rightarrow> string" where
  "arg_value (Joined n v) = v"
| "arg_value (Separate n v) = v"

fun print_arg :: "flag_arg \<Rightarrow> string list" where
  "print_arg (Joined n v) = [''-'' @ n @ ''='' @ v]"
| "print_arg (Separate n v) = [''-'' @ n, v]"

fun arg_ok :: "flag_set \<Rightarrow> flag_arg \<Rightarrow> bool" where
  "arg_ok formal (Joined n v) \<longleftrightarrow> flag_name n \<and> (\<exists>fl. formal n = Some fl \<and> accepts fl v)"
| "arg_ok formal (Separate n v) \<longleftrightarrow> flag_name n \<and> (\<exists>fl. formal n = Some fl \<and> \<not> is_bool fl \<and> accepts fl v)"

lemma takeWhile_no: "x \<notin> set xs \<Longrightarrow> takeWhile (\<lambda>c. c \<noteq> x) xs = xs" "x \<notin> set xs \<Longrightarrow> takeWhile (\<lambda>c. c \<noteq> x) (xs @ x # ys) = xs"
  by (induction xs) auto

lemma cut_name_plain: "flag_name n \<Longrightarrow> cut_name n = (n, None)"
  by (cases n) (simp_all add: flag_name_def cut_name_def Let_def takeWhile_no)

lemma cut_name_joined: "flag_name n \<Longrightarrow> cut_name (n @ CHR ''='' # v) = (n, Some v)"
  by (cases n) (simp_all add: flag_name_def cut_name_def Let_def takeWhile_no)

lemma parse_arg:
  assumes "arg_ok formal a"
  shows "parseOne formal (print_arg a @ rest) = FlagSet (arg_name a) (arg_value a) rest"
proof -
  have d: "n \<noteq> [] \<and> hd n \<noteq> CHR ''-'' \<and> hd n \<noteq> CHR ''=''" if "flag_name n" for n
    using that by (cases n) (auto simp: flag_name_def)
  show ?thesis
  proof (cases a)
    case (Joined n v)
    with assms obtain fl where n: "flag_name n" and fl: "formal n = Some fl" "accepts fl v" by auto
    with Joined d [OF n] cut_name_joined [OF n, of v] show ?thesis
      by (cases n; cases "is_bool fl") (simp_all add: parseOne_def set_flag_def)
  next
    case (Separate n v)
    with assms obtain fl where n: "flag_name n" and fl: "formal n = Some fl" "\<not> is_bool fl" "accepts fl v" by auto
    with Separate d [OF n] cut_name_plain [OF n] show ?thesis
      by (cases n) (simp_all add: parseOne_def set_flag_def)
  qed
qed

text \<open>Flags that are printed are read back, the last value of each; the rest starts at the first plain argument.\<close>

lemma Parse_printed:
  assumes "\<forall>a \<in> set as. arg_ok formal a" "rest = [] \<or> length (hd rest) < 2 \<or> hd (hd rest) \<noteq> CHR ''-''"
  shows "Parse formal (concat (map print_arg as) @ rest) vals
    = Inr (fold (\<lambda>a m. m(arg_name a \<mapsto> arg_value a)) as vals, rest)"
  using assms(1)
proof (induction as arbitrary: vals)
  case Nil
  have "parseOne formal rest = NoFlag rest"
    using assms(2) by (cases rest; cases "hd rest") (auto simp: parseOne_def)
  then show ?case by (simp add: Parse.simps)
next
  case (Cons a as)
  from Cons.prems parse_arg [of formal a "concat (map print_arg as) @ rest"] show ?case
    by (simp add: Parse.simps [of _ "print_arg a @ _"] Cons.IH)
qed

lemma Parse_defined:
  assumes "Parse formal args vals = Inr (vals', rest)"
  shows "dom vals' \<subseteq> dom vals \<union> dom formal"
  using assms
proof (induction formal args vals arbitrary: vals' rule: Parse.induct)
  case (1 formal args vals)
  show ?case
  proof (cases "parseOne formal args")
    case (FlagSet name v rest')
    then have "name \<in> dom formal"
      by (auto simp: parseOne_def set_flag_def Let_def split: list.splits if_splits option.splits prod.splits)
    moreover have "dom vals' \<subseteq> dom (vals(name \<mapsto> v)) \<union> dom formal"
      by (rule "1.IH" [OF FlagSet]) (use "1.prems" FlagSet in \<open>simp add: Parse.simps [of formal args] del: fun_upd_apply\<close>)
    ultimately show ?thesis by auto
  qed (use "1.prems" in \<open>auto simp: Parse.simps [of formal args]\<close>)
qed

end
