(* ===== verification/Main_Program.thy ===== *)
theory Main_Program
  imports Avi_Workers Mcp Cache_Sync Avi_Log Go_Flag
begin

text \<open>
  \<^verbatim>\<open>main.go\<close> and \<^verbatim>\<open>pkg/utils/signal.go\<close>: how the parts are put together, and the handling of
  shutdown signals.

  \<open>MainEnv\<close> holds what \<^verbatim>\<open>main\<close> reads from its surroundings: the environment variables, the
  arguments and the flags other packages have registered, whether the in-cluster configuration,
  the one made from the flags and the clientset can be made, the login of each REST client, the
  connections of the MCP client, what the waiting for the informers receives, and the controller
  behind the clients. The log calls, and what \<^verbatim>\<open>logtostderr\<close> does to those of the SDK, are left out.
\<close>

section \<open>signal.go\<close>

text \<open>
  \<open>sg_claimed\<close>: the channel \<^verbatim>\<open>onlyOneSignalHandler\<close> is closed; \<open>sg_received\<close>: the signals the
  goroutine has taken from its channel.
\<close>

record Signals =
  sg_claimed :: bool
  sg_received :: nat
  sg_stop_closed :: bool
  sg_exit :: "int option"

definition no_handler :: Signals where
  "no_handler = \<lparr>sg_claimed = False, sg_received = 0, sg_stop_closed = False, sg_exit = None\<rparr>"

datatype os_signal = Interrupt | SIGTERM | OtherSignal nat

definition shutdownSignals :: "os_signal list" where
  "shutdownSignals = [Interrupt, SIGTERM]"

definition SetupSignalHandler :: "Signals \<Rightarrow> Signals go" where
  "SetupSignalHandler s =
     (if sg_claimed s then Panic CloseOfClosedChannel else Ok (s\<lparr>sg_claimed := True\<rparr>))"

text \<open>What the goroutine does with the next signal the process is notified of.\<close>

definition on_signal :: "os_signal \<Rightarrow> Signals \<Rightarrow> Signals" where
  "on_signal sg s =
     (if \<not> sg_claimed s \<or> sg \<notin> set shutdownSignals \<or> sg_exit s \<noteq> None then s
      else if sg_received s = 0 then s\<lparr>sg_received := 1, sg_stop_closed := True\<rparr>
      else s\<lparr>sg_received := Suc (sg_received s), sg_exit := Some 1\<rparr>)"

section \<open>main.go\<close>

record ('w, 'conn) MainEnv =
  me_getenv :: "string \<Rightarrow> string"
  me_args :: "string list"
  me_flags :: flag_set
  me_in_cluster :: bool
  me_build_config :: "string \<Rightarrow> string \<Rightarrow> bool"
  me_clientset_ok :: bool
  me_dial :: "string \<Rightarrow> 'w \<Rightarrow> (go_error + 'conn) \<times> 'w"
  me_launch :: "('conn \<times> jval Options) list \<Rightarrow> 'w \<Rightarrow> 'w"
  me_new_client :: "nat \<Rightarrow> go_error + AviSession"
  me_selects :: "select list"

text \<open>
  \<^verbatim>\<open>main\<close> has ended, with the usage or a message, waits in \<^verbatim>\<open>Start\<close>, or has called \<^verbatim>\<open>Run\<close>. The
  controller is given as it was made: the goroutines of the informers, which \<^verbatim>\<open>Start\<close> started, may
  have queued keys since, and the runs of \<open>Avi_Informed\<close> from this controller say which.
\<close>

datatype 'c outcome = Usage flag_error | Fatal string | Starting 'c | Running 'c

text \<open>The \<^verbatim>\<open>kubeconfig\<close> flag's default.\<close>

definition default_kubeconfig :: "(string \<Rightarrow> string) \<Rightarrow> string" where
  "default_kubeconfig getenv = getenv ''HOME'' @ ''/.kube/config''"

definition init_flags :: "flag_set \<Rightarrow> flag_set go" where
  "init_flags formal = go_bind (StringVar ''kubeconfig'' formal) (StringVar ''master'')"

text \<open>\<^verbatim>\<open>flag.Lookup\<close> returns \<^verbatim>\<open>nil\<close> for a flag that is not registered. The error of \<^verbatim>\<open>Set\<close> is dropped.\<close>

definition parse_flags :: "('w, 'conn) MainEnv \<Rightarrow> (flag_error + (string \<rightharpoonup> string)) go" where
  "parse_flags me =
     go_bind (init_flags (me_flags me)) (\<lambda>formal.
       case Parse formal (me_args me) Map.empty of
         Inl e \<Rightarrow> Ok (Inl e)
       | Inr (vals, rest) \<Rightarrow> if formal ''logtostderr'' = None then Panic NilDereference else Ok (Inr vals))"

definition flags_config :: "('w, 'conn) MainEnv \<Rightarrow> (string \<rightharpoonup> string) \<Rightarrow> bool" where
  "flags_config me vals =
     me_build_config me (flag_value ''master'' '''' vals)
       (flag_value ''kubeconfig'' (default_kubeconfig (me_getenv me)) vals)"

definition start_mcp :: "('w, 'conn) MainEnv \<Rightarrow> 'w \<Rightarrow> 'w" where
  "start_mcp me w =
     (if me_in_cluster me \<and> me_getenv me ''ISTIO_ENABLED'' = ''True'' then
        (let c = \<lparr>MCPServerAddrs = [''mcp://istio-galley.istio-system.svc:9901''], startFuncs = []\<rparr>;
             (err, c', w') = InitMCPClient (me_dial me) (me_launch me) c w
         in snd (Start c' w'))
      else w)"

definition main_program ::
  "('w, 'conn) MainEnv \<Rightarrow> Signals \<Rightarrow> 'w \<Rightarrow> (Signals \<times> 'w AviController outcome) go" where
  "main_program me sg w =
     go_bind (parse_flags me) (\<lambda>r.
       case r of
         Inl e \<Rightarrow> Ok (sg, Usage e)
       | Inr vals \<Rightarrow>
           go_bind (SetupSignalHandler sg) (\<lambda>sg'.
             let w1 = start_mcp me w
             in if \<not> me_in_cluster me \<and> \<not> flags_config me vals then Ok (sg', Fatal ''Error building kubeconfig'')
                else if \<not> me_clientset_ok me then Ok (sg', Fatal ''Error building kubernetes clientset'')
                else if me_getenv me ''CTRL_USERNAME'' = '''' \<or> me_getenv me ''CTRL_PASSWORD'' = ''''
                       \<or> me_getenv me ''CTRL_IPADDRESS'' = ''''
                then Panic (LogPanic ''AVI controller information missing. Update them in kubernetes secret or via environment variables.'')
                else
                  (let (clients, err) = NewAviRestClientPool (me_new_client me) NumWorkers;
                       st = NewK8sEp NewAviObjCache clients w1;
                       c = NewAviController NumWorkers st
                   in case snd (AviController_Start (me_selects me)) of
                        None \<Rightarrow> Ok (sg', Starting c)
                      | Some started \<Rightarrow> Ok (sg', Running c))))"

section \<open>Lemmas\<close>

lemma on_signals_exit:
  "sg_exit s \<noteq> None \<Longrightarrow> fold on_signal sgs s = s"
  by (induction sgs) (auto simp: on_signal_def)

lemma on_signals_second:
  assumes "sg_claimed s" "sg_received s > 0" "sg_stop_closed s" "sg_exit s = None"
  shows "sg_exit (fold on_signal sgs s) = (if list_ex (\<lambda>sg. sg \<in> set shutdownSignals) sgs then Some 1 else None)
    \<and> sg_stop_closed (fold on_signal sgs s)"
  using assms
proof (induction sgs arbitrary: s)
  case (Cons sg sgs)
  show ?case
  proof (cases "sg \<in> set shutdownSignals")
    case True
    with Cons.prems have "sg_exit (on_signal sg s) = Some 1" "sg_stop_closed (on_signal sg s)"
      by (simp_all add: on_signal_def)
    with True on_signals_exit [of "on_signal sg s" sgs] show ?thesis by simp
  next
    case False
    with Cons.prems have "on_signal sg s = s" by (simp add: on_signal_def)
    with False Cons show ?thesis by simp
  qed
qed simp

lemma on_signals_first:
  assumes "sg_claimed s" "sg_received s = 0" "\<not> sg_stop_closed s" "sg_exit s = None"
  shows "(sg_stop_closed (fold on_signal sgs s) \<longleftrightarrow> length (filter (\<lambda>sg. sg \<in> set shutdownSignals) sgs) \<ge> 1)
    \<and> sg_exit (fold on_signal sgs s) =
       (if length (filter (\<lambda>sg. sg \<in> set shutdownSignals) sgs) \<ge> 2 then Some 1 else None)"
  using assms
proof (induction sgs)
  case (Cons sg sgs)
  show ?case
  proof (cases "sg \<in> set shutdownSignals")
    case True
    let ?s = "s\<lparr>sg_received := 1, sg_stop_closed := True\<rparr>"
    have first: "on_signal sg s = ?s" using True Cons.prems by (simp add: on_signal_def)
    have "list_ex (\<lambda>sg. sg \<in> set shutdownSignals) sgs \<longleftrightarrow> filter (\<lambda>sg. sg \<in> set shutdownSignals) sgs \<noteq> []"
      by (auto simp: list_ex_iff filter_empty_conv)
    with on_signals_second [of ?s sgs] Cons.prems True first show ?thesis
      by (cases "filter (\<lambda>sg. sg \<in> set shutdownSignals) sgs") auto
  next
    case False
    with Cons.prems have "on_signal sg s = s" by (simp add: on_signal_def)
    with False Cons show ?thesis by simp
  qed
qed simp

lemma NewAviRestClientPool_ok:
  "(\<forall>i. \<exists>s. new_client i = Inr s) \<Longrightarrow>
   \<exists>cs. NewAviRestClientPool new_client num = (cs, None) \<and> length cs = unat num"
proof -
  assume ok: "\<forall>i. \<exists>s. new_client i = Inr s"
  have "snd (new_clients new_client i n) = None" for i n
    using ok by (induction n arbitrary: i) (auto split: sum.splits prod.splits, metis sum.distinct(1), metis snd_conv)
  then show ?thesis
    using new_clients_ok by (metis NewAviRestClientPool_def prod.collapse)
qed

lemma parse_flags_ok:
  assumes "parse_flags me = Ok (Inr vals)"
  shows "\<exists>formal rest. init_flags (me_flags me) = Ok formal \<and> Parse formal (me_args me) Map.empty = Inr (vals, rest)"
proof -
  from assms obtain formal where f: "init_flags (me_flags me) = Ok formal" by (auto simp: parse_flags_def)
  with assms show ?thesis
    by (cases "Parse formal (me_args me) Map.empty") (auto simp: parse_flags_def split: if_splits)
qed

lemma main_startable:
  assumes "length clients \<ge> unat NumWorkers"
  shows "startable NumWorkers (NewK8sEp NewAviObjCache clients w)"
  using assms by (simp add: startable_def st_ok_new) (simp add: NewK8sEp_def NumWorkers_def)

section \<open>Properties\<close>

text \<open>
  C40: the first shutdown signal closes the stop channel, the second ends the process with
  code 1, and other signals count for neither; the handler can be installed once only.
\<close>

theorem shutdown_signals:
  assumes "SetupSignalHandler no_handler = Ok s" "n = length (filter (\<lambda>sg. sg \<in> set shutdownSignals) sgs)"
  shows "sg_stop_closed (fold on_signal sgs s) = (n \<ge> 1)
    \<and> sg_exit (fold on_signal sgs s) = (if n \<ge> 2 then Some 1 else None)
    \<and> SetupSignalHandler s = Panic CloseOfClosedChannel"
proof -
  have "s = no_handler\<lparr>sg_claimed := True\<rparr>" using assms(1) by (simp add: SetupSignalHandler_def no_handler_def)
  then have "sg_claimed s" "sg_received s = 0" "\<not> sg_stop_closed s" "sg_exit s = None" by (simp_all add: no_handler_def)
  with on_signals_first [OF this, of sgs] assms(2) show ?thesis by (simp add: SetupSignalHandler_def)
qed

theorem shutdown_signals_witness:
  "sg_exit (fold on_signal [SIGTERM, OtherSignal 1, Interrupt] (no_handler\<lparr>sg_claimed := True\<rparr>)) = Some 1"
  using shutdown_signals [of "no_handler\<lparr>sg_claimed := True\<rparr>" 2 "[SIGTERM, OtherSignal 1, Interrupt]"]
  by (simp add: SetupSignalHandler_def no_handler_def shutdownSignals_def)

text \<open>
  C35: a run of \<^verbatim>\<open>main\<close> that gets past its checks and the start of the informers, whose stores are
  then filled unless the stop channel was closed, has made a controller with two empty queues and
  empty caches; what the informers queued since it was made is a run from this state. Its configuration was the cluster's or the one the flags name, a flag that is not
  given having its default. When every login succeeded it has a REST client per worker, which is the
  start state the invariants of the running controller are about; when the first login failed
  it has none, and the program runs all the same.
\<close>

theorem main_starts_controller:
  assumes "main_program me sg w = Ok (sg', Running c)"
  shows "c = NewAviController NumWorkers (k8s c) \<and> st_ok (k8s c) \<and> \<not> sg_claimed sg \<and> sg_claimed sg'
    \<and> ((\<forall>i. \<exists>sess. me_new_client me i = Inr sess) \<longrightarrow> startable NumWorkers (k8s c))
    \<and> (\<forall>e. me_new_client me 0 = Inl e \<longrightarrow> AviClient (k8s c) = [])
    \<and> (\<exists>r \<in> set (me_selects me). r = StopClosed \<or> (\<exists>s. r = Ticked s \<and> (\<forall>i. s i)))
    \<and> (\<exists>formal vals rest. init_flags (me_flags me) = Ok formal \<and> Parse formal (me_args me) Map.empty = Inr (vals, rest)
         \<and> (me_in_cluster me \<or> me_build_config me (flag_value ''master'' '''' vals)
              (flag_value ''kubeconfig'' (me_getenv me ''HOME'' @ ''/.kube/config'') vals)))"
proof -
  from assms obtain r where r: "parse_flags me = Ok r" by (auto simp: main_program_def)
  with assms obtain vals where vals: "parse_flags me = Ok (Inr vals)" by (cases r) (auto simp: main_program_def)
  from assms have s: "\<not> sg_claimed sg" "sg_claimed sg'" "c = NewAviController NumWorkers
      (NewK8sEp NewAviObjCache (fst (NewAviRestClientPool (me_new_client me) NumWorkers)) (start_mcp me w))"
    by (auto simp: main_program_def vals SetupSignalHandler_def Let_def split: if_splits prod.splits option.splits)
  have config: "me_in_cluster me \<or> flags_config me vals"
    using assms by (auto simp: main_program_def vals Let_def split: if_splits)
  have "snd (AviController_Start (me_selects me)) \<noteq> None"
    using assms by (auto simp: main_program_def vals Let_def split: if_splits prod.splits option.splits)
  then have started: "\<exists>r \<in> set (me_selects me). r = StopClosed \<or> (\<exists>s. r = Ticked s \<and> (\<forall>i. s i))"
    unfolding Start_waits by (metis select.exhaust)
  let ?cs = "fst (NewAviRestClientPool (me_new_client me) NumWorkers)"
  have k: "k8s c = NewK8sEp NewAviObjCache ?cs (start_mcp me w)" using s(3) by (simp add: NewAviController_def)
  have "startable NumWorkers (k8s c)" if ok: "\<forall>i. \<exists>sess. me_new_client me i = Inr sess"
    unfolding k using NewAviRestClientPool_ok [OF ok, of NumWorkers] by (intro main_startable) auto
  moreover have "AviClient (k8s c) = []" if "me_new_client me 0 = Inl e" for e
  proof -
    have "unat NumWorkers = Suc 1" by (simp add: NumWorkers_def)
    then have "?cs = []" using that by (simp add: NewAviRestClientPool_def)
    with k show ?thesis by (simp add: NewK8sEp_def)
  qed
  moreover have "st_ok (k8s c)" unfolding k by (rule st_ok_new)
  moreover obtain formal rest where
    "init_flags (me_flags me) = Ok formal" "Parse formal (me_args me) Map.empty = Inr (vals, rest)"
    using parse_flags_ok [OF vals] by blast
  ultimately show ?thesis using s k started config by (auto simp: flags_config_def default_kubeconfig_def)
qed

definition unreachable_env :: "(unit, unit) MainEnv" where
  "unreachable_env = \<lparr>me_getenv = (\<lambda>v. ''x''), me_args = [''-master=m'', ''--kubeconfig'', ''k''],
     me_flags = [''logtostderr'' \<mapsto> boolFlag], me_in_cluster = False,
     me_build_config = (\<lambda>m k. m = ''m'' \<and> k = ''k''), me_clientset_ok = True,
     me_dial = (\<lambda>h w. (Inr (), w)), me_launch = (\<lambda>cs w. w), me_new_client = (\<lambda>i. Inl (ErrorString ''login'')),
     me_selects = [Ticked (\<lambda>i. i = ServiceInf), Ticked (\<lambda>_. True)]\<rparr>"

lemma unreachable_flags: "\<exists>vals. parse_flags unreachable_env = Ok (Inr vals) \<and> flags_config unreachable_env vals"
  by (simp add: parse_flags_def flags_config_def unreachable_env_def init_flags_def StringVar_def flag_Var_def Parse.simps
      parseOne_def cut_name_def set_flag_def stringFlag_def boolFlag_def flag_value_def)

theorem main_starts_controller_witness:
  "\<exists>sg c. main_program unreachable_env no_handler () = Ok (sg, Running c) \<and> AviClient (k8s c) = []"
proof -
  obtain cs err where "NewAviRestClientPool (\<lambda>i. Inl (ErrorString ''login'')) NumWorkers = (cs, err)" by fastforce
  moreover obtain vals where "parse_flags unreachable_env = Ok (Inr vals)" "flags_config unreachable_env vals"
    using unreachable_flags by blast
  ultimately obtain sg c where r: "main_program unreachable_env no_handler () = Ok (sg, Running c)"
    by (simp add: main_program_def) (simp add: start_mcp_def unreachable_env_def SetupSignalHandler_def no_handler_def Let_def
      AviController_Start_def WaitForCacheSync_def)
  with main_starts_controller [OF r] show ?thesis by (auto simp: unreachable_env_def)
qed

end
