(* ===== verification/Demo.thy ===== *)
theory Demo
  imports Main_Program
begin

text \<open>
  A small cluster on which the properties are instantiated: the Service \<^verbatim>\<open>default/web\<close> with one
  port and its Endpoints with one ready address, and an Avi controller that accepts every
  request.
\<close>

definition avi_object ::
  "string \<Rightarrow> string \<Rightarrow> string \<Rightarrow> string \<Rightarrow> string \<Rightarrow> string \<Rightarrow> string \<Rightarrow> (string \<times> jval) list" where
  "avi_object host t uuid name lb cksum mdata =
     [(''url'', JStr (avi_url host t uuid)), (''name'', JStr name), (''uuid'', JStr uuid),
      (''lb_algorithm'', JStr lb), (''cloud_config_cksum'', JStr cksum),
      (''service_metadata'', JStr mdata), (''enabled'', JBool True)]"

lemma answered_avi_object: "answered host t uuid name lb cksum mdata (JArr [JObj (avi_object host t uuid name lb cksum mdata)])"
  by (simp add: answered_def avi_object_def jget_def)

definition demo_post ::
  "AviSession \<Rightarrow> string \<Rightarrow> RestObj \<Rightarrow> unit \<Rightarrow> (go_error option \<times> jval option) \<times> unit" where
  "demo_post sess path obj w =
     ((None,
       case obj of
         ObjMacro m \<Rightarrow>
           (case macro_Data m of
              DataPool p \<Rightarrow>
                Some (JArr [JObj (avi_object ''avi'' ''pool'' ''pool-1'' (the (pool_Name p)) ''LEAST''
                  (the (pool_CloudConfigCksum p)) (the (pool_ServiceMetadata p)))])
            | DataVirtualService v \<Rightarrow>
                Some (JArr [JObj (avi_object ''avi'' ''virtualservice'' ''vs-1'' (the (vs_Name v)) ''LEAST''
                  (the (vs_CloudConfigCksum v)) (the (vs_ServiceMetadata v)))])
            | _ \<Rightarrow> None)
       | _ \<Rightarrow> None), w)"

definition demo_api :: "unit AviApi" where
  "demo_api =
     \<lparr>api_Post = demo_post, api_Put = demo_post, api_Get = (\<lambda>s p w. ((None, None), w)),
      api_Patch = (\<lambda>s p ob x w. ((None, None), w)), api_Delete = (\<lambda>s p ob w. (None, w)),
      api_GetObjectByName = (\<lambda>s t n w. ((None, Some (JObj [])), w))\<rparr>"

text \<open>A controller that refuses every virtual service.\<close>

definition refusing_api :: "unit AviApi" where
  "refusing_api = demo_api\<lparr>api_Post := (\<lambda>s p ob w.
     case ob of
       ObjMacro m \<Rightarrow> (if macro_ModelName m = ''VirtualService'' then ((Some (ErrorString ''refused''), None), w)
                      else demo_post s p ob w)
     | _ \<Rightarrow> ((None, None), w)),
     api_GetObjectByName := (\<lambda>s t n w. ((Some (ErrorString ''no such object''), None), w))\<rparr>"

definition demo_svc :: Service where
  "demo_svc = \<lparr>svc_Namespace = ''default'', svc_Name = ''web'', svc_ResourceVersion = ''1'',
     svc_Ports = [\<lparr>sp_Name = ''http'', sp_Protocol = ''TCP'', sp_Port = 80, sp_TargetPort = FromInt 8080\<rparr>]\<rparr>"

definition demo_ep :: Endpoints where
  "demo_ep = \<lparr>ep_Namespace = ''default'', ep_Name = ''web'', ep_ResourceVersion = ''7'',
     ep_Subsets = [\<lparr>ss_Addresses = [\<lparr>ea_IP = ''10.0.0.1'', ea_Hostname = '''', ea_NodeName = None, ea_TargetRef = None\<rparr>],
       ss_NotReadyAddresses = [],
       ss_Ports = [\<lparr>epp_Name = ''http'', epp_Port = 8080, epp_Protocol = ''TCP''\<rparr>]\<rparr>]\<rparr>"

definition demo_informers :: Informers where
  "demo_informers = \<lparr>ServiceInformer = [''default/web'' \<mapsto> demo_svc], EpInformer = [''default/web'' \<mapsto> demo_ep],
     IngInformer = Map.empty\<rparr>"

definition mk_env :: "'w AviApi \<Rightarrow> Informers \<Rightarrow> 'w Env" where
  "mk_env api infs = \<lparr>env_api = api, env_version = ''19.1.1'', env_informers = infs,
     ord_ports = (\<lambda>xs. xs), ord_pools = (\<lambda>xs. xs), ord_poolmap = (\<lambda>xs. xs)\<rparr>"

abbreviation demo_env :: "unit Env" where
  "demo_env \<equiv> mk_env demo_api demo_informers"

definition mk_state :: "'w \<Rightarrow> 'w K8sState" where
  "mk_state w = NewK8sEp NewAviObjCache (replicate 2 \<lparr>sess_tenant = ''admin'', sess_version = ''''\<rparr>) w"

abbreviation demo_st :: "unit K8sState" where
  "demo_st \<equiv> mk_state ()"

definition demo_pp :: AviPortStrProtocol where
  "demo_pp = \<lparr>psp_Port = ''8080'', psp_Protocol = ''tcp''\<rparr>"

definition demo_qenv :: QEnv where
  "demo_qenv = \<lparr>qe_now = 0, qe_bucket = 0, qe_stop = False\<rparr>"

lemma Itoa_8080: "Itoa 8080 = ''8080''"
  by (simp add: Itoa_def nat_to_string.simps digit_char_def)

lemma ToLower_tcp: "ToLower ''TCP'' = ''tcp''"
  by (simp add: ToLower_def lower_char_def)

lemma demo_accepting: "accepting ''avi'' demo_api"
proof -
  have "url_plain ''avi''" "url_plain ''pool-1''" "url_plain ''vs-1''"
    by (simp_all add: url_plain_def is_alnum_def)
  then show ?thesis
    unfolding accepting_def
    by (intro conjI allI impI) (simp_all add: demo_api_def demo_post_def, (use answered_avi_object in blast)+)
qed

lemma demo_env_ok: "env_ok (mk_env api infs)"
  by (simp add: env_ok_def mk_env_def)

lemma demo_ready: "ready_ports demo_svc (ep_Subsets demo_ep) [] = Ok (Some [demo_pp])"
  by (simp add: demo_svc_def demo_ep_def demo_pp_def ep_target_port_def IntOrString_String_def Itoa_8080 proto_name_def ToLower_tcp
      Let_def)

lemma demo_st_ok: "st_ok (mk_state w)"
  by (simp add: mk_state_def st_ok_new)

lemma demo_clients: "length (AviClient (mk_state w)) = 2"
  by (simp add: mk_state_def NewK8sEp_def)

lemma demo_informed:
  "env_informers (mk_env api infs) = infs" "env_api (mk_env api infs) = api"
  "EpInformer demo_informers ''default/web'' = Some demo_ep"
  "ServiceInformer demo_informers ''default/web'' = Some demo_svc"
  by (simp_all add: mk_env_def demo_informers_def)

lemma demo_creatable: "creatable (mk_env api demo_informers) demo_svc demo_ep [demo_pp]"
proof -
  have n: "svc_Namespace demo_svc = ''default''" "svc_Name demo_svc = ''web''" "ep_Namespace demo_ep = ''default''"
    "ep_Name demo_ep = ''web''" by (simp_all add: demo_svc_def demo_ep_def)
  have "plain_prefix ''web''" by (simp add: plain_prefix_def)
  with n demo_ready show ?thesis
    by (simp add: creatable_def demo_informed demo_pp_def)
qed

lemma demo_changed: "\<not> svc_unchanged (mk_state w) demo_svc"
  by (simp add: svc_unchanged_def mk_state_def NewK8sEp_def NewAviObjCache_def cache_simps)

abbreviation demo_session :: AviSession where
  "demo_session \<equiv> \<lparr>sess_tenant = ''default'', sess_version = ''19.1.1''\<rparr>"

text \<open>The batch of the Service: one pool and its virtual service.\<close>

lemma demo_batch:
  fixes st :: "'w K8sState"
  assumes "st = mk_state w" "env = mk_env api demo_informers"
  shows "\<exists>m pop vop d dv. svc_vs_meta demo_svc (svc_key demo_svc) (svc_pool_ops env st demo_svc demo_ep [demo_pp]) = Ok m
    \<and> svc_pool_ops env st demo_svc demo_ep [demo_pp] @ AviVsBuild (ord_poolmap env) (env_version env) m = [pop, vop]
    \<and> op_Method pop = RestPost \<and> op_Obj pop = ObjMacro \<lparr>macro_ModelName = ''Pool'', macro_Data = DataPool d\<rparr>
    \<and> op_Method vop = RestPost \<and> op_Obj vop = ObjMacro \<lparr>macro_ModelName = ''VirtualService'', macro_Data = dv\<rparr>
    \<and> op_Path pop = ''/api/macro'' \<and> op_Path vop = ''/api/macro'' \<and> op_Model pop = ''Pool''
    \<and> (\<forall>s. op_session pop s = demo_session \<and> op_session vop s = demo_session)"
proof -
  let ?ops = "svc_pool_ops env st demo_svc demo_ep [demo_pp]"
  have ops: "?ops = [pool_build env demo_ep \<lparr>CrudHashKey_field = svc_key demo_svc\<rparr> ''web'' demo_pp]"
    by (simp add: assms svc_pool_ops_def svc_todo_def stale_def same_cksum_def mk_state_def NewK8sEp_def NewAviObjCache_def
        cache_simps mk_env_def demo_svc_def)
  obtain m where m: "svc_vs_meta demo_svc (svc_key demo_svc) ?ops = Ok m" using svc_vs_meta_creatable by blast
  have "length (vm_PortProto m) = 1" "vm_Tenant m = ''default''"
    using svc_vs_meta_fields [OF m] by (simp_all add: demo_svc_def)
  with m assms(2) show ?thesis
    unfolding ops by (simp add: AviVsBuild_def pool_build_def AviPoolBuild_def Let_def op_session_def SetTenant_def SetVersion_def
      build_pool_meta_fields mk_env_def demo_ep_def)
qed

lemma refusing_pool:
  assumes "op_Method op = RestPost" "op_Obj op = ObjMacro \<lparr>macro_ModelName = ''Pool'', macro_Data = DataPool d\<rparr>"
  shows "\<exists>op' w'. rest_call (logged refusing_api) s op w = (op', w') \<and> op_Err op' = None
    \<and> (\<exists>obj. op_Response op' = JArr [JObj obj]) \<and> made_uuid op' = Some ''pool-1'' \<and> op_Model op' = op_Model op"
  using assms by (cases w) (auto simp: rest_call_def logged_def refusing_api_def demo_post_def store_response_def made_uuid_def
    avi_object_def)

lemma refusing_vs:
  assumes "op_Method op = RestPost" "op_Obj op = ObjMacro \<lparr>macro_ModelName = ''VirtualService'', macro_Data = d\<rparr>"
  shows "\<exists>op' w'. rest_call (logged refusing_api) s op w = (op', w') \<and> op_Err op' = Some (ErrorString ''refused'')"
  using assms by (cases w) (auto simp: rest_call_def logged_def refusing_api_def store_response_def)

text \<open>With the controller that refuses virtual services the batch fails after making the pool.\<close>

lemma refused_batch:
  fixes st :: "(unit \<times> request list) K8sState"
  assumes "st = mk_state w" "env = mk_env (logged refusing_api) demo_informers"
  shows "\<exists>m ops pop' vop' w' d dv. svc_vs_meta demo_svc (svc_key demo_svc) (svc_pool_ops env st demo_svc demo_ep [demo_pp]) = Ok m
    \<and> ops = svc_pool_ops env st demo_svc demo_ep [demo_pp] @ AviVsBuild (ord_poolmap env) (env_version env) m
    \<and> AviRestOperate (logged refusing_api) (AviClient st ! 0) ops w = (Some (ErrorString ''refused''), [pop', vop'], demo_session, w')
    \<and> op_Err pop' = None \<and> op_Err vop' = Some (ErrorString ''refused'') \<and> (\<exists>obj. op_Response pop' = JArr [JObj obj])
    \<and> deletion demo_session pop' = [ReqDelete demo_session ''/api/pool/pool-1'' None]
    \<and> map (\<lambda>op. op_request (op_session op (AviClient st ! 0)) op) ops =
       [[ReqPost demo_session ''/api/macro'' (ObjMacro \<lparr>macro_ModelName = ''Pool'', macro_Data = DataPool d\<rparr>)],
        [ReqPost demo_session ''/api/macro'' (ObjMacro \<lparr>macro_ModelName = ''VirtualService'', macro_Data = dv\<rparr>)]]"
proof -
  obtain m pop vop d dv where m: "svc_vs_meta demo_svc (svc_key demo_svc) (svc_pool_ops env st demo_svc demo_ep [demo_pp]) = Ok m"
    and batch: "svc_pool_ops env st demo_svc demo_ep [demo_pp] @ AviVsBuild (ord_poolmap env) (env_version env) m = [pop, vop]"
    and p: "op_Method pop = RestPost" "op_Obj pop = ObjMacro \<lparr>macro_ModelName = ''Pool'', macro_Data = DataPool d\<rparr>"
    and v: "op_Method vop = RestPost" "op_Obj vop = ObjMacro \<lparr>macro_ModelName = ''VirtualService'', macro_Data = dv\<rparr>"
    and x: "op_Path pop = ''/api/macro''" "op_Path vop = ''/api/macro''" "op_Model pop = ''Pool''"
      "\<And>s. op_session pop s = demo_session" "\<And>s. op_session vop s = demo_session"
    using demo_batch [OF assms] by blast
  obtain pop' w1 where p': "rest_call (logged refusing_api) demo_session pop w = (pop', w1)" "op_Err pop' = None"
    "\<exists>obj. op_Response pop' = JArr [JObj obj]" "made_uuid pop' = Some ''pool-1''" "op_Model pop' = ''Pool''"
    using refusing_pool [OF p] x(3) by metis
  obtain v' w2 where v': "rest_call (logged refusing_api) demo_session vop w1 = (v', w2)"
    "op_Err v' = Some (ErrorString ''refused'')" using refusing_vs [OF v] by blast
  have "AviRestOperate (logged refusing_api) (AviClient st ! 0) [pop, vop] w
      = (Some (ErrorString ''refused''), [pop', v'], demo_session, w2)"
    using p'(1,2) v' x(4,5) by (simp add: Let_def op_session_def)
  with m batch p v x p' v' show ?thesis
    by (intro exI [of _ m] exI [of _ "[pop, vop]"] exI [of _ pop'] exI [of _ v'] exI [of _ w2] exI [of _ d] exI [of _ dv])
      (simp add: deletion_def made_path_def)
qed

lemma demo_refused:
  "\<exists>st'. K8sSvc_K8sObjCrUpd (mk_env (logged refusing_api) demo_informers) 0 demo_svc (mk_state ((), []))
     = Ok ([], Some (ErrorString ''refused''), st')"
proof -
  let ?env = "mk_env (logged refusing_api) demo_informers" and ?st = "mk_state ((), [] :: request list)"
  let ?ops = "svc_pool_ops ?env ?st demo_svc demo_ep [demo_pp]"
  obtain m pop' v' w' where m: "svc_vs_meta demo_svc (svc_key demo_svc) ?ops = Ok m"
    and r: "AviRestOperate (logged refusing_api) (AviClient ?st ! 0) (?ops @ AviVsBuild (ord_poolmap ?env) (env_version ?env) m)
      ((), []) = (Some (ErrorString ''refused''), [pop', v'], demo_session, w')"
    and e: "op_Err v' = Some (ErrorString ''refused'')" "\<exists>obj. op_Response pop' = JArr [JObj obj]"
    using refused_batch [OF refl refl, where w = "((), [])"] by blast
  have "world ?st = ((), [])" by (simp add: mk_state_def NewK8sEp_def)
  with r demo_clients [of "((), [] :: request list)"] obtain st2 where
    st2: "rest_operate ?env 0 (?ops @ AviVsBuild (ord_poolmap ?env) (env_version ?env) m) ?st
      = Ok (Some (ErrorString ''refused''), [pop', v'], st2)" "length (AviClient st2) = 2"
    by (simp add: rest_operate_def demo_informed go_index_def)
  have "rollback_url v' = Ok None" "\<exists>u. rollback_url pop' = Ok u"
    using e by (auto simp: rollback_url_def go_index_def split: option.split)
  then obtain u where "rollback_url v' = Ok None" "rollback_url pop' = Ok u" by blast
  then have "rollback ?env 0 [pop', v'] st2 = Ok (st2\<lparr>world := (case u of None \<Rightarrow> world st2
      | Some x \<Rightarrow> snd (api_Delete (env_api ?env) (AviClient st2 ! 0) x None (world st2)))\<rparr>)"
    using st2(2) by (simp add: rollback_def go_index_def rollback_op_def)
  then obtain st3 where st3: "rollback ?env 0 [pop', v'] st2 = Ok st3" by blast
  have ep: "EpInformer (env_informers ?env) (svc_Namespace demo_svc @ ''/'' @ svc_Name demo_svc) = Some demo_ep"
    using demo_creatable [of "logged refusing_api"] by (simp add: creatable_def)
  have "K8sSvc_K8sObjCrUpd ?env 0 demo_svc ?st = Ok ([], Some (ErrorString ''refused''), st3)"
    using ep demo_changed svc_pools_creatable [OF demo_creatable [of "logged refusing_api"] demo_env_ok, of 0 ?st] m st2(1) st3
    by (simp add: K8sSvc_K8sObjCrUpd_def lister_Get_def CrudHashKey_def Let_def)
  then show ?thesis by blast
qed

lemma demo_ready_to_send:
  "accepting ''avi'' (env_api demo_env)" "unat (0 :: uint32) < length (AviClient (mk_state w))"
  by (simp_all add: demo_informed demo_accepting demo_clients)

text \<open>The demonstration state with its pool at an older version of the Endpoints.\<close>

definition demo_behind :: "unit K8sState" where
  "demo_behind = (set_pool_cache demo_st (AviCacheAdd NewAviCache (nsname ''default'' ''web-pool-8080-tcp'')
     (IPool \<lparr>pc_Name = ''web-pool-8080-tcp'', pc_Tenant = ''default'', pc_Uuid = ''pool-1'', pc_LbAlgorithm = ''LEAST'',
       pc_ServiceMetadata = empty_metadata, pc_CloudConfigCksum = ''6''\<rparr>)))
     \<lparr>svc_to_pool_cache := AviMultiCacheAdd NewAviMultiCache (nsname ''default'' ''web'') (IStr ''service/web-pool-8080-tcp'')\<rparr>"

lemma demo_behind_row:
  "AviMultiCacheGetKey (svc_to_pool_cache demo_behind) (nsname ''default'' ''web'') = Some [IStr ''service/web-pool-8080-tcp'']"
  "entry_name (IStr ''service/web-pool-8080-tcp'') = ''web-pool-8080-tcp''"
  "split_pool_name ''web-pool-8080-tcp'' = Ok (''8080'', ''tcp'')" "has_prefix_elem ''service'' (IStr ''service/web-pool-8080-tcp'')"
proof -
  show "AviMultiCacheGetKey (svc_to_pool_cache demo_behind) (nsname ''default'' ''web'') = Some [IStr ''service/web-pool-8080-tcp'']"
    by (simp add: demo_behind_def AviMultiCacheGetKey_def AviMultiCacheAdd_def NewAviMultiCache_def)
  show "entry_name (IStr ''service/web-pool-8080-tcp'') = ''web-pool-8080-tcp''" by (simp add: entry_name_def) code_simp
  show "split_pool_name ''web-pool-8080-tcp'' = Ok (''8080'', ''tcp'')" by code_simp
  show "has_prefix_elem ''service'' (IStr ''service/web-pool-8080-tcp'')" by code_simp
qed

lemma demo_behind_ok: "st_ok demo_behind"
proof -
  have "\<exists>pre name. ''service/web-pool-8080-tcp'' = pre @ CHR ''/'' # name"
    by (rule exI [of _ "''service''"]) simp
  then show ?thesis
    using demo_st_ok [of "()"] svc_pool_ok_new unfolding demo_behind_def st_ok_def svc_pool_ok_def pool_cache_ok_def
    by (auto simp: avi_mcache.rels avi_mcache.oks cache_simps)
qed

end
