(* ===== verification/Avi_Runs.thy ===== *)
theory Avi_Runs
  imports Avi_Workers
begin

text \<open>
  The path of an event through the program: the key its handler queues, the waiting of the key in
  a queue that was just made, and the round of the worker that serves that queue. The lemmas follow
  the key piece by piece; \<open>service_event_handled\<close> puts them together for a new Service.
\<close>

section \<open>A key on its way through a new queue\<close>

abbreviation new_queue :: "iface delayingType" where
  "new_queue \<equiv> newDelayingQueue DefaultControllerRateLimiter"

text \<open>The first delay of a key is the base delay of 5 ms, or what the token bucket asks for.\<close>

lemma new_limiter_delay:
  "max_When b x (DefaultControllerRateLimiter :: iface ExpLimiter) = (d, l) \<Longrightarrow> d = max b 5000000"
  by (auto simp: max_When_def exp_When_def DefaultControllerRateLimiter_def NewItemExponentialFailureRateLimiter_def Let_def
    split: if_splits)

lemma heap_one: "heap_Push [] e = [e]" "heap_Pop [e] = (e, [])"
  using heap_up.simps [of "[e]" 0] heap_down.simps [of "[e]" 0 0]
  by (simp_all add: heap_Push_def heap_Pop_def Swap_def)

text \<open>
  Received at any time \<open>t1\<close>, before it is ready or after, the key is the only one to be worked on
  once the waiting loop has looked at its heap at a time \<open>t2\<close> at which it is ready.
\<close>

lemma first_add:
  assumes "now + max b 5000000 \<le> t2"
  shows "\<exists>q1 q2. AddRateLimited stop now b x new_queue = Some q1 \<and> \<not> shuttingDown (dq_queue q1)
    \<and> add_ready t2 (receive t1 q1) = q2 \<and> (now + max b 5000000 \<le> t1 \<longrightarrow> receive t1 q1 = q2)
    \<and> dq_queue q2 = \<lparr>queue = [x], dirty = {x}, processing = {}, shuttingDown = False\<rparr>
    \<and> waitingForAddCh q2 = [] \<and> waitingForQueue q2 = []"
proof -
  obtain d l where w: "max_When b x (DefaultControllerRateLimiter :: iface ExpLimiter) = (d, l)" by fastforce
  have d: "d = max b 5000000" by (rule new_limiter_delay [OF w])
  let ?e = "\<lparr>wf_data = x, readyAt = now + d\<rparr>"
  let ?q = "new_queue\<lparr>dq_limiter := l, waitingForAddCh := [?e]\<rparr>"
  have "AddRateLimited stop now b x new_queue = Some ?q"
    using w d by (simp add: AddRateLimited_def AddAfter_def newDelayingQueue_def newQueue_def ShuttingDown_def)
  moreover note heap_one [of ?e]
  ultimately show ?thesis
    using assms d
    by (intro exI [of _ ?q] exI [of _ "add_ready t2 (receive t1 ?q)"])
      (auto simp: receive_def receive_entry_def insert_entry_def add_ready_def ShuttingDown_def newDelayingQueue_def newQueue_def Add_def
        split: if_split)
qed

section \<open>The round on a key that is handled\<close>

lemma round_done:
  assumes "i < length (workqueue c)" "workqueue c ! i = q" "unat wid = i"
    "dq_queue q = \<lparr>queue = [IStr key], dirty = {IStr key}, processing = {}, shuttingDown = False\<rparr>"
    "syncHandler infs env key wid (k8s c) = Ok (None, st)"
  shows "\<exists>q'. processNextWorkItem infs env qe wid c = Ok (Some (True, set_queue i q' (c\<lparr>k8s := st\<rparr>)))
    \<and> dq_queue q' = newQueue \<and> waitingForAddCh q' = waitingForAddCh q \<and> waitingForQueue q' = waitingForQueue q"
  using assms
  by (auto simp: processNextWorkItem_def take_item_def go_index_def Get_def sync_item_def finish_item_def set_queue_def
    dq_Done_def Done_def Forget_def newQueue_def Let_def)

text \<open>The key of a Service the informer knows leads to its handler.\<close>

lemma sync_service:
  assumes "api_name ns" "api_name name" "ServiceInformer infs (ns @ ''/'' @ name) = Some svc"
    "K8sSvc_K8sObjCrUpd env wid svc st = Ok (ops, err, st')"
  shows "syncHandler infs env (key_of ''Service'' ns name) wid st = Ok (err, st')"
proof -
  have "api_name ''Service''" by (simp add: api_name_def)
  with assms show ?thesis
    by (simp add: syncHandler_def SplitN_key_of meta.split_mk [OF assms(1,2)] lookup_obj_def lister_Get_def handle_update_def)
qed

end
