(* ===== verification/Delta_FIFO.thy ===== *)
theory Delta_FIFO
  imports K8s_Keys "HOL-Library.AList"
begin

text \<open>
  The queue between the reflector of an informer and its store: \<^verbatim>\<open>DeltaFIFO\<close> of
  \<^verbatim>\<open>client-go/tools/cache/delta_fifo.go\<close> (vendored), with the store of \<^verbatim>\<open>store.go\<close> and
  \<^verbatim>\<open>thread_safe_store.go\<close> it asks for the known objects. The queue collects, per object, the changes
  that are not in the store yet.

  The store is an association list, since its keys are ranged over; \<open>ord\<close> is the order of such a
  loop. Its indices are left out: nothing of the program reads them. \<^verbatim>\<open>knownObjects\<close> is the store of
  the informer and never \<^verbatim>\<open>nil\<close>. Of an error message that formats a whole object the object is left
  out.

  \<open>eventual\<close> is the abstraction: the store as it will be once all collected changes are applied.
\<close>

section \<open>The store\<close>

type_synonym store = "(string \<times> k8s_obj) list"

definition KeyError :: "go_error \<Rightarrow> go_error" where
  "KeyError err = (case err of ErrorString m \<Rightarrow> ErrorString (''couldn't create key for object: '' @ m) | _ \<Rightarrow> err)"

definition store_put :: "k8s_obj \<Rightarrow> store \<Rightarrow> go_error option \<times> store" where
  "store_put obj st =
     (case DeletionHandlingMetaNamespaceKeyFunc obj of
        (key, Some err) \<Rightarrow> (Some (KeyError err), st)
      | (key, None) \<Rightarrow> (None, AList.update key obj st))"

definition store_Delete :: "k8s_obj \<Rightarrow> store \<Rightarrow> go_error option \<times> store" where
  "store_Delete obj st =
     (case DeletionHandlingMetaNamespaceKeyFunc obj of
        (key, Some err) \<Rightarrow> (Some (KeyError err), st)
      | (key, None) \<Rightarrow> (None, AList.delete key st))"

definition store_Get :: "k8s_obj \<Rightarrow> store \<Rightarrow> go_error + k8s_obj option" where
  "store_Get obj st =
     (case DeletionHandlingMetaNamespaceKeyFunc obj of
        (key, Some err) \<Rightarrow> Inl (KeyError err)
      | (key, None) \<Rightarrow> Inr (map_of st key))"

definition ListKeys :: "(string list \<Rightarrow> string list) \<Rightarrow> store \<Rightarrow> string list" where
  "ListKeys ord st = ord (map fst st)"

section \<open>The queue\<close>

datatype DeltaType = Added | Updated | Deleted | Sync

record Delta =
  d_Type :: DeltaType
  d_Object :: k8s_obj

record DeltaFIFO =
  items :: "string \<rightharpoonup> Delta list"
  fifo_queue :: "string list"
  populated :: bool
  initialPopulationCount :: nat
  fifo_closed :: bool

definition NewDeltaFIFO :: DeltaFIFO where
  "NewDeltaFIFO = \<lparr>items = Map.empty, fifo_queue = [], populated = False, initialPopulationCount = 0, fifo_closed = False\<rparr>"

definition KeyOf :: "k8s_obj \<Rightarrow> string \<times> go_error option" where
  "KeyOf obj = (case obj of DeletedFinalStateUnknown key _ \<Rightarrow> (key, None) | _ \<Rightarrow> MetaNamespaceKeyFunc obj)"

definition HasSynced :: "DeltaFIFO \<Rightarrow> bool" where
  "HasSynced f \<longleftrightarrow> populated f \<and> initialPopulationCount f = 0"

definition fifo_Close :: "DeltaFIFO \<Rightarrow> DeltaFIFO" where
  "fifo_Close f = f\<lparr>fifo_closed := True\<rparr>"

text \<open>\<^verbatim>\<open>a\<close> is the last delta and \<^verbatim>\<open>b\<close> the one before it.\<close>

definition isDeletionDup :: "Delta \<Rightarrow> Delta \<Rightarrow> Delta option" where
  "isDeletionDup a b =
     (if d_Type b \<noteq> Deleted \<or> d_Type a \<noteq> Deleted then None
      else case d_Object b of DeletedFinalStateUnknown _ _ \<Rightarrow> Some a | _ \<Rightarrow> Some b)"

definition isDup :: "Delta \<Rightarrow> Delta \<Rightarrow> Delta option" where
  "isDup a b = (case isDeletionDup a b of Some out \<Rightarrow> Some out | None \<Rightarrow> None)"

definition dedupDeltas :: "Delta list \<Rightarrow> Delta list" where
  "dedupDeltas deltas =
     (let k = length deltas
      in if k < 2 then deltas
         else case isDup (deltas ! (k - 1)) (deltas ! (k - 2)) of
                Some out \<Rightarrow> take (k - 2) deltas @ [out]
              | None \<Rightarrow> deltas)"

definition deltas_of :: "DeltaFIFO \<Rightarrow> string \<Rightarrow> Delta list" where
  "deltas_of f key = (case items f key of None \<Rightarrow> [] | Some ds \<Rightarrow> ds)"

definition willObjectBeDeletedLocked :: "DeltaFIFO \<Rightarrow> string \<Rightarrow> bool" where
  "willObjectBeDeletedLocked f key \<longleftrightarrow> length (deltas_of f key) > 0 \<and> d_Type (last (deltas_of f key)) = Deleted"

definition queueActionLocked :: "DeltaType \<Rightarrow> k8s_obj \<Rightarrow> DeltaFIFO \<Rightarrow> go_error option \<times> DeltaFIFO" where
  "queueActionLocked actionType obj f =
     (case KeyOf obj of
        (key, Some err) \<Rightarrow> (Some (KeyError err), f)
      | (key, None) \<Rightarrow>
          if actionType = Sync \<and> willObjectBeDeletedLocked f key then (None, f)
          else let newDeltas = dedupDeltas (deltas_of f key @ [\<lparr>d_Type = actionType, d_Object = obj\<rparr>])
               in if length newDeltas > 0
                  then (None, f\<lparr>fifo_queue := (if items f key = None then fifo_queue f @ [key] else fifo_queue f),
                                items := (items f)(key \<mapsto> newDeltas)\<rparr>)
                  else (None, f\<lparr>items := (items f)(key := None)\<rparr>))"

definition fifo_Add :: "k8s_obj \<Rightarrow> DeltaFIFO \<Rightarrow> go_error option \<times> DeltaFIFO" where
  "fifo_Add obj f = queueActionLocked Added obj (f\<lparr>populated := True\<rparr>)"

definition fifo_Update :: "k8s_obj \<Rightarrow> DeltaFIFO \<Rightarrow> go_error option \<times> DeltaFIFO" where
  "fifo_Update obj f = queueActionLocked Updated obj (f\<lparr>populated := True\<rparr>)"

definition fifo_Delete :: "store \<Rightarrow> k8s_obj \<Rightarrow> DeltaFIFO \<Rightarrow> go_error option \<times> DeltaFIFO" where
  "fifo_Delete known obj f =
     (case KeyOf obj of
        (key, Some err) \<Rightarrow> (Some (KeyError err), f)
      | (key, None) \<Rightarrow>
          if map_of known key = None \<and> items f key = None then (None, f\<lparr>populated := True\<rparr>)
          else queueActionLocked Deleted obj (f\<lparr>populated := True\<rparr>))"

text \<open>\<^verbatim>\<open>fmt.Errorf\<close> of a text and the message of an error.\<close>

fun Errorf :: "string \<Rightarrow> go_error \<Rightarrow> go_error" where
  "Errorf text (ErrorString m) = ErrorString (text @ m)"
| "Errorf text (SkipSyncError m) = ErrorString (text @ m)"
| "Errorf text (StatusNotFound m) = ErrorString (text @ m)"

text \<open>
  \<^verbatim>\<open>Replace\<close> in its two loops: over the listed objects, giving their keys, and over the known keys
  that are not among them.
\<close>

fun sync_list :: "k8s_obj list \<Rightarrow> DeltaFIFO \<Rightarrow> go_error option \<times> string list \<times> DeltaFIFO" where
  "sync_list [] f = (None, [], f)"
| "sync_list (obj # objs) f =
     (case KeyOf obj of
        (key, Some err) \<Rightarrow> (Some (KeyError err), [], f)
      | (key, None) \<Rightarrow>
          (case queueActionLocked Sync obj f of
             (Some err, f1) \<Rightarrow> (Some (Errorf ''couldn't enqueue object: '' err), [key], f1)
           | (None, f1) \<Rightarrow>
               (case sync_list objs f1 of (err, keys, f2) \<Rightarrow> (err, key # keys, f2))))"

fun delete_missing ::
  "string list \<Rightarrow> store \<Rightarrow> string list \<Rightarrow> nat \<Rightarrow> DeltaFIFO \<Rightarrow> go_error option \<times> nat \<times> DeltaFIFO" where
  "delete_missing keys known [] queuedDeletions f = (None, queuedDeletions, f)"
| "delete_missing keys known (k # ks) queuedDeletions f =
     (if k \<in> set keys then delete_missing keys known ks queuedDeletions f
      else let deletedObj = (case map_of known k of None \<Rightarrow> KOther | Some obj \<Rightarrow> obj)
           in case queueActionLocked Deleted (DeletedFinalStateUnknown k deletedObj) f of
                (Some err, f1) \<Rightarrow> (Some err, queuedDeletions + 1, f1)
              | (None, f1) \<Rightarrow> delete_missing keys known ks (queuedDeletions + 1) f1)"

definition Replace ::
  "(string list \<Rightarrow> string list) \<Rightarrow> store \<Rightarrow> k8s_obj list \<Rightarrow> DeltaFIFO \<Rightarrow> go_error option \<times> DeltaFIFO" where
  "Replace ord known list f =
     (case sync_list list f of
        (Some err, keys, f1) \<Rightarrow> (Some err, f1)
      | (None, keys, f1) \<Rightarrow>
          (case delete_missing keys known (ListKeys ord known) 0 f1 of
             (Some err, queuedDeletions, f2) \<Rightarrow> (Some err, f2)
           | (None, queuedDeletions, f2) \<Rightarrow>
               (None, if \<not> populated f2
                      then f2\<lparr>populated := True, initialPopulationCount := length list + queuedDeletions\<rparr>
                      else f2)))"

definition syncKeyLocked :: "store \<Rightarrow> string \<Rightarrow> DeltaFIFO \<Rightarrow> go_error option \<times> DeltaFIFO" where
  "syncKeyLocked known key f =
     (case map_of known key of
        None \<Rightarrow> (None, f)
      | Some obj \<Rightarrow>
          (case KeyOf obj of
             (k, Some err) \<Rightarrow> (Some (KeyError err), f)
           | (k, None) \<Rightarrow>
               if length (deltas_of f k) > 0 then (None, f)
               else case queueActionLocked Sync obj f of
                      (Some err, f1) \<Rightarrow> (Some (Errorf ''couldn't queue object: '' err), f1)
                    | (None, f1) \<Rightarrow> (None, f1)))"

fun sync_keys :: "store \<Rightarrow> string list \<Rightarrow> DeltaFIFO \<Rightarrow> go_error option \<times> DeltaFIFO" where
  "sync_keys known [] f = (None, f)"
| "sync_keys known (k # ks) f =
     (case syncKeyLocked known k f of
        (Some err, f1) \<Rightarrow> (Some err, f1)
      | (None, f1) \<Rightarrow> sync_keys known ks f1)"

definition Resync :: "(string list \<Rightarrow> string list) \<Rightarrow> store \<Rightarrow> DeltaFIFO \<Rightarrow> go_error option \<times> DeltaFIFO" where
  "Resync ord known f = sync_keys known (ListKeys ord known) f"

text \<open>
  \<^verbatim>\<open>Pop\<close> up to the call of its argument: it waits on an empty queue that is not closed, and skips
  keys without deltas.
\<close>

datatype popped = Waiting | FIFOClosedError | Popped string "Delta list"

function Pop :: "DeltaFIFO \<Rightarrow> popped \<times> DeltaFIFO" where
  "Pop f =
     (case fifo_queue f of
        [] \<Rightarrow> (if fifo_closed f then FIFOClosedError else Waiting, f)
      | key # q \<Rightarrow>
          let f1 = f\<lparr>fifo_queue := q,
                     initialPopulationCount :=
                       (if initialPopulationCount f > 0 then initialPopulationCount f - 1 else initialPopulationCount f)\<rparr>
          in case items f1 key of
               None \<Rightarrow> Pop f1
             | Some ds \<Rightarrow> (Popped key ds, f1\<lparr>items := (items f1)(key := None)\<rparr>))"
  by pat_completeness auto
termination by (relation "measure (\<lambda>f. length (fifo_queue f))") auto

declare Pop.simps [simp del]

section \<open>The invariant\<close>

text \<open>
  Objects of the API have metadata; the queue and the map hold the same keys, each once, and
  every key has deltas, of its own object. Only a deletion is of a tombstone.
\<close>

definition api_obj :: "k8s_obj \<Rightarrow> bool" where
  "api_obj obj \<longleftrightarrow> obj_meta obj \<noteq> None"

definition okey :: "k8s_obj \<Rightarrow> string" where
  "okey obj = fst (KeyOf obj)"

definition delta_ok :: "string \<Rightarrow> Delta \<Rightarrow> bool" where
  "delta_ok key d \<longleftrightarrow> KeyOf (d_Object d) = (key, None) \<and> (d_Type d \<noteq> Deleted \<longrightarrow> api_obj (d_Object d))"

definition fifo_ok :: "DeltaFIFO \<Rightarrow> bool" where
  "fifo_ok f \<longleftrightarrow> distinct (fifo_queue f) \<and> set (fifo_queue f) = dom (items f)
     \<and> (\<forall>key ds. items f key = Some ds \<longrightarrow> ds \<noteq> [] \<and> (\<forall>d \<in> set ds. delta_ok key d))"

definition store_ok :: "store \<Rightarrow> bool" where
  "store_ok st \<longleftrightarrow> distinct (map fst st) \<and> (\<forall>(k, obj) \<in> set st. api_obj obj \<and> okey obj = k)"

lemma KeyOf_api: "api_obj obj \<Longrightarrow> KeyOf obj = (okey obj, None)"
  by (cases obj) (auto simp: api_obj_def okey_def KeyOf_def MetaNamespaceKeyFunc_def)

lemma KeyOf_tombstone [simp]: "KeyOf (DeletedFinalStateUnknown k obj) = (k, None)"
  by (simp add: KeyOf_def)

lemma Deletion_KeyOf: "DeletionHandlingMetaNamespaceKeyFunc obj = KeyOf obj"
  by (simp add: DeletionHandlingMetaNamespaceKeyFunc_def KeyOf_def split: k8s_obj.split)

lemma dedupDeltas_snoc:
  "dedupDeltas (ds @ [d]) =
     (if ds \<noteq> [] \<and> d_Type (last ds) = Deleted \<and> d_Type d = Deleted
      then butlast ds @ [case d_Object (last ds) of DeletedFinalStateUnknown _ _ \<Rightarrow> d | _ \<Rightarrow> last ds]
      else ds @ [d])"
proof (cases ds rule: rev_exhaust)
  case (snoc es e)
  then show ?thesis
    by (auto simp: dedupDeltas_def isDup_def isDeletionDup_def nth_append split: k8s_obj.split)
qed (simp add: dedupDeltas_def)

lemma dedup_nonempty: "dedupDeltas (ds @ [d]) \<noteq> []"
  by (simp add: dedupDeltas_snoc)

lemma dedup_set: "set (dedupDeltas (ds @ [d])) \<subseteq> insert d (set ds)"
  by (auto simp: dedupDeltas_snoc dest: in_set_butlastD split: k8s_obj.split if_splits)

lemma dedup_last_Deleted: "d_Type (last (dedupDeltas (ds @ [d]))) = Deleted \<longleftrightarrow> d_Type d = Deleted"
  by (auto simp: dedupDeltas_snoc split: k8s_obj.split)

lemma dedup_last: "d_Type d \<noteq> Deleted \<Longrightarrow> last (dedupDeltas (ds @ [d])) = d"
  by (simp add: dedupDeltas_snoc)

text \<open>What a queued action does, for an object with a key.\<close>

definition queued :: "DeltaType \<Rightarrow> k8s_obj \<Rightarrow> DeltaFIFO \<Rightarrow> DeltaFIFO" where
  "queued t obj f = f\<lparr>fifo_queue := (if items f (okey obj) = None then fifo_queue f @ [okey obj] else fifo_queue f),
     items := (items f)(okey obj \<mapsto> dedupDeltas (deltas_of f (okey obj) @ [\<lparr>d_Type = t, d_Object = obj\<rparr>]))\<rparr>"

lemma deltas_of_queued:
  "deltas_of (queued t obj f) k =
     (if k = okey obj then dedupDeltas (deltas_of f k @ [\<lparr>d_Type = t, d_Object = obj\<rparr>]) else deltas_of f k)"
  by (simp add: queued_def deltas_of_def)

lemma queueActionLocked_queued:
  assumes "KeyOf obj = (key, None)"
  shows "queueActionLocked t obj f =
    (None, if t = Sync \<and> willObjectBeDeletedLocked f key then f else queued t obj f)"
  using assms by (simp add: queueActionLocked_def queued_def okey_def Let_def dedup_nonempty)

lemma fifo_ok_deltas: "fifo_ok f \<Longrightarrow> d \<in> set (deltas_of f key) \<Longrightarrow> delta_ok key d"
  by (cases "items f key") (auto simp: fifo_ok_def deltas_of_def)

lemma queued_ok:
  assumes "fifo_ok f" "KeyOf obj = (key, None)" "t \<noteq> Deleted \<Longrightarrow> api_obj obj"
  shows "fifo_ok (queued t obj f)"
proof -
  have k: "okey obj = key" using assms(2) by (simp add: okey_def)
  have old: "\<forall>d \<in> set (deltas_of f key). delta_ok key d" using fifo_ok_deltas [OF assms(1)] by blast
  let ?d = "\<lparr>d_Type = t, d_Object = obj\<rparr>"
  have "\<forall>d \<in> set (dedupDeltas (deltas_of f key @ [?d])). delta_ok key d"
    using old dedup_set [of "deltas_of f key" ?d] assms(2,3) by (auto simp: delta_ok_def)
  with assms(1) show ?thesis
    unfolding fifo_ok_def queued_def k by (auto simp: dedup_nonempty)
qed


text \<open>Every operation but \<^verbatim>\<open>Pop\<close> only adds to the end of the queue, and only deltas of its objects.\<close>

definition fifo_all :: "(k8s_obj \<Rightarrow> bool) \<Rightarrow> DeltaFIFO \<Rightarrow> bool" where
  "fifo_all Q f \<longleftrightarrow> (\<forall>key. \<forall>d \<in> set (deltas_of f key). Q (d_Object d))"

definition grows :: "(k8s_obj \<Rightarrow> bool) \<Rightarrow> DeltaFIFO \<Rightarrow> DeltaFIFO \<Rightarrow> bool" where
  "grows Q f f' \<longleftrightarrow> (fifo_ok f \<longrightarrow> fifo_ok f') \<and> (fifo_all Q f \<longrightarrow> fifo_all Q f') \<and> prefix (fifo_queue f) (fifo_queue f')
     \<and> populated f' = populated f \<and> initialPopulationCount f' = initialPopulationCount f \<and> fifo_closed f' = fifo_closed f"

lemma grows_refl [simp]: "grows Q f f"
  by (simp add: grows_def)

lemma grows_trans: "grows Q f g \<Longrightarrow> grows Q g h \<Longrightarrow> grows Q f h"
  unfolding grows_def using prefix_order.trans by auto

lemma fifo_all_queued: "fifo_all Q f \<Longrightarrow> Q obj \<Longrightarrow> fifo_all Q (queued t obj f)"
  using dedup_set [of "deltas_of f (okey obj)" "\<lparr>d_Type = t, d_Object = obj\<rparr>"]
  unfolding fifo_all_def by (fastforce simp: deltas_of_queued split: if_splits)

lemma grows_queued:
  assumes "KeyOf obj = (key, None)" "t \<noteq> Deleted \<Longrightarrow> api_obj obj" "Q obj"
  shows "grows Q f (queued t obj f)"
  using queued_ok [of f obj key t] fifo_all_queued [of Q f obj t] assms by (auto simp: grows_def) (auto simp: queued_def)

lemma grows_action:
  assumes "KeyOf obj = (key, None)" "t \<noteq> Deleted \<Longrightarrow> api_obj obj" "Q obj"
  shows "grows Q f (snd (queueActionLocked t obj f))"
  using assms by (simp add: queueActionLocked_queued grows_queued)

lemma sync_list_keys:
  assumes "\<forall>obj \<in> set objs. api_obj obj \<and> Q obj"
  shows "\<exists>f'. sync_list objs f = (None, map okey objs, f') \<and> grows Q f f'"
  using assms
proof (induction objs arbitrary: f)
  case (Cons obj objs)
  then have k: "KeyOf obj = (okey obj, None)" by (simp add: KeyOf_api)
  let ?f = "snd (queueActionLocked Sync obj f)"
  from Cons obtain f' where f': "sync_list objs ?f = (None, map okey objs, f')" "grows Q ?f f'" by auto
  have "grows Q f ?f" using k Cons.prems by (auto intro: grows_action)
  with f' k show ?case by (auto simp: queueActionLocked_queued intro: grows_trans)
qed simp

lemma delete_missing_grows:
  assumes "\<And>k. k \<in> set ks \<Longrightarrow> Q (DeletedFinalStateUnknown k (case map_of st k of None \<Rightarrow> KOther | Some obj \<Rightarrow> obj))"
  shows "\<exists>m f'. delete_missing keys st ks c f = (None, m, f') \<and> grows Q f f'"
  using assms
proof (induction ks arbitrary: c f)
  case (Cons k ks)
  let ?o = "DeletedFinalStateUnknown k (case map_of st k of None \<Rightarrow> KOther | Some obj \<Rightarrow> obj)"
  have "grows Q f (queued Deleted ?o f)" by (rule grows_queued) (use Cons.prems [of k] in simp_all)
  with Cons show ?case
    by (auto simp: queueActionLocked_queued Let_def) (meson grows_trans)
qed simp

lemma sync_keys_grows:
  assumes "store_ok st" "\<forall>(k, obj) \<in> set st. Q obj"
  shows "\<exists>f'. sync_keys st ks f = (None, f') \<and> grows Q f f'"
proof (induction ks arbitrary: f)
  case (Cons k ks)
  have "\<exists>f1. syncKeyLocked st k f = (None, f1) \<and> grows Q f f1"
  proof (cases "map_of st k")
    case (Some obj)
    then have "api_obj obj" "Q obj" using assms by (auto simp: store_ok_def dest: map_of_SomeD)
    with Some KeyOf_api [of obj] grows_action [of obj "okey obj" Sync Q f] show ?thesis
      by (auto simp: syncKeyLocked_def queueActionLocked_queued)
  qed (simp add: syncKeyLocked_def)
  with Cons.IH show ?case by (auto) (meson grows_trans)
qed simp

lemma Replace_grows:
  assumes "\<forall>obj \<in> set objs. api_obj obj \<and> Q obj" "\<forall>(k, obj) \<in> set st. Q (DeletedFinalStateUnknown k obj)" "reordering ord"
  shows "\<exists>f' c. grows Q f f' \<and> Replace ord st objs f =
    (None, f'\<lparr>populated := True, initialPopulationCount := (if populated f then initialPopulationCount f else length objs + c)\<rparr>)"
proof -
  from sync_list_keys [OF assms(1), of f] obtain f1 where f1: "sync_list objs f = (None, map okey objs, f1)" "grows Q f f1" by blast
  have Q: "Q (DeletedFinalStateUnknown k (case map_of st k of None \<Rightarrow> KOther | Some obj \<Rightarrow> obj))"
    if "k \<in> set (ListKeys ord st)" for k
  proof -
    from that have "k \<in> fst ` set st" using assms(3) by (simp add: ListKeys_def reordering_set)
    then obtain obj where "map_of st k = Some obj" using weak_map_of_SomeI by fastforce
    with assms(2) show ?thesis by (auto dest: map_of_SomeD)
  qed
  from delete_missing_grows [of "ListKeys ord st" Q st, OF Q] obtain c f2 where
    f2: "delete_missing (map okey objs) st (ListKeys ord st) 0 f1 = (None, c, f2)" "grows Q f1 f2" by blast
  have "grows Q f f2" using f1(2) f2(2) by (rule grows_trans)
  moreover from this have "Replace ord st objs f =
    (None, f2\<lparr>populated := True, initialPopulationCount := (if populated f then initialPopulationCount f else length objs + c)\<rparr>)"
    using f1(1) f2(1) by (auto simp: Replace_def grows_def)
  ultimately show ?thesis by blast
qed

lemma Pop_head:
  assumes "fifo_ok f" "fifo_queue f = key # q"
  shows "Pop f = (Popped key (deltas_of f key),
    f\<lparr>fifo_queue := q, initialPopulationCount := initialPopulationCount f - 1, items := (items f)(key := None)\<rparr>)"
proof -
  have "key \<in> dom (items f)" using assms by (auto simp: fifo_ok_def)
  then show ?thesis using assms(2) by (auto simp: Pop.simps [of f] Let_def deltas_of_def)
qed

lemma Pop_ok:
  assumes "fifo_ok f"
  shows "fifo_ok (snd (Pop f))"
proof (cases "fifo_queue f")
  case Nil
  with assms show ?thesis by (simp add: Pop.simps [of f])
next
  case (Cons key q)
  with assms show ?thesis unfolding Pop_head [OF assms Cons] by (auto simp: fifo_ok_def)
qed

section \<open>The store the queue leads to\<close>

definition apply_delta :: "Delta \<Rightarrow> k8s_obj option \<Rightarrow> k8s_obj option" where
  "apply_delta d v = (if d_Type d = Deleted then None else Some (d_Object d))"

definition eventual :: "DeltaFIFO \<Rightarrow> store \<Rightarrow> string \<rightharpoonup> k8s_obj" where
  "eventual f st k = fold apply_delta (deltas_of f k) (map_of st k)"

lemma apply_dedup: "fold apply_delta (dedupDeltas (ds @ [d])) v = apply_delta d v"
  by (auto simp: dedupDeltas_snoc apply_delta_def split: k8s_obj.split)

lemma eventual_queued:
  assumes "KeyOf obj = (key, None)"
  shows "eventual (queued t obj f) st = (eventual f st)(key := if t = Deleted then None else Some obj)"
proof
  have k: "okey obj = key" using assms by (simp add: okey_def)
  fix k show "eventual (queued t obj f) st k = ((eventual f st)(key := if t = Deleted then None else Some obj)) k"
    using apply_dedup [of "deltas_of f key" "\<lparr>d_Type = t, d_Object = obj\<rparr>"]
    by (auto simp: eventual_def queued_def deltas_of_def \<open>okey obj = key\<close> apply_delta_def)
qed

lemma eventual_deleted: "willObjectBeDeletedLocked f k \<Longrightarrow> eventual f st k = None"
  by (cases "deltas_of f k" rule: rev_exhaust)
    (auto simp: willObjectBeDeletedLocked_def eventual_def apply_delta_def)

lemma will_queued:
  "willObjectBeDeletedLocked (queued t obj f) k \<longleftrightarrow> (if k = okey obj then t = Deleted else willObjectBeDeletedLocked f k)"
  using dedup_last_Deleted [of "deltas_of f (okey obj)" "\<lparr>d_Type = t, d_Object = obj\<rparr>"]
  by (auto simp: willObjectBeDeletedLocked_def queued_def deltas_of_def dedup_nonempty)

lemma eventual_populated [simp]: "eventual (f\<lparr>populated := b\<rparr>) st = eventual f st"
  "eventual (f\<lparr>initialPopulationCount := c\<rparr>) st = eventual f st"
  by (simp_all add: eventual_def deltas_of_def fun_eq_iff)

text \<open>The listed object of a key, the last one when there are several.\<close>

definition listed :: "k8s_obj list \<Rightarrow> string \<rightharpoonup> k8s_obj" where
  "listed objs = map_of (rev (map (\<lambda>obj. (okey obj, obj)) objs))"

lemma listed_simps [simp]:
  "listed [] = Map.empty" "listed (obj # objs) = [okey obj \<mapsto> obj] ++ listed objs"
  by (simp_all add: listed_def map_of_append)

lemma eventual_sync_list:
  assumes "\<forall>obj \<in> set objs. api_obj obj" "sync_list objs f = (None, keys, f')"
  shows "eventual f' st k = (case listed objs k of None \<Rightarrow> eventual f st k
    | Some obj \<Rightarrow> if willObjectBeDeletedLocked f k then None else Some obj)"
  using assms
proof (induction objs arbitrary: f keys)
  case (Cons obj objs)
  then have key: "KeyOf obj = (okey obj, None)" by (simp add: KeyOf_api)
  define f1 where "f1 = (if willObjectBeDeletedLocked f (okey obj) then f else queued Sync obj f)"
  from Cons.prems key obtain keys' where f': "sync_list objs f1 = (None, keys', f')"
    by (auto simp: queueActionLocked_queued f1_def split: prod.splits)
  have w: "willObjectBeDeletedLocked f1 k = willObjectBeDeletedLocked f k" for k
    by (auto simp: f1_def will_queued)
  have e: "eventual f1 st k = (if k = okey obj \<and> \<not> willObjectBeDeletedLocked f k then Some obj else eventual f st k)"
    using eventual_queued [OF key, of Sync f st] by (auto simp: f1_def)
  show ?case
    using Cons.IH [OF _ f'] Cons.prems(1) w e eventual_deleted [of f k st]
    by (auto simp: map_add_def split: option.split)
qed simp

lemma eventual_delete_missing:
  assumes "delete_missing keys st ks c f = (None, m, f')"
  shows "eventual f' st' k = (if k \<in> set ks - set keys then None else eventual f st' k)"
  using assms
proof (induction ks arbitrary: c f)
  case (Cons k' ks)
  let ?o = "DeletedFinalStateUnknown k' (case map_of st k' of None \<Rightarrow> KOther | Some obj \<Rightarrow> obj)"
  have "eventual (queued Deleted ?o f) st' = (eventual f st')(k' := None)" by (simp add: eventual_queued)
  with Cons show ?case by (auto simp: queueActionLocked_queued Let_def split: if_splits)
qed simp

lemma eventual_sync_keys:
  assumes "store_ok st" "sync_keys st ks f = (None, f')"
  shows "eventual f' st = eventual f st"
  using assms(2)
proof (induction ks arbitrary: f)
  case (Cons k ks)
  obtain f1 where f1: "syncKeyLocked st k f = (None, f1)" "sync_keys st ks f1 = (None, f')"
    using Cons.prems by (auto split: prod.splits option.splits)
  have "eventual f1 st = eventual f st"
  proof (cases "map_of st k")
    case (Some obj)
    then have o: "api_obj obj" "okey obj = k" using assms(1) by (auto simp: store_ok_def dest: map_of_SomeD)
    then have "KeyOf obj = (k, None)" using KeyOf_api by metis
    moreover have "eventual f st k = Some obj" if "deltas_of f k = []" using that Some by (simp add: eventual_def)
    ultimately show ?thesis using Some f1(1)
      by (auto simp: syncKeyLocked_def queueActionLocked_queued eventual_queued fun_upd_idem split: if_splits)
  qed (use f1(1) in \<open>simp add: syncKeyLocked_def\<close>)
  with Cons.IH [OF f1(2)] show ?case by simp
qed simp

lemma eventual_put:
  assumes "api_obj obj"
  shows "eventual (snd (fifo_Add obj f)) st = (eventual f st)(okey obj \<mapsto> obj)"
    "eventual (snd (fifo_Update obj f)) st = (eventual f st)(okey obj \<mapsto> obj)"
    "fst (fifo_Add obj f) = None" "fst (fifo_Update obj f) = None"
  using eventual_queued [OF KeyOf_api [OF assms]] KeyOf_api [OF assms]
  by (simp_all add: fifo_Add_def fifo_Update_def queueActionLocked_queued)

lemma eventual_Delete:
  assumes "api_obj obj"
  shows "eventual (snd (fifo_Delete st obj f)) st = (eventual f st)(okey obj := None)" "fst (fifo_Delete st obj f) = None"
  using eventual_queued [OF KeyOf_api [OF assms]] KeyOf_api [OF assms]
  by (auto simp: fifo_Delete_def queueActionLocked_queued eventual_def deltas_of_def fun_upd_idem)

lemma eventual_Replace:
  assumes "\<forall>obj \<in> set objs. api_obj obj" "reordering ord"
  shows "eventual (snd (Replace ord st objs f)) st k =
    (case listed objs k of
       Some obj \<Rightarrow> if willObjectBeDeletedLocked f k then None else Some obj
     | None \<Rightarrow> if k \<in> dom (map_of st) then None else eventual f st k)"
proof -
  from sync_list_keys [of objs "\<lambda>_. True" f] assms(1) obtain f1 where f1: "sync_list objs f = (None, map okey objs, f1)" by blast
  from delete_missing_grows [of "ListKeys ord st" "\<lambda>_. True" st "map okey objs" 0 f1] obtain c f2 where
    f2: "delete_missing (map okey objs) st (ListKeys ord st) 0 f1 = (None, c, f2)" by blast
  have known: "k \<in> set (ListKeys ord st) \<longleftrightarrow> k \<in> dom (map_of st)"
    using assms(2) by (simp add: ListKeys_def reordering_set dom_map_of_conv_image_fst)
  have keys: "k \<in> set (map okey objs) \<longleftrightarrow> listed objs k \<noteq> None"
    by (auto simp: listed_def map_of_eq_None_iff image_image)
  show ?thesis
    using eventual_sync_list [OF assms(1) f1, of st k] eventual_delete_missing [OF f2, of st k] f1 f2 known keys
    by (auto simp: Replace_def split: option.splits)
qed

text \<open>An object that is in the store, has no deltas and is not listed gets one tombstone.\<close>

lemma sync_list_deltas: "k \<notin> okey ` set objs \<Longrightarrow> \<forall>obj \<in> set objs. api_obj obj \<Longrightarrow>
    sync_list objs f = (None, keys, f') \<Longrightarrow> deltas_of f' k = deltas_of f k"
proof (induction objs arbitrary: f keys)
  case (Cons obj objs)
  then have key: "KeyOf obj = (okey obj, None)" by (simp add: KeyOf_api)
  with Cons.prems Cons.IH show ?case
    by (auto simp: queueActionLocked_queued deltas_of_queued split: prod.splits if_splits)
qed simp

lemma delete_missing_deltas:
  assumes "distinct ks" "delete_missing keys st ks c f = (None, m, f')"
  shows "deltas_of f' k = (if k \<in> set ks - set keys
    then dedupDeltas (deltas_of f k @ [\<lparr>d_Type = Deleted,
           d_Object = DeletedFinalStateUnknown k (case map_of st k of None \<Rightarrow> KOther | Some obj \<Rightarrow> obj)\<rparr>])
    else deltas_of f k)"
  using assms
proof (induction ks arbitrary: c f)
  case (Cons k' ks)
  let ?o = "DeletedFinalStateUnknown k' (case map_of st k' of None \<Rightarrow> KOther | Some obj \<Rightarrow> obj)"
  have "okey ?o = k'" by (simp add: okey_def)
  with Cons show ?case by (auto simp: queueActionLocked_queued Let_def deltas_of_queued split: if_splits)
qed simp

lemma Replace_tombstone:
  assumes "\<forall>obj \<in> set objs. api_obj obj" "reordering ord" "distinct (map fst st)"
    "map_of st k = Some obj" "deltas_of f k = []" "k \<notin> okey ` set objs"
  shows "deltas_of (snd (Replace ord st objs f)) k = [\<lparr>d_Type = Deleted, d_Object = DeletedFinalStateUnknown k obj\<rparr>]"
proof -
  from sync_list_keys [of objs "\<lambda>_. True" f] assms(1) obtain f1 where f1: "sync_list objs f = (None, map okey objs, f1)" by blast
  from delete_missing_grows [of "ListKeys ord st" "\<lambda>_. True" st "map okey objs" 0 f1] obtain c f2 where
    f2: "delete_missing (map okey objs) st (ListKeys ord st) 0 f1 = (None, c, f2)" by blast
  have ks: "distinct (ListKeys ord st)" "k \<in> set (ListKeys ord st)"
    using assms(2-4) by (simp_all add: ListKeys_def reordering_simps, force)
  have "deltas_of (snd (Replace ord st objs f)) k = deltas_of f2 k"
    using f1 f2 by (simp add: Replace_def deltas_of_def)
  also have "\<dots> = dedupDeltas [\<lparr>d_Type = Deleted, d_Object = DeletedFinalStateUnknown k obj\<rparr>]"
    using delete_missing_deltas [OF ks(1) f2, of k] sync_list_deltas [OF assms(6,1) f1] ks(2) assms(4-6) by auto
  finally show ?thesis by (simp add: dedupDeltas_def)
qed

lemma eventual_Resync: "store_ok st \<Longrightarrow> eventual (snd (Resync ord st f)) st = eventual f st"
  using sync_keys_grows [of st "\<lambda>_. True" "ListKeys ord st" f] eventual_sync_keys [of st "ListKeys ord st" f]
  by (auto simp: Resync_def)

lemma populated_ok [simp]:
  "fifo_ok (f\<lparr>populated := b\<rparr>) = fifo_ok f" "fifo_ok (f\<lparr>initialPopulationCount := c\<rparr>) = fifo_ok f"
  by (simp_all add: fifo_ok_def)

section \<open>The first list\<close>

text \<open>
  A call on the queue, with the store at that time, and the keys popped so far. The informers
  call \<^verbatim>\<open>Replace\<close> first, with what the API server lists.
\<close>

datatype fifo_call =
    CallAdd k8s_obj | CallUpdate k8s_obj | CallDelete store k8s_obj
  | CallReplace "string list \<Rightarrow> string list" store "k8s_obj list"
  | CallResync "string list \<Rightarrow> string list" store | CallPop

fun do_call :: "fifo_call \<Rightarrow> DeltaFIFO \<times> string set \<Rightarrow> DeltaFIFO \<times> string set" where
  "do_call (CallAdd obj) (f, ks) = (snd (fifo_Add obj f), ks)"
| "do_call (CallUpdate obj) (f, ks) = (snd (fifo_Update obj f), ks)"
| "do_call (CallDelete st obj) (f, ks) = (snd (fifo_Delete st obj f), ks)"
| "do_call (CallReplace ord st objs) (f, ks) = (snd (Replace ord st objs f), ks)"
| "do_call (CallResync ord st) (f, ks) = (snd (Resync ord st f), ks)"
| "do_call CallPop (f, ks) =
     (case Pop f of (Popped key ds, f') \<Rightarrow> (f', insert key ks) | (_, f') \<Rightarrow> (f', ks))"

fun call_ok :: "fifo_call \<Rightarrow> bool" where
  "call_ok (CallAdd obj) = api_obj obj"
| "call_ok (CallUpdate obj) = api_obj obj"
| "call_ok (CallDelete st obj) = api_obj obj"
| "call_ok (CallReplace ord st objs) = (reordering ord \<and> (\<forall>obj \<in> set objs. api_obj obj))"
| "call_ok (CallResync ord st) = store_ok st"
| "call_ok CallPop = True"

text \<open>The keys of the first list are popped, or among the entries the population count covers.\<close>

definition first_keys :: "string set \<Rightarrow> DeltaFIFO \<times> string set \<Rightarrow> bool" where
  "first_keys K = (\<lambda>(f, ks). fifo_ok f \<and> populated f \<and> K \<subseteq> ks \<union> set (take (initialPopulationCount f) (fifo_queue f)))"

lemma first_keys_grows:
  assumes "first_keys K (f, ks)" "grows Q f f'"
  shows "first_keys K (f', ks)"
proof -
  from assms(2) obtain q where "fifo_queue f' = fifo_queue f @ q" by (auto simp: grows_def prefix_def)
  then have "set (take (initialPopulationCount f) (fifo_queue f)) \<subseteq> set (take (initialPopulationCount f') (fifo_queue f'))"
    using assms(2) by (simp add: grows_def)
  with assms show ?thesis by (auto simp: first_keys_def grows_def)
qed

lemma first_keys_call:
  assumes "first_keys K (f, ks)" "call_ok c"
  shows "first_keys K (do_call c (f, ks))"
proof (cases c)
  case (CallReplace ord st objs)
  from Replace_grows [of objs "\<lambda>_. True" st ord f] CallReplace assms(2) obtain f' c where
    f': "grows (\<lambda>_. True) f f'" "Replace ord st objs f = (None, f'\<lparr>populated := True,
       initialPopulationCount := (if populated f then initialPopulationCount f else length objs + c)\<rparr>)" by auto
  have p: "populated f" using assms(1) by (simp add: first_keys_def)
  have "snd (Replace ord st objs f) = f'" using f' p by (simp add: grows_def)
  with first_keys_grows [OF assms(1) f'(1)] CallReplace show ?thesis by simp
next
  case (CallResync ord st)
  with assms sync_keys_grows [of st "\<lambda>_. True" "ListKeys ord st" f] first_keys_grows [OF assms(1)] show ?thesis
    by (auto simp: Resync_def)
next
  case CallPop
  have f: "fifo_ok f" using assms(1) by (simp add: first_keys_def)
  show ?thesis
  proof (cases "fifo_queue f")
    case (Cons key q)
    with assms(1) CallPop Pop_ok [OF f] show ?thesis
      by (cases "initialPopulationCount f") (auto simp: Pop_head [OF f Cons] first_keys_def)
  qed (use assms(1) CallPop in \<open>simp add: Pop.simps [of f] first_keys_def\<close>)
next
  case (CallDelete st obj)
  then have k: "KeyOf obj = (okey obj, None)" "api_obj obj" using assms(2) by (simp_all add: KeyOf_api)
  have p: "f\<lparr>populated := True\<rparr> = f" using assms(1) by (simp add: first_keys_def)
  show ?thesis using first_keys_grows [OF assms(1) grows_action [where Q = "\<lambda>_. True", OF k(1)]] k assms(1) CallDelete
    by (simp add: fifo_Delete_def p)
next
  case (CallAdd obj)
  then have k: "KeyOf obj = (okey obj, None)" "api_obj obj" using assms(2) by (simp_all add: KeyOf_api)
  have p: "f\<lparr>populated := True\<rparr> = f" using assms(1) by (simp add: first_keys_def)
  show ?thesis using first_keys_grows [OF assms(1) grows_action [where Q = "\<lambda>_. True", OF k(1)]] k CallAdd by (simp add: fifo_Add_def p)
next
  case (CallUpdate obj)
  then have k: "KeyOf obj = (okey obj, None)" "api_obj obj" using assms(2) by (simp_all add: KeyOf_api)
  have p: "f\<lparr>populated := True\<rparr> = f" using assms(1) by (simp add: first_keys_def)
  show ?thesis using first_keys_grows [OF assms(1) grows_action [where Q = "\<lambda>_. True", OF k(1)]] k CallUpdate by (simp add: fifo_Update_def p)
qed

lemma first_keys_calls:
  "first_keys K fk \<Longrightarrow> \<forall>c \<in> set cs. call_ok c \<Longrightarrow> first_keys K (fold do_call cs fk)"
  by (induction cs arbitrary: fk) (auto simp del: do_call.simps, metis first_keys_call surj_pair)

lemma sync_list_queue:
  assumes "\<forall>obj \<in> set objs. api_obj obj" "\<And>k. \<not> willObjectBeDeletedLocked f k" "sync_list objs f = (None, keys, f')"
  shows "okey ` set objs \<union> dom (items f) \<subseteq> dom (items f') \<and> length (fifo_queue f') \<le> length (fifo_queue f) + length objs"
  using assms
proof (induction objs arbitrary: f keys)
  case (Cons obj objs)
  then have key: "KeyOf obj = (okey obj, None)" by (simp add: KeyOf_api)
  from Cons.prems key obtain keys' where f': "sync_list objs (queued Sync obj f) = (None, keys', f')"
    by (auto simp: queueActionLocked_queued split: prod.splits)
  have "\<not> willObjectBeDeletedLocked (queued Sync obj f) k" for k using Cons.prems(2) by (simp add: will_queued)
  note IH = Cons.IH [OF _ this f']
  have "dom (items (queued Sync obj f)) = insert (okey obj) (dom (items f))"
    "length (fifo_queue (queued Sync obj f)) \<le> Suc (length (fifo_queue f))" by (simp_all add: queued_def)
  with IH Cons.prems(1) show ?case by auto
qed simp

lemma first_list:
  assumes "\<forall>obj \<in> set objs. api_obj obj" "reordering ord"
  shows "first_keys (okey ` set objs) (snd (Replace ord [] objs NewDeltaFIFO), {})"
proof -
  have new: "fifo_ok NewDeltaFIFO" "\<And>k. \<not> willObjectBeDeletedLocked NewDeltaFIFO k" "\<not> populated NewDeltaFIFO"
    by (simp_all add: NewDeltaFIFO_def fifo_ok_def willObjectBeDeletedLocked_def deltas_of_def)
  from sync_list_keys [of objs "\<lambda>_. True" NewDeltaFIFO] assms(1) obtain f1 where
    f1: "sync_list objs NewDeltaFIFO = (None, map okey objs, f1)" "grows (\<lambda>_. True) NewDeltaFIFO f1" by blast
  have f: "snd (Replace ord [] objs NewDeltaFIFO) = f1\<lparr>populated := True, initialPopulationCount := length objs\<rparr>"
    using f1 new(3) assms(2) by (simp add: Replace_def ListKeys_def grows_def)
  have q: "okey ` set objs \<subseteq> set (fifo_queue f1)" "length (fifo_queue f1) \<le> length objs"
    using sync_list_queue [OF assms(1) new(2) f1(1)] f1(2) new(1) by (auto simp: grows_def fifo_ok_def NewDeltaFIFO_def)
  show ?thesis unfolding f first_keys_def using q f1(2) new(1) by (simp add: grows_def)
qed

section \<open>Properties\<close>

text \<open>
  C14: the list the reflector gets when a watch is renewed. Once the changes collected after it
  are applied, the store holds the listed objects and no others, when no changes were waiting
  before. Otherwise two kinds of objects come out wrong: one that is listed again while its
  deletion is still waiting is left out, and one that is no longer listed but had not reached
  the store yet stays.
\<close>

theorem relist_exact:
  assumes "\<forall>obj \<in> set objs. api_obj obj" "reordering ord" "fifo_ok f"
  shows "fst (Replace ord st objs f) = None \<and> fifo_ok (snd (Replace ord st objs f))
    \<and> eventual (snd (Replace ord st objs f)) st k =
        (case listed objs k of
           Some obj \<Rightarrow> if willObjectBeDeletedLocked f k then None else Some obj
         | None \<Rightarrow> if k \<in> dom (map_of st) then None else eventual f st k)
    \<and> (items f = Map.empty \<longrightarrow> eventual (snd (Replace ord st objs f)) st = listed objs)"
proof -
  have "eventual (snd (Replace ord st objs f)) st = listed objs" if "items f = Map.empty"
    using eventual_Replace [OF assms(1,2), of st f] that
    by (auto simp: fun_eq_iff willObjectBeDeletedLocked_def deltas_of_def eventual_def domIff split: option.split)
  with eventual_Replace [OF assms(1,2), of st f k] Replace_grows [of objs "\<lambda>_. True" st ord f] assms show ?thesis
    by (auto simp: grows_def)
qed

definition sample_svc :: k8s_obj where
  "sample_svc = KService \<lparr>svc_Namespace = ''n'', svc_Name = ''s'', svc_ResourceVersion = ''1'', svc_Ports = []\<rparr>"

lemma sample_api: "api_obj sample_svc" "okey sample_svc = ''n/s''" "KeyOf sample_svc = (''n/s'', None)"
  by (simp_all add: sample_svc_def api_obj_def okey_def KeyOf_def MetaNamespaceKeyFunc_def meta_key_def)

theorem relist_exact_witness:
  "eventual (snd (Replace (\<lambda>xs. xs) [(''n/s'', sample_svc)] [sample_svc]
       (snd (fifo_Delete [(''n/s'', sample_svc)] sample_svc NewDeltaFIFO)))) [(''n/s'', sample_svc)] ''n/s'' = None"
proof -
  let ?f = "snd (fifo_Delete [(''n/s'', sample_svc)] sample_svc NewDeltaFIFO)"
  have f: "?f = queued Deleted sample_svc (NewDeltaFIFO\<lparr>populated := True\<rparr>)"
    using sample_api by (simp add: fifo_Delete_def queueActionLocked_queued)
  have new: "fifo_ok (NewDeltaFIFO\<lparr>populated := True\<rparr>)" by (simp add: NewDeltaFIFO_def fifo_ok_def)
  have ok: "fifo_ok ?f" unfolding f by (rule queued_ok [OF new sample_api(3)]) simp
  have "willObjectBeDeletedLocked ?f ''n/s''" unfolding f by (simp add: will_queued sample_api)
  with relist_exact [OF _ reordering_id ok, of "[sample_svc]" "[(''n/s'', sample_svc)]" "''n/s''"] show ?thesis
    by (simp add: sample_api)
qed

text \<open>
  C23: an informer reports that it has synced only when every object of its first list has been
  taken off the queue and processed, whatever else is queued and taken off in between.
\<close>

theorem synced_after_first_list:
  assumes "\<forall>obj \<in> set objs. api_obj obj" "reordering ord" "\<forall>c \<in> set cs. call_ok c"
    "fold do_call cs (snd (Replace ord [] objs NewDeltaFIFO), {}) = (f, popped)" "HasSynced f"
  shows "okey ` set objs \<subseteq> popped"
  using first_keys_calls [OF first_list [OF assms(1,2)] assms(3)] assms(4,5) by (simp add: first_keys_def HasSynced_def)

theorem synced_after_first_list_witness:
  "\<exists>f. fold do_call [CallPop] (snd (Replace (\<lambda>xs. xs) [] [sample_svc] NewDeltaFIFO), {}) = (f, {''n/s''}) \<and> HasSynced f
     \<and> okey ` set [sample_svc] \<subseteq> {''n/s''}"
proof -
  let ?f = "snd (Replace (\<lambda>xs. xs) [] [sample_svc] NewDeltaFIFO)"
  have new: "fifo_ok NewDeltaFIFO" "\<not> willObjectBeDeletedLocked NewDeltaFIFO k" for k
    by (simp_all add: NewDeltaFIFO_def fifo_ok_def willObjectBeDeletedLocked_def deltas_of_def)
  have f: "?f = (queued Sync sample_svc NewDeltaFIFO)\<lparr>populated := True, initialPopulationCount := 1\<rparr>"
    using new(2) by (simp add: Replace_def ListKeys_def sample_api queueActionLocked_queued)
      (simp add: queued_def NewDeltaFIFO_def)
  have ok: "fifo_ok ?f" unfolding f using queued_ok [OF new(1) sample_api(3), of Sync] sample_api(1) by simp
  have q: "fifo_queue ?f = [''n/s'']" unfolding f by (simp add: queued_def NewDeltaFIFO_def sample_api)
  have e: "fold do_call [CallPop] (?f, {}) = (snd (Pop ?f), {''n/s''})" by (simp add: Pop_head [OF ok q])
  have s: "HasSynced (snd (Pop ?f))" by (simp add: Pop_head [OF ok q] HasSynced_def) (simp add: f)
  from synced_after_first_list [OF _ reordering_id _ e s] have "okey ` set [sample_svc] \<subseteq> {''n/s''}" by (simp add: sample_api)
  with e s show ?thesis by blast
qed

end
