(* ===== verification/Ring_Buffer.thy ===== *)
theory Ring_Buffer
  imports Prelude
begin

text \<open>
  The growing ring buffer of \<^verbatim>\<open>k8s.io/utils/buffer\<close> (vendored), which holds the notifications of an
  informer that its handler has not been called for yet. A slot of the array is \<open>None\<close> when the
  code has \<^verbatim>\<open>nil\<close> there.

  The contract its user relies on is the locale \<open>buffer\<close>: reading and writing act on a list of
  items at its two ends.
\<close>

record 'a RingGrowing =
  ring_data :: "'a option list"
  ring_n :: nat
  ring_beg :: nat
  readable :: nat

definition NewRingGrowing :: "nat \<Rightarrow> 'a RingGrowing" where
  "NewRingGrowing initialSize =
     \<lparr>ring_data = replicate initialSize None, ring_n = initialSize, ring_beg = 0, readable = 0\<rparr>"

text \<open>An item and \<^verbatim>\<open>ok\<close>, together an option.\<close>

definition ReadOne :: "'a RingGrowing \<Rightarrow> ('a option \<times> 'a RingGrowing) go" where
  "ReadOne r =
     (if readable r = 0 then Ok (None, r)
      else go_bind (go_index (ring_data r) (ring_beg r)) (\<lambda>element.
        Ok (element,
            r\<lparr>readable := readable r - 1, ring_data := (ring_data r)[ring_beg r := None],
              ring_beg := (if ring_beg r = ring_n r - 1 then 0 else ring_beg r + 1)\<rparr>)))"

definition grow :: "'a RingGrowing \<Rightarrow> 'a RingGrowing" where
  "grow r =
     (let newN = ring_n r * 2; to = ring_beg r + readable r;
          copied = (if to \<le> ring_n r then drop (ring_beg r) (take to (ring_data r))
                    else drop (ring_beg r) (ring_data r) @ take (to mod ring_n r) (ring_data r))
      in r\<lparr>ring_beg := 0, ring_data := copied @ replicate (newN - length copied) None, ring_n := newN\<rparr>)"

text \<open>A buffer without slots stays without them, and the remainder by its size is a panic.\<close>

definition WriteOne :: "'a \<Rightarrow> 'a RingGrowing \<Rightarrow> 'a RingGrowing go" where
  "WriteOne x r =
     (let r' = (if readable r = ring_n r then grow r else r); i = (readable r' + ring_beg r') mod ring_n r'
      in if ring_n r' = 0 \<or> length (ring_data r') \<le> i then Panic IndexOutOfRange
         else Ok (r'\<lparr>ring_data := (ring_data r')[i := Some x], readable := readable r' + 1\<rparr>))"

section \<open>The contract\<close>

text \<open>
  A sequence of uses of a buffer: \<open>Some x\<close> puts the item \<open>x\<close> in, \<open>None\<close> takes one out if there is one.
  The result is what was taken out, and the buffer at the end.
\<close>

fun serve ::
  "('a \<Rightarrow> 'b \<Rightarrow> 'b go) \<Rightarrow> ('b \<Rightarrow> ('a option \<times> 'b) go) \<Rightarrow> 'a option list \<Rightarrow> 'b \<Rightarrow> ('a list \<times> 'b) go" where
  "serve put take_one [] b = Ok ([], b)"
| "serve put take_one (Some x # es) b = go_bind (put x b) (serve put take_one es)"
| "serve put take_one (None # es) b =
     go_bind (take_one b) (\<lambda>(r, b1). go_bind (serve put take_one es b1) (\<lambda>(out, b2).
       Ok ((case r of None \<Rightarrow> out | Some x \<Rightarrow> x # out), b2)))"

locale buffer =
  fixes inv :: "'b \<Rightarrow> bool" and items :: "'b \<Rightarrow> 'a list"
    and put :: "'a \<Rightarrow> 'b \<Rightarrow> 'b go" and take_one :: "'b \<Rightarrow> ('a option \<times> 'b) go"
  assumes put_ok: "inv b \<Longrightarrow> \<exists>b'. put x b = Ok b' \<and> inv b' \<and> items b' = items b @ [x]"
    and take_ok: "inv b \<Longrightarrow> \<exists>b'. take_one b = Ok ((case items b of [] \<Rightarrow> None | x # xs \<Rightarrow> Some x), b')
                     \<and> inv b' \<and> items b' = tl (items b)"
begin

text \<open>What comes out is what went in, in the same order, and what is left follows.\<close>

lemma in_order:
  assumes "inv b"
  shows "\<exists>out b'. serve put take_one es b = Ok (out, b') \<and> inv b' \<and> items b @ List.map_filter (\<lambda>e. e) es = out @ items b'"
  using assms
proof (induction es arbitrary: b)
  case (Cons e es)
  show ?case
  proof (cases e)
    case None
    from take_ok [OF Cons.prems] obtain b1 where
      b1: "take_one b = Ok ((case items b of [] \<Rightarrow> None | x # xs \<Rightarrow> Some x), b1)" "inv b1" "items b1 = tl (items b)" by blast
    from Cons.IH [OF b1(2)] obtain out b' where
      "serve put take_one es b1 = Ok (out, b')" "inv b'" "items b1 @ List.map_filter (\<lambda>e. e) es = out @ items b'" by blast
    with b1 None show ?thesis by (cases "items b") (auto simp: List.map_filter_simps)
  next
    case (Some x)
    from put_ok [OF Cons.prems, of x] obtain b1 where b1: "put x b = Ok b1" "inv b1" "items b1 = items b @ [x]" by blast
    from Cons.IH [OF b1(2)] b1 Some show ?thesis by (auto simp: List.map_filter_simps)
  qed
qed (simp add: List.map_filter_simps)

lemma put_all:
  assumes "inv b"
  shows "\<exists>b'. go_fold put xs b = Ok b' \<and> inv b' \<and> items b' = items b @ xs"
  using assms
proof (induction xs arbitrary: b)
  case (Cons x xs)
  from put_ok [OF Cons.prems, of x] obtain b1 where "put x b = Ok b1" "inv b1" "items b1 = items b @ [x]" by blast
  with Cons.IH [of b1] show ?case by auto
qed simp

end

section \<open>The ring as a list\<close>

text \<open>The slots in use, in order.\<close>

definition ring_slots :: "'a RingGrowing \<Rightarrow> 'a option list" where
  "ring_slots r = map (\<lambda>i. ring_data r ! ((ring_beg r + i) mod ring_n r)) [0..<readable r]"

definition ring_items :: "'a RingGrowing \<Rightarrow> 'a list" where
  "ring_items r = map the (ring_slots r)"

definition ring_inv :: "'a RingGrowing \<Rightarrow> bool" where
  "ring_inv r \<longleftrightarrow> length (ring_data r) = ring_n r \<and> 0 < ring_n r \<and> ring_beg r < ring_n r \<and> readable r \<le> ring_n r \<and> None \<notin> set (ring_slots r)"

lemma ring_new: "0 < k \<Longrightarrow> ring_inv (NewRingGrowing k) \<and> ring_items (NewRingGrowing k) = []"
  by (simp add: NewRingGrowing_def ring_inv_def ring_items_def ring_slots_def)

lemma next_slot: "0 < k \<Longrightarrow> b < k \<Longrightarrow> (if b = k - 1 then 0 else b + 1) = Suc b mod (k :: nat)"
  by (auto simp: mod_Suc)

lemma ring_slots_Suc:
  assumes "readable r = Suc m"
  shows "ring_slots r = ring_data r ! (ring_beg r mod ring_n r) # map (\<lambda>i. ring_data r ! ((Suc (ring_beg r) + i) mod ring_n r)) [0..<m]"
  unfolding ring_slots_def assms by (simp only: map_upt_Suc) (simp del: upt_Suc)

lemma ReadOne_ring:
  assumes "ring_inv r"
  shows "\<exists>r'. ReadOne r = Ok ((case ring_items r of [] \<Rightarrow> None | x # xs \<Rightarrow> Some x), r')
    \<and> ring_inv r' \<and> ring_items r' = tl (ring_items r)"
proof (cases "readable r")
  case 0
  with assms show ?thesis by (simp add: ReadOne_def ring_items_def ring_slots_def)
next
  case (Suc m)
  let ?r = "r\<lparr>readable := m, ring_data := (ring_data r)[ring_beg r := None], ring_beg := Suc (ring_beg r) mod ring_n r\<rparr>"
  from assms have r: "length (ring_data r) = ring_n r" "ring_beg r < ring_n r" "m < ring_n r" "0 < ring_n r" "None \<notin> set (ring_slots r)"
    using Suc by (auto simp: ring_inv_def)
  have other: "(Suc (ring_beg r) + i) mod ring_n r \<noteq> ring_beg r" if "i < m" for i
  proof
    assume "(Suc (ring_beg r) + i) mod ring_n r = ring_beg r"
    then have "(ring_beg r + Suc i) mod ring_n r = (ring_beg r + 0) mod ring_n r" using r(2) by simp
    then have "ring_n r dvd Suc i" using mod_eq_dvd_iff_nat [of "ring_beg r" "ring_beg r + Suc i" "ring_n r"] by simp
    with that r(3) show False by (auto dest: dvd_imp_le)
  qed
  have "ring_slots ?r = map (\<lambda>i. ring_data r ! ((Suc (ring_beg r) + i) mod ring_n r)) [0..<m]"
    using not_sym [OF other] r(1,2) by (simp add: ring_slots_def mod_simps)
  then have s: "ring_slots ?r = tl (ring_slots r)" unfolding ring_slots_Suc [OF Suc] by simp
  have hd: "ring_slots r = ring_data r ! ring_beg r # tl (ring_slots r)" unfolding ring_slots_Suc [OF Suc] using r(2) by simp
  then obtain x where x: "ring_data r ! ring_beg r = Some x" using r(5) by (metis list.set_intros(1) option.exhaust)
  have "ReadOne r = Ok (Some x, ?r)"
    using Suc r(1,2,4) x next_slot [OF r(4,2)] by (simp add: ReadOne_def go_index_def)
  moreover have "ring_items r = x # ring_items ?r" using hd x s by (metis ring_items_def list.simps(9) option.sel)
  moreover have "ring_inv ?r"
    using r hd unfolding ring_inv_def s by (simp, metis list.set_intros(2))
  ultimately show ?thesis by auto
qed


lemma ring_slots_grow:
  assumes "ring_inv r" "readable r = ring_n r"
  shows "ring_slots (grow r) = ring_slots r" "ring_inv (grow r)" "readable (grow r) < ring_n (grow r)"
proof -
  from assms have r: "length (ring_data r) = ring_n r" "0 < ring_n r" "ring_beg r < ring_n r" "None \<notin> set (ring_slots r)"
    by (simp_all add: ring_inv_def)
  define copied where "copied = (if ring_beg r + ring_n r \<le> ring_n r then drop (ring_beg r) (take (ring_beg r + ring_n r) (ring_data r))
      else drop (ring_beg r) (ring_data r) @ take ((ring_beg r + ring_n r) mod ring_n r) (ring_data r))"
  have len: "length copied = ring_n r" using r by (simp add: copied_def)
  have nth: "copied ! i = ring_data r ! ((ring_beg r + i) mod ring_n r)" if "i < ring_n r" for i
  proof (cases "ring_beg r + i < ring_n r")
    case True
    with r that show ?thesis by (auto simp: copied_def nth_append)
  next
    case False
    then have "(ring_beg r + i) mod ring_n r = ring_beg r + i - ring_n r" using r(3) that by (simp add: mod_if)
    with r that False show ?thesis by (auto simp: copied_def nth_append add.commute)
  qed
  have g: "grow r = r\<lparr>ring_beg := 0, ring_data := copied @ replicate (ring_n r) None, ring_n := ring_n r * 2\<rparr>"
    using len unfolding grow_def Let_def assms(2) copied_def [symmetric] by simp
  have "ring_slots (grow r) = map (\<lambda>i. copied ! i) [0..<ring_n r]"
    using len assms(2) by (auto simp: ring_slots_def g nth_append)
  also have "\<dots> = ring_slots r" using nth assms(2) by (simp add: ring_slots_def)
  finally show s: "ring_slots (grow r) = ring_slots r" .
  show "ring_inv (grow r)" using r len assms(2) unfolding ring_inv_def s by (simp add: g)
  show "readable (grow r) < ring_n (grow r)" using r(2) assms(2) by (simp add: g)
qed

lemma WriteOne_ring:
  assumes "ring_inv r"
  shows "\<exists>r'. WriteOne x r = Ok r' \<and> ring_inv r' \<and> ring_items r' = ring_items r @ [x]"
proof -
  define r1 where "r1 = (if readable r = ring_n r then grow r else r)"
  have r1: "ring_inv r1" "readable r1 < ring_n r1" "ring_slots r1 = ring_slots r"
    using ring_slots_grow [OF assms] assms by (auto simp: r1_def ring_inv_def)
  let ?i = "(readable r1 + ring_beg r1) mod ring_n r1"
  let ?r = "r1\<lparr>ring_data := (ring_data r1)[?i := Some x], readable := readable r1 + 1\<rparr>"
  from r1 have f: "length (ring_data r1) = ring_n r1" "0 < ring_n r1" "ring_beg r1 < ring_n r1" by (simp_all add: ring_inv_def)
  then have i: "?i < ring_n r1" by simp
  have other: "?i \<noteq> (ring_beg r1 + j) mod ring_n r1" if "j < readable r1" for j
  proof
    assume "?i = (ring_beg r1 + j) mod ring_n r1"
    then have "ring_n r1 dvd readable r1 - j"
      using that mod_eq_dvd_iff_nat [of "ring_beg r1 + j" "readable r1 + ring_beg r1" "ring_n r1"] by simp
    with that r1(2) show False by (auto dest!: dvd_imp_le)
  qed
  have s: "ring_slots ?r = ring_slots r @ [Some x]"
    using other i f(1) unfolding r1(3) [symmetric] by (simp add: ring_slots_def add.commute [of "ring_beg r1" "readable r1"])
  have "\<not> (ring_n r1 = 0 \<or> length (ring_data r1) \<le> ?i)" using i f by linarith
  then have "WriteOne x r = Ok ?r" by (simp add: WriteOne_def Let_def r1_def [symmetric])
  moreover have "ring_inv ?r" using f r1(1,2) unfolding ring_inv_def s by (simp add: r1(3))
  ultimately show ?thesis using s by (auto simp: ring_items_def)
qed

interpretation ring: buffer ring_inv ring_items WriteOne ReadOne
  by unfold_locales (fact WriteOne_ring, fact ReadOne_ring)

text \<open>A buffer gives back what was written, in order, however often it had to grow.\<close>

lemma ring_keeps_order:
  assumes "0 < k"
  shows "\<exists>r. go_fold WriteOne (xs :: 'a list) (NewRingGrowing k) = Ok r \<and> ring_inv r \<and> ring_items r = xs"
proof -
  note new = ring_new [OF assms, where 'a = 'a]
  from ring.put_all [OF new [THEN conjunct1], of xs] show ?thesis unfolding new [THEN conjunct2] by simp
qed

end
