(* ===== verification/Shared_Informer.thy ===== *)
theory Shared_Informer
  imports Delta_FIFO Ring_Buffer Cache_Sync
begin

text \<open>
  The shared informers of \<^verbatim>\<open>client-go/tools/cache/shared_informer.go\<close> (vendored), which
  \<^verbatim>\<open>NewInformers\<close> of \<^verbatim>\<open>controller.go\<close> makes and the controller registers its event handlers with: they
  take changes off the queue (\<open>Delta_FIFO\<close>), apply them to the store and notify the listeners. The
  events of the API server reach the queue through the reflector (\<^verbatim>\<open>reflector.go\<close>).

  A listener is a goroutine \<^verbatim>\<open>pop\<close>, which keeps the notifications in order, and a goroutine \<^verbatim>\<open>run\<close>,
  which calls the handler. Times and durations are integers, in nanoseconds. The listeners
  \<^verbatim>\<open>syncingListeners\<close> points to are given by their positions.
\<close>

section \<open>Listeners\<close>

datatype notification =
    addNotification k8s_obj | updateNotification k8s_obj k8s_obj | deleteNotification k8s_obj

text \<open>
  \<open>next_notification\<close> is the variable \<^verbatim>\<open>notification\<close> of \<^verbatim>\<open>pop\<close>; its channel \<^verbatim>\<open>nextCh\<close> is \<^verbatim>\<open>nil\<close> when the
  variable is. \<open>running\<close> is the notification \<^verbatim>\<open>run\<close> has received and calls the handler for.
\<close>

record processorListener =
  next_notification :: "notification option"
  pendingNotifications :: "notification RingGrowing"
  running :: "notification option"
  requestedResyncPeriod :: int
  resyncPeriod :: int
  nextResync :: int

definition determineNextResync :: "int \<Rightarrow> processorListener \<Rightarrow> processorListener" where
  "determineNextResync now l = l\<lparr>nextResync := now + resyncPeriod l\<rparr>"

definition newProcessListener :: "int \<Rightarrow> int \<Rightarrow> int \<Rightarrow> nat \<Rightarrow> processorListener" where
  "newProcessListener requested period now bufferSize =
     determineNextResync now
       \<lparr>next_notification = None, pendingNotifications = NewRingGrowing bufferSize, running = None,
        requestedResyncPeriod = requested, resyncPeriod = period, nextResync = 0\<rparr>"

text \<open>The two cases of the \<^verbatim>\<open>select\<close> in \<^verbatim>\<open>pop\<close>: receiving a notification, and handing the next one to \<^verbatim>\<open>run\<close>.\<close>

definition listener_receive :: "notification \<Rightarrow> processorListener \<Rightarrow> processorListener go" where
  "listener_receive notificationToAdd l =
     (if next_notification l = None then Ok (l\<lparr>next_notification := Some notificationToAdd\<rparr>)
      else go_bind (WriteOne notificationToAdd (pendingNotifications l)) (\<lambda>r.
        Ok (l\<lparr>pendingNotifications := r\<rparr>)))"

definition listener_dispatch :: "processorListener \<Rightarrow> (notification option \<times> processorListener) go" where
  "listener_dispatch l =
     (case next_notification l of
        None \<Rightarrow> Ok (None, l)
      | Some notification \<Rightarrow>
          go_bind (ReadOne (pendingNotifications l)) (\<lambda>(n', r).
            Ok (Some notification, l\<lparr>next_notification := n', pendingNotifications := r\<rparr>)))"

definition listener_shouldResync :: "int \<Rightarrow> processorListener \<Rightarrow> bool" where
  "listener_shouldResync now l = (if resyncPeriod l = 0 then False else now \<ge> nextResync l)"

definition setResyncPeriod :: "int \<Rightarrow> processorListener \<Rightarrow> processorListener" where
  "setResyncPeriod period l = l\<lparr>resyncPeriod := period\<rparr>"

section \<open>The processor\<close>

record sharedProcessor =
  listeners :: "processorListener list"
  syncingListeners :: "nat list"

definition addListener :: "processorListener \<Rightarrow> sharedProcessor \<Rightarrow> sharedProcessor" where
  "addListener l p =
     p\<lparr>listeners := listeners p @ [l], syncingListeners := syncingListeners p @ [length (listeners p)]\<rparr>"

text \<open>The listeners \<^verbatim>\<open>distribute\<close> sends a notification to, and one \<^verbatim>\<open>add\<close>.\<close>

definition addressees :: "bool \<Rightarrow> sharedProcessor \<Rightarrow> nat list" where
  "addressees sync p = (if sync then syncingListeners p else [0..<length (listeners p)])"

definition listener_add :: "notification \<Rightarrow> nat \<Rightarrow> sharedProcessor \<Rightarrow> sharedProcessor go" where
  "listener_add obj i p =
     go_bind (go_index (listeners p) i) (\<lambda>l. go_bind (listener_receive obj l) (\<lambda>l'.
       Ok (p\<lparr>listeners := (listeners p)[i := l']\<rparr>)))"

definition distribute :: "notification \<Rightarrow> bool \<Rightarrow> sharedProcessor \<Rightarrow> sharedProcessor go" where
  "distribute obj sync p = go_fold (listener_add obj) (addressees sync p) p"

fun resync_listeners ::
  "int \<Rightarrow> nat \<Rightarrow> processorListener list \<Rightarrow> bool \<times> nat list \<times> processorListener list" where
  "resync_listeners now i [] = (False, [], [])"
| "resync_listeners now i (l # ls) =
     (case resync_listeners now (i + 1) ls of (needed, sync, ls') \<Rightarrow>
        if listener_shouldResync now l then (True, i # sync, determineNextResync now l # ls')
        else (needed, sync, l # ls'))"

definition shouldResync :: "int \<Rightarrow> sharedProcessor \<Rightarrow> bool \<times> sharedProcessor" where
  "shouldResync now p =
     (case resync_listeners now 0 (listeners p) of (resyncNeeded, sync, ls) \<Rightarrow>
        (resyncNeeded, p\<lparr>listeners := ls, syncingListeners := sync\<rparr>))"

definition determineResyncPeriod :: "int \<Rightarrow> int \<Rightarrow> int" where
  "determineResyncPeriod desired check =
     (if desired = 0 then desired else if check = 0 then 0 else if desired < check then check else desired)"

definition resyncCheckPeriodChanged :: "int \<Rightarrow> sharedProcessor \<Rightarrow> sharedProcessor" where
  "resyncCheckPeriodChanged check p =
     p\<lparr>listeners := map (\<lambda>l. setResyncPeriod (determineResyncPeriod (requestedResyncPeriod l) check) l) (listeners p)\<rparr>"

section \<open>Informers\<close>

text \<open>The queue is made by \<^verbatim>\<open>Run\<close>; before that it is the new queue, which has not synced either.\<close>

record sharedIndexInformer =
  indexer :: store
  fifo :: DeltaFIFO
  processor :: sharedProcessor
  resyncCheckPeriod :: int
  defaultEventHandlerResyncPeriod :: int
  inf_started :: bool
  inf_stopped :: bool

definition second :: int where
  "second = 1000000000"

definition minimumResyncPeriod :: int where
  "minimumResyncPeriod = 1 * second"

definition initialBufferSize :: nat where
  "initialBufferSize = 1024"

definition NewSharedIndexInformer :: "int \<Rightarrow> sharedIndexInformer" where
  "NewSharedIndexInformer period =
     \<lparr>indexer = [], fifo = NewDeltaFIFO, processor = \<lparr>listeners = [], syncingListeners = []\<rparr>,
      resyncCheckPeriod = period, defaultEventHandlerResyncPeriod = period,
      inf_started = False, inf_stopped = False\<rparr>"

text \<open>
  \<^verbatim>\<open>NewInformers\<close>: the factory has one informer per type, which every \<^verbatim>\<open>Informer()\<close> call returns.
\<close>

definition NewInformers :: "informer \<Rightarrow> sharedIndexInformer" where
  "NewInformers kind = NewSharedIndexInformer (second * 30)"

text \<open>\<open>ord\<close> is the order in which the store lists its objects to a handler that joins late.\<close>

definition AddEventHandlerWithResyncPeriod ::
  "(string list \<Rightarrow> string list) \<Rightarrow> int \<Rightarrow> int \<Rightarrow> sharedIndexInformer \<Rightarrow> sharedIndexInformer go" where
  "AddEventHandlerWithResyncPeriod ord now period s =
     (if inf_stopped s then Ok s
      else let
        requested = (if period > 0 \<and> period < minimumResyncPeriod then minimumResyncPeriod else period);
        early = period > 0 \<and> requested < resyncCheckPeriod s;
        requested' = (if early \<and> inf_started s then resyncCheckPeriod s else requested);
        s1 = (if early \<and> \<not> inf_started s
              then s\<lparr>resyncCheckPeriod := requested, processor := resyncCheckPeriodChanged requested (processor s)\<rparr>
              else s);
        listener = newProcessListener requested' (determineResyncPeriod requested' (resyncCheckPeriod s1)) now initialBufferSize;
        p = addListener listener (processor s1);
        i = length (listeners (processor s1))
      in if \<not> inf_started s then Ok (s1\<lparr>processor := p\<rparr>)
         else go_bind (go_fold (\<lambda>key. listener_add (addNotification (the (map_of (indexer s) key))) i)
                         (ListKeys ord (indexer s)) p)
                (\<lambda>p'. Ok (s1\<lparr>processor := p'\<rparr>)))"

definition AddEventHandler ::
  "(string list \<Rightarrow> string list) \<Rightarrow> int \<Rightarrow> sharedIndexInformer \<Rightarrow> sharedIndexInformer go" where
  "AddEventHandler ord now s = AddEventHandlerWithResyncPeriod ord now (defaultEventHandlerResyncPeriod s) s"

text \<open>
  One round of the loop in \<^verbatim>\<open>HandleDeltas\<close>: the change of the store, and the notification to
  distribute, with whether it goes to the syncing listeners only.
\<close>

definition handle_delta :: "Delta \<Rightarrow> store \<Rightarrow> go_error + (notification \<times> bool) \<times> store" where
  "handle_delta d st =
     (case d_Type d of
        Deleted \<Rightarrow>
          (case store_Delete (d_Object d) st of
             (Some err, st') \<Rightarrow> Inl err
           | (None, st') \<Rightarrow> Inr ((deleteNotification (d_Object d), False), st'))
      | t \<Rightarrow>
          (case store_put (d_Object d) st of
             (Some err, st') \<Rightarrow> Inl err
           | (None, st') \<Rightarrow>
               (case store_Get (d_Object d) st of
                  Inr (Some old) \<Rightarrow> Inr ((updateNotification old (d_Object d), t = Sync), st')
                | _ \<Rightarrow> Inr ((addNotification (d_Object d), t = Sync), st'))))"

fun HandleDeltas ::
  "Delta list \<Rightarrow> store \<Rightarrow> sharedProcessor \<Rightarrow> (go_error option \<times> store \<times> sharedProcessor) go" where
  "HandleDeltas [] st p = Ok (None, st, p)"
| "HandleDeltas (d # ds) st p =
     (case handle_delta d st of
        Inl err \<Rightarrow> Ok (Some err, st, p)
      | Inr ((n, sync), st') \<Rightarrow> go_bind (distribute n sync p) (\<lambda>p'. HandleDeltas ds st' p'))"

section \<open>The reflector\<close>

text \<open>
  An event of a watch, of an object of any type: errors end the watch, and an object that is not
  of the type the informer expects is skipped. Errors of the queue are only logged.
\<close>

datatype EventType = WatchAdded | WatchModified | WatchDeleted | WatchError | WatchOther

definition watch_event :: "(k8s_obj \<Rightarrow> bool) \<Rightarrow> EventType \<Rightarrow> k8s_obj \<Rightarrow> store \<Rightarrow> DeltaFIFO \<Rightarrow> DeltaFIFO" where
  "watch_event expectedType t obj known f =
     (if t = WatchError \<or> \<not> expectedType obj then f
      else case t of
             WatchAdded \<Rightarrow> snd (fifo_Add obj f)
           | WatchModified \<Rightarrow> snd (fifo_Update obj f)
           | WatchDeleted \<Rightarrow> snd (fifo_Delete known obj f)
           | _ \<Rightarrow> f)"

section \<open>A listener keeps the notifications in order\<close>

definition listener_items :: "processorListener \<Rightarrow> notification list" where
  "listener_items l =
     (case next_notification l of None \<Rightarrow> [] | Some x \<Rightarrow> x # ring_items (pendingNotifications l))"

definition listener_inv :: "processorListener \<Rightarrow> bool" where
  "listener_inv l \<longleftrightarrow> ring_inv (pendingNotifications l)
     \<and> (next_notification l = None \<longrightarrow> ring_items (pendingNotifications l) = [])"

interpretation listener: buffer listener_inv listener_items listener_receive listener_dispatch
proof
  fix l x assume "listener_inv l"
  then show "\<exists>l'. listener_receive x l = Ok l' \<and> listener_inv l' \<and> listener_items l' = listener_items l @ [x]"
    using ring.put_ok [of "pendingNotifications l" x]
    by (cases "next_notification l") (auto simp: listener_receive_def listener_inv_def listener_items_def)
next
  fix l assume "listener_inv l"
  then show "\<exists>l'. listener_dispatch l = Ok ((case listener_items l of [] \<Rightarrow> None | x # xs \<Rightarrow> Some x), l')
      \<and> listener_inv l' \<and> listener_items l' = tl (listener_items l)"
    using ring.take_ok [of "pendingNotifications l"]
    by (cases "next_notification l"; cases "ring_items (pendingNotifications l)")
      (auto simp: listener_dispatch_def listener_inv_def listener_items_def)
qed

lemma listener_new: "0 < k \<Longrightarrow> listener_inv (newProcessListener r p now k) \<and> listener_items (newProcessListener r p now k) = []"
  by (simp add: newProcessListener_def determineNextResync_def listener_inv_def listener_items_def ring_new)

lemma listener_frame:
  assumes "listener_receive x l = Ok l'"
  shows "running l' = running l" "resyncPeriod l' = resyncPeriod l" "nextResync l' = nextResync l"
  using assms by (auto simp: listener_receive_def split: if_splits)

lemma dispatch_frame:
  assumes "listener_dispatch l = Ok (x, l')"
  shows "running l' = running l" "resyncPeriod l' = resyncPeriod l" "nextResync l' = nextResync l"
  using assms by (auto simp: listener_dispatch_def split: option.splits)

section \<open>What a change does to the store\<close>

lemma store_put_ok:
  assumes "KeyOf obj = (key, None)"
  shows "store_put obj st = (None, AList.update key obj st)" "store_Delete obj st = (None, AList.delete key st)"
    "store_Get obj st = Inr (map_of st key)"
  using assms by (simp_all add: store_put_def store_Delete_def store_Get_def Deletion_KeyOf)

lemma handle_delta_ok:
  assumes "delta_ok key d"
  shows "handle_delta d st =
    (if d_Type d = Deleted then Inr ((deleteNotification (d_Object d), False), AList.delete key st)
     else Inr ((case map_of st key of None \<Rightarrow> addNotification (d_Object d) | Some old \<Rightarrow> updateNotification old (d_Object d),
                d_Type d = Sync), AList.update key (d_Object d) st))"
  using assms store_put_ok [of "d_Object d" key st]
  by (cases "d_Type d") (auto simp: handle_delta_def delta_ok_def split: option.split)

lemma handle_delta_store:
  assumes "delta_ok key d" "handle_delta d st = Inr (ns, st')"
  shows "map_of st' = (map_of st)(key := apply_delta d (map_of st key))"
  using assms by (auto simp: handle_delta_ok apply_delta_def update_conv' delete_conv' fun_eq_iff AList.delete_conv split: if_splits)

lemma handle_delta_store_ok:
  assumes "delta_ok key d" "handle_delta d st = Inr (ns, st')" "store_ok st"
  shows "store_ok st'"
proof -
  have d: "distinct (map fst st')"
    using assms by (auto simp: handle_delta_ok store_ok_def AList.distinct_update AList.distinct_delete split: if_splits)
  have k: "okey (d_Object d) = key" "d_Type d \<noteq> Deleted \<Longrightarrow> api_obj (d_Object d)"
    using assms(1) by (auto simp: delta_ok_def okey_def)
  have "api_obj obj \<and> okey obj = k" if "(k, obj) \<in> set st'" for k obj
  proof -
    from that d have "map_of st' k = Some obj" by simp
    then have "map_of st k = Some obj \<or> obj = d_Object d \<and> k = key \<and> d_Type d \<noteq> Deleted"
      unfolding handle_delta_store [OF assms(1,2)] by (auto simp: apply_delta_def split: if_splits)
    with assms(3) k show ?thesis by (auto simp: store_ok_def dest: map_of_SomeD)
  qed
  with d show ?thesis by (auto simp: store_ok_def)
qed

section \<open>Distributing\<close>

definition processor_ok :: "sharedProcessor \<Rightarrow> bool" where
  "processor_ok p \<longleftrightarrow> (\<forall>l \<in> set (listeners p). listener_inv l) \<and> (\<forall>i \<in> set (syncingListeners p). i < length (listeners p))"

lemma listener_add_ok:
  assumes "processor_ok p" "i < length (listeners p)"
  shows "\<exists>l'. listener_add x i p = Ok (p\<lparr>listeners := (listeners p)[i := l']\<rparr>)
    \<and> listener_receive x (listeners p ! i) = Ok l' \<and> listener_items l' = listener_items (listeners p ! i) @ [x]
    \<and> processor_ok (p\<lparr>listeners := (listeners p)[i := l']\<rparr>)"
proof -
  have "listener_inv (listeners p ! i)" using assms by (simp add: processor_ok_def)
  from listener.put_ok [OF this, of x] obtain l' where
    l': "listener_receive x (listeners p ! i) = Ok l'" "listener_inv l'"
      "listener_items l' = listener_items (listeners p ! i) @ [x]" by blast
  have "processor_ok (p\<lparr>listeners := (listeners p)[i := l']\<rparr>)"
    using assms(1) l'(2) set_update_subset_insert [of "listeners p" i l'] by (auto simp: processor_ok_def)
  with l' assms(2) show ?thesis by (auto simp: listener_add_def go_index_def)
qed

lemma distribute_ok:
  assumes "processor_ok p"
  shows "\<exists>p'. distribute x sync p = Ok p' \<and> processor_ok p'"
proof -
  let ?I = "\<lambda>p'. processor_ok p' \<and> length (listeners p') = length (listeners p)"
  have "\<exists>p'. go_fold (listener_add x) (addressees sync p) p = Ok p' \<and> ?I p'"
  proof (rule go_fold_total)
    fix i p1 assume "i \<in> set (addressees sync p)" and p1: "?I p1"
    then have "i < length (listeners p1)" using assms by (auto simp: addressees_def processor_ok_def split: if_splits)
    with listener_add_ok [of p1 i x] p1 show "\<exists>p'. listener_add x i p1 = Ok p' \<and> ?I p'" by auto
  qed (use assms in simp)
  then show ?thesis by (auto simp: distribute_def)
qed

text \<open>The deltas of one object: what processing them all does to the store.\<close>

lemma HandleDeltas_ok:
  assumes "\<forall>d \<in> set ds. delta_ok key d" "store_ok st" "processor_ok p"
  shows "\<exists>st' p'. HandleDeltas ds st p = Ok (None, st', p') \<and> store_ok st' \<and> processor_ok p'
    \<and> map_of st' = (map_of st)(key := fold apply_delta ds (map_of st key))"
  using assms
proof (induction ds arbitrary: st p)
  case (Cons d ds)
  then have d: "delta_ok key d" by simp
  obtain x sync st1 where h: "handle_delta d st = Inr ((x, sync), st1)"
    by (simp add: handle_delta_ok [OF d]) (metis surj_pair)
  from distribute_ok [OF Cons.prems(3), of x sync] obtain p1 where p1: "distribute x sync p = Ok p1" "processor_ok p1" by blast
  have st1: "map_of st1 = (map_of st)(key := apply_delta d (map_of st key))" "store_ok st1"
    using handle_delta_store [OF d h] handle_delta_store_ok [OF d h Cons.prems(2)] by simp_all
  have "\<forall>d \<in> set ds. delta_ok key d" using Cons.prems(1) by simp
  from Cons.IH [OF this st1(2) p1(2)] obtain st' p' where
    "HandleDeltas ds st1 p1 = Ok (None, st', p')" "store_ok st'" "processor_ok p'"
    "map_of st' = (map_of st1)(key := fold apply_delta ds (map_of st1 key))" by blast
  with h p1(1) st1(1) show ?case by (auto simp: fun_eq_iff)
qed simp

text \<open>An item popped and processed, as \<^verbatim>\<open>Pop\<close> does under its lock, leaves the eventual store alone.\<close>

lemma eventual_Pop:
  assumes "fifo_ok f" "store_ok st" "processor_ok p" "Pop f = (Popped key ds, f')"
  shows "\<exists>st' p'. HandleDeltas ds st p = Ok (None, st', p') \<and> store_ok st' \<and> processor_ok p' \<and> fifo_ok f'
    \<and> eventual f' st' = eventual f st \<and> map_of st' key = eventual f st key"
proof -
  have "fifo_queue f \<noteq> []" using assms(4) by (auto simp: Pop.simps [of f] split: if_splits)
  then obtain k q where q: "fifo_queue f = k # q" by (cases "fifo_queue f") auto
  have f': "k = key" "ds = deltas_of f key" "deltas_of f' = (deltas_of f)(key := [])"
    using assms(4) unfolding Pop_head [OF assms(1) q] by (auto simp: deltas_of_def fun_eq_iff)
  have "\<forall>d \<in> set ds. delta_ok key d"
    using assms(1) f'(2) by (cases "items f key") (auto simp: fifo_ok_def deltas_of_def)
  from HandleDeltas_ok [OF this assms(2,3)] obtain st' p' where
    h: "HandleDeltas ds st p = Ok (None, st', p')" "store_ok st'" "processor_ok p'"
      "map_of st' = (map_of st)(key := fold apply_delta ds (map_of st key))" by blast
  have "eventual f' st' = eventual f st" "map_of st' key = eventual f st key"
    unfolding eventual_def f'(3) h(4) by (auto simp: fun_eq_iff f'(2))
  with h Pop_ok [OF assms(1)] assms(4) show ?thesis by auto
qed

section \<open>Resynchronisation\<close>

text \<open>
  The times of the checks of one informer: each timer is made after the previous check, and
  fires after the period of the checks.
\<close>

fun timely :: "int \<Rightarrow> int \<Rightarrow> (int \<times> int) list \<Rightarrow> bool" where
  "timely period before [] \<longleftrightarrow> True"
| "timely period before ((timer, now) # checks) \<longleftrightarrow> before \<le> timer \<and> timer + period \<le> now \<and> timely period now checks"

fun do_checks :: "(int \<times> int) list \<Rightarrow> sharedProcessor \<Rightarrow> bool list \<times> sharedProcessor" where
  "do_checks [] p = ([], p)"
| "do_checks ((timer, now) # checks) p =
     (case shouldResync now p of (needed, p1) \<Rightarrow>
        (case do_checks checks p1 of (rs, p2) \<Rightarrow> (needed # rs, p2)))"

text \<open>The only listener of an informer, with the period of the checks as its own.\<close>

definition single :: "int \<Rightarrow> int \<Rightarrow> sharedProcessor \<Rightarrow> bool" where
  "single period since p \<longleftrightarrow> syncingListeners p = [0]
     \<and> (\<exists>l. listeners p = [l] \<and> resyncPeriod l = period \<and> nextResync l \<le> since + period)"

lemma single_mono: "single period since p \<Longrightarrow> since \<le> t \<Longrightarrow> single period t p"
  by (auto simp: single_def)

lemma single_due:
  assumes "single period since p" "period \<noteq> 0" "since + period \<le> now"
  shows "\<exists>l. listeners p = [l]
    \<and> shouldResync now p = (True, p\<lparr>listeners := [determineNextResync now l], syncingListeners := [0]\<rparr>)"
  using assms by (auto simp: single_def shouldResync_def listener_shouldResync_def)

lemma single_check:
  assumes "single period since p" "period \<noteq> 0" "since + period \<le> now"
  shows "fst (shouldResync now p)" "single period now (snd (shouldResync now p))"
  using single_due [OF assms] assms(1) by (auto simp: single_def determineNextResync_def)

lemma checks_due:
  assumes "single period since p" "period \<noteq> 0" "timely period since checks"
  shows "(\<forall>r \<in> set (fst (do_checks checks p)). r) \<and> syncingListeners (snd (do_checks checks p)) = [0]"
  using assms(1,3)
proof (induction checks arbitrary: since p)
  case (Cons c checks)
  obtain timer now where c: "c = (timer, now)" by fastforce
  with Cons.prems have t: "since \<le> timer" "timer + period \<le> now" "timely period now checks" by simp_all
  note s = single_check [OF single_mono [OF Cons.prems(1) t(1)] assms(2) t(2)]
  from Cons.IH [OF s(2) t(3)] s(1) c show ?case by (auto split: prod.split)
qed (simp add: single_def)

lemma registered:
  assumes "0 < period" "minimumResyncPeriod \<le> period"
  shows "\<exists>s. AddEventHandler ord now (NewSharedIndexInformer period) = Ok s \<and> single period now (processor s)
    \<and> processor_ok (processor s) \<and> indexer s = [] \<and> fifo s = NewDeltaFIFO \<and> resyncCheckPeriod s = period
    \<and> (\<forall>l \<in> set (listeners (processor s)). listener_items l = [] \<and> running l = None)"
  using assms listener_new [of initialBufferSize period period now]
  by (auto simp: AddEventHandler_def AddEventHandlerWithResyncPeriod_def NewSharedIndexInformer_def Let_def addListener_def
      single_def processor_ok_def determineResyncPeriod_def newProcessListener_def determineNextResync_def initialBufferSize_def)

section \<open>Properties\<close>

text \<open>
  C13: the queue and the store of an informer together implement one map from keys to objects:
  an event of the watch sets or removes one entry, a resynchronisation changes nothing, and
  neither does taking an item off the queue and processing its deltas, after which the store
  has the value of the map for that key. With an empty queue the store is the map.
\<close>

theorem informer_refines_map:
  assumes "fifo_ok f" "store_ok st" "processor_ok p" "api_obj obj"
  shows "eventual (snd (fifo_Add obj f)) st = (eventual f st)(okey obj \<mapsto> obj)
    \<and> eventual (snd (fifo_Update obj f)) st = (eventual f st)(okey obj \<mapsto> obj)
    \<and> eventual (snd (fifo_Delete st obj f)) st = (eventual f st)(okey obj := None)
    \<and> eventual (snd (Resync ord st f)) st = eventual f st
    \<and> (case Pop f of
         (Popped key ds, f') \<Rightarrow>
           (\<exists>st' p'. HandleDeltas ds st p = Ok (None, st', p') \<and> fifo_ok f' \<and> store_ok st' \<and> processor_ok p'
              \<and> eventual f' st' = eventual f st \<and> map_of st' key = eventual f st key)
       | (_, f') \<Rightarrow> f' = f \<and> map_of st = eventual f st)"
proof -
  have "map_of st = eventual f st" if "fifo_queue f = []"
  proof -
    from that assms(1) have "{} = dom (items f)" by (simp add: fifo_ok_def)
    then have "items f = Map.empty" unfolding eq_commute [of "{}"] by simp
    then show ?thesis by (simp add: eventual_def deltas_of_def fun_eq_iff)
  qed
  then have "case Pop f of (Popped key ds, f') \<Rightarrow>
        (\<exists>st' p'. HandleDeltas ds st p = Ok (None, st', p') \<and> fifo_ok f' \<and> store_ok st' \<and> processor_ok p'
           \<and> eventual f' st' = eventual f st \<and> map_of st' key = eventual f st key)
      | (_, f') \<Rightarrow> f' = f \<and> map_of st = eventual f st"
  proof (cases "fifo_queue f")
    case (Cons key q)
    from eventual_Pop [OF assms(1-3) Pop_head [OF assms(1) Cons]] show ?thesis
      by (auto simp: Pop_head [OF assms(1) Cons])
  qed (simp add: Pop.simps [of f])
  with eventual_put(1,2) [OF assms(4)] eventual_Delete(1) [OF assms(4)] eventual_Resync [OF assms(2), of ord f]
  show ?thesis by simp
qed

theorem informer_refines_map_witness:
  "\<exists>f ds f' st' p'. f = snd (fifo_Add sample_svc NewDeltaFIFO) \<and> eventual (snd (fifo_Delete [] sample_svc f)) [] ''n/s'' = None
    \<and> Pop f = (Popped ''n/s'' ds, f')
    \<and> HandleDeltas ds [] \<lparr>listeners = [], syncingListeners = []\<rparr> = Ok (None, st', p') \<and> map_of st' ''n/s'' = Some sample_svc"
proof -
  let ?f = "snd (fifo_Add sample_svc NewDeltaFIFO)" and ?p = "\<lparr>listeners = [], syncingListeners = []\<rparr>"
  have f: "?f = queued Added sample_svc (NewDeltaFIFO\<lparr>populated := True\<rparr>)"
    using sample_api by (simp add: fifo_Add_def queueActionLocked_queued)
  have new: "fifo_ok (NewDeltaFIFO\<lparr>populated := True\<rparr>)" by (simp add: NewDeltaFIFO_def fifo_ok_def)
  have ok: "fifo_ok ?f" unfolding f by (rule queued_ok [OF new sample_api(3)]) (simp add: sample_api)
  have st: "store_ok []" "processor_ok ?p" by (simp_all add: store_ok_def processor_ok_def)
  have "eventual ?f [] ''n/s'' = Some sample_svc" using eventual_put(1) [OF sample_api(1)] by (simp add: sample_api)
  moreover have "fifo_queue ?f = [''n/s'']" unfolding f by (simp add: queued_def sample_api NewDeltaFIFO_def)
  note Pop_head [OF ok this]
  moreover note informer_refines_map [OF ok st sample_api(1), of "\<lambda>xs. xs"]
  ultimately show ?thesis by (intro exI [of _ ?f]) (auto simp: sample_api)
qed

text \<open>
  C21: the informers resynchronise at every check. The controller registers its one handler with
  the period of the checks as its own, and each timer is made after the previous check, so the
  handler is due whenever a check is made and stays among the syncing listeners: a change that
  is noticed through a list, and not through the watch, is always reported to it.
\<close>

theorem every_resync_due:
  assumes "AddEventHandler ord now (NewInformers kind) = Ok s" "timely (resyncCheckPeriod s) now checks"
  shows "resyncCheckPeriod s = 30 * second \<and> (\<forall>r \<in> set (fst (do_checks checks (processor s))). r)
    \<and> syncingListeners (snd (do_checks checks (processor s))) = [0]"
proof -
  have "0 < second * 30" "minimumResyncPeriod \<le> second * 30" by (simp_all add: second_def minimumResyncPeriod_def)
  from registered [OF this, of ord now] assms(1) have s: "single (second * 30) now (processor s)" "resyncCheckPeriod s = second * 30"
    by (auto simp: NewInformers_def)
  have "second * 30 \<noteq> 0" by (simp add: second_def)
  from checks_due [OF s(1) this, of checks] assms(2) s(2) show ?thesis by (auto simp: mult.commute)
qed

theorem every_resync_due_witness:
  "\<exists>s. AddEventHandler (\<lambda>xs. xs) 0 (NewInformers ServiceInf) = Ok s
    \<and> syncingListeners (snd (do_checks [(0, 30 * second), (31 * second, 62 * second)] (processor s))) = [0]"
proof -
  have "0 < second * 30" "minimumResyncPeriod \<le> second * 30" by (simp_all add: second_def minimumResyncPeriod_def)
  from registered [OF this, of "\<lambda>xs. xs" 0] obtain s where
    s: "AddEventHandler (\<lambda>xs. xs) 0 (NewInformers ServiceInf) = Ok s" "resyncCheckPeriod s = second * 30"
    by (auto simp: NewInformers_def)
  have "timely (resyncCheckPeriod s) 0 [(0, 30 * second), (31 * second, 62 * second)]" by (simp add: s(2) second_def)
  from every_resync_due [OF s(1) this] s(1) show ?thesis by blast
qed

text \<open>
  C22: a listener hands the notifications to its handler in the order in which it received them,
  each once; what it has not handed over yet follows. Its ring buffer may wrap around and grow
  any number of times, and never panics.
\<close>

theorem listener_in_order:
  assumes "0 < k"
  shows "\<exists>out l'. serve listener_receive listener_dispatch es (newProcessListener r p now k) = Ok (out, l')
    \<and> List.map_filter (\<lambda>e. e) es = out @ listener_items l'"
proof -
  note new = listener_new [OF assms, of r p now]
  from listener.in_order [OF new [THEN conjunct1], of es] show ?thesis unfolding new [THEN conjunct2] by auto
qed

theorem listener_in_order_witness:
  "\<exists>out l'. serve listener_receive listener_dispatch
       [Some (addNotification KOther), Some (deleteNotification KOther), None] (newProcessListener 0 0 0 1) = Ok (out, l')
     \<and> [addNotification KOther, deleteNotification KOther] = out @ listener_items l'"
  using listener_in_order [of 1 "[Some (addNotification KOther), Some (deleteNotification KOther), None]" 0 0 0]
  by (simp add: List.map_filter_simps)

end
