(* ===== verification/Avi_Informed.thy ===== *)
theory Avi_Informed
  imports Avi_Runs Shared_Informer
begin

text \<open>
  The controller together with its informers: where \<open>Avi_Workers\<close> lets the stores and the events be
  anything, here they come from the shared informers of \<open>Shared_Informer\<close>, whose goroutines take
  their steps between those of the workers. Every run of the two together is a run of
  \<open>Avi_Workers\<close> (\<open>world_sys_step\<close>), so what is shown there holds here.

  Two auxiliary variables record history: what the stores held when a handler looked its object
  up (\<open>reading\<close>), and what they held when the last handler that succeeded for a key had looked
  (\<open>handled\<close>). The invariant \<open>attended\<close> says that nothing in the stores is forgotten.
\<close>

section \<open>An informer at run time\<close>

text \<open>
  \<open>work_left\<close> are the deltas \<^verbatim>\<open>HandleDeltas\<close> has still to process, and \<open>sending\<close> the notification it is
  distributing, with the listeners that have not received it. The queue is locked meanwhile.
  \<open>timer\<close> is when the timer of the next check was made; the goroutine of a finished
  \<^verbatim>\<open>ListAndWatch\<close> has ended when the next one makes its timer.
\<close>

record running_informer =
  shared :: sharedIndexInformer
  work_left :: "Delta list"
  sending :: "(notification \<times> nat list) option"
  timer :: "int option"
  resync_due :: bool
  clock :: int

definition unlocked :: "running_informer \<Rightarrow> bool" where
  "unlocked i \<longleftrightarrow> work_left i = [] \<and> sending i = None"

definition set_fifo :: "DeltaFIFO \<Rightarrow> running_informer \<Rightarrow> running_informer" where
  "set_fifo f i = i\<lparr>shared := (shared i)\<lparr>fifo := f\<rparr>\<rparr>"

definition set_processor :: "sharedProcessor \<Rightarrow> running_informer \<Rightarrow> running_informer" where
  "set_processor p i = i\<lparr>shared := (shared i)\<lparr>processor := p\<rparr>\<rparr>"

text \<open>Names of the API server are not empty and have no slash.\<close>

definition named :: "k8s_obj \<Rightarrow> bool" where
  "named obj \<longleftrightarrow> (\<exists>ns name. obj_meta obj = Some (ns, name) \<and> ns \<noteq> [] \<and> api_name ns \<and> api_name name)"

text \<open>
  What the reflector of the informer does (\<^verbatim>\<open>ListAndWatch\<close>): a list replaces what the queue knows, an
  event of the watch is queued, and its second goroutine makes a timer, asks the listeners when
  it has fired whether one of them is to resync, and resyncs.
\<close>

inductive reflector_step :: "(k8s_obj \<Rightarrow> bool) \<Rightarrow> running_informer \<Rightarrow> running_informer \<Rightarrow> bool" for expectedType where
  relist: "\<lbrakk>unlocked i; \<forall>obj \<in> set objs. expectedType obj \<and> named obj; reordering ord\<rbrakk> \<Longrightarrow>
   reflector_step expectedType i (set_fifo (snd (Replace ord (indexer (shared i)) objs (fifo (shared i)))) i)"
| watch: "\<lbrakk>unlocked i; named obj\<rbrakk> \<Longrightarrow>
   reflector_step expectedType i (set_fifo (watch_event expectedType t obj (indexer (shared i)) (fifo (shared i))) i)"
| arm: "\<lbrakk>clock i \<le> now; \<not> resync_due i\<rbrakk> \<Longrightarrow> reflector_step expectedType i (i\<lparr>timer := Some now, clock := now\<rparr>)"
| check: "\<lbrakk>timer i = Some t; t + resyncCheckPeriod (shared i) \<le> now; clock i \<le> now;
     shouldResync now (processor (shared i)) = (b, p)\<rbrakk> \<Longrightarrow>
   reflector_step expectedType i ((set_processor p i)\<lparr>timer := None, resync_due := b, clock := now\<rparr>)"
| resync: "\<lbrakk>resync_due i; unlocked i; reordering ord\<rbrakk> \<Longrightarrow>
   reflector_step expectedType i ((set_fifo (snd (Resync ord (indexer (shared i)) (fifo (shared i)))) i)\<lparr>resync_due := False\<rparr>)"

text \<open>
  What the goroutines that take deltas off the queue do: \<^verbatim>\<open>HandleDeltas\<close> applies them to the store one
  by one and hands each listener the notification, and the \<^verbatim>\<open>pop\<close> of a listener passes one on to
  its \<^verbatim>\<open>run\<close>.
\<close>

inductive process_step :: "running_informer \<Rightarrow> running_informer \<Rightarrow> bool" where
  pop: "\<lbrakk>unlocked i; Pop (fifo (shared i)) = (Popped key ds, f)\<rbrakk> \<Longrightarrow>
   process_step i ((set_fifo f i)\<lparr>work_left := ds\<rparr>)"
| change: "\<lbrakk>work_left i = d # ds; sending i = None; handle_delta d (indexer (shared i)) = Inr ((x, sync), st)\<rbrakk> \<Longrightarrow>
   process_step i (i\<lparr>shared := (shared i)\<lparr>indexer := st\<rparr>, work_left := ds,
                              sending := Some (x, addressees sync (processor (shared i)))\<rparr>)"
| give_up: "\<lbrakk>work_left i = d # ds; sending i = None; handle_delta d (indexer (shared i)) = Inl err\<rbrakk> \<Longrightarrow>
   process_step i (i\<lparr>work_left := []\<rparr>)"
| send: "\<lbrakk>sending i = Some (x, j # js); listener_add x j (processor (shared i)) = Ok p\<rbrakk> \<Longrightarrow>
   process_step i ((set_processor p i)\<lparr>sending := Some (x, js)\<rparr>)"
| sent: "sending i = Some (x, []) \<Longrightarrow> process_step i (i\<lparr>sending := None\<rparr>)"
| dispatch: "\<lbrakk>j < length (listeners (processor (shared i))); l = listeners (processor (shared i)) ! j; running l = None;
     listener_dispatch l = Ok (Some x, l')\<rbrakk> \<Longrightarrow>
   process_step i (set_processor
     ((processor (shared i))\<lparr>listeners := (listeners (processor (shared i)))[j := l'\<lparr>running := Some x\<rparr>]\<rparr>) i)"

definition inf_step :: "(k8s_obj \<Rightarrow> bool) \<Rightarrow> running_informer \<Rightarrow> running_informer \<Rightarrow> bool" where
  "inf_step expectedType i i' \<longleftrightarrow> reflector_step expectedType i i' \<or> process_step i i'"

lemma inf_step_intros:
  "reflector_step e i i' \<Longrightarrow> inf_step e i i'" "process_step i i' \<Longrightarrow> inf_step e i i'"
  by (simp_all add: inf_step_def)

lemma inf_step_cases:
  assumes "inf_step e i i'"
  obtains
    (relist) objs ord where "i' = set_fifo (snd (Replace ord (indexer (shared i)) objs (fifo (shared i)))) i"
      "unlocked i" "\<forall>obj \<in> set objs. e obj \<and> named obj" "reordering ord"
    | (watch) obj t where "i' = set_fifo (watch_event e t obj (indexer (shared i)) (fifo (shared i))) i"
      "unlocked i" "named obj"
    | (arm) now where "i' = i\<lparr>timer := Some now, clock := now\<rparr>"
      "clock i \<le> now" "\<not> resync_due i"
    | (check) t now b p where "i' = (set_processor p i)\<lparr>timer := None, resync_due := b, clock := now\<rparr>"
      "timer i = Some t" "t + resyncCheckPeriod (shared i) \<le> now" "clock i \<le> now" "shouldResync now (processor (shared i)) = (b, p)"
    | (resync) ord where "i' = (set_fifo (snd (Resync ord (indexer (shared i)) (fifo (shared i)))) i)\<lparr>resync_due := False\<rparr>"
      "resync_due i" "unlocked i" "reordering ord"
    | (pop) key ds f where "i' = (set_fifo f i)\<lparr>work_left := ds\<rparr>"
      "unlocked i" "Pop (fifo (shared i)) = (Popped key ds, f)"
    | (change) d ds x sync st where "i' = i\<lparr>shared := (shared i)\<lparr>indexer := st\<rparr>, work_left := ds, sending := Some (x, addressees sync (processor (shared i)))\<rparr>"
      "work_left i = d # ds" "sending i = None" "handle_delta d (indexer (shared i)) = Inr ((x, sync), st)"
    | (give_up) d ds err where "i' = i\<lparr>work_left := []\<rparr>"
      "work_left i = d # ds" "sending i = None" "handle_delta d (indexer (shared i)) = Inl err"
    | (send) x j js p where "i' = (set_processor p i)\<lparr>sending := Some (x, js)\<rparr>"
      "sending i = Some (x, j # js)" "listener_add x j (processor (shared i)) = Ok p"
    | (sent) x where "i' = i\<lparr>sending := None\<rparr>"
      "sending i = Some (x, [])"
    | (dispatch) j l x l' where "i' = set_processor ((processor (shared i))\<lparr>listeners := (listeners (processor (shared i)))[j := l'\<lparr>running := Some x\<rparr>]\<rparr>) i"
      "j < length (listeners (processor (shared i)))" "l = listeners (processor (shared i)) ! j" "running l = None" "listener_dispatch l = Ok (Some x, l')"
proof -
  from assms consider "reflector_step e i i'" | "process_step i i'" unfolding inf_step_def by blast
  then show ?thesis
  proof cases
    case 1
    then show ?thesis by cases ((rule relist; assumption) | (rule watch; assumption) | (rule arm; assumption) | (rule check; assumption) | (rule resync; assumption))+
  next
    case 2
    then show ?thesis by cases
      ((rule pop; assumption) | (rule change; assumption) | (rule give_up; assumption) | (rule send; assumption) | (rule sent; assumption) | (rule dispatch; assumption))+
  qed
qed

section \<open>The whole program\<close>

fun kind_name :: "informer \<Rightarrow> string" where
  "kind_name ServiceInf = ''Service''"
| "kind_name EndpointsInf = ''Endpoints''"
| "kind_name IngressInf = ''Ingress''"

fun of_kind :: "informer \<Rightarrow> k8s_obj \<Rightarrow> bool" where
  "of_kind ServiceInf = is_svc"
| "of_kind EndpointsInf = is_ep"
| "of_kind IngressInf = is_ing"

text \<open>The handlers \<^verbatim>\<open>NewAviController\<close> registers, as \<^verbatim>\<open>run\<close> calls them for a notification.\<close>

fun handler :: "informer \<Rightarrow> QEnv \<Rightarrow> notification \<Rightarrow> 'w AviController \<Rightarrow> 'w AviController option go" where
  "handler EndpointsInf qe (addNotification obj) = ep_AddFunc qe obj"
| "handler EndpointsInf qe (updateNotification old obj) = ep_UpdateFunc qe old obj"
| "handler EndpointsInf qe (deleteNotification obj) = ep_DeleteFunc qe obj"
| "handler ServiceInf qe (addNotification obj) = svc_AddFunc qe obj"
| "handler ServiceInf qe (updateNotification old obj) = svc_UpdateFunc qe old obj"
| "handler ServiceInf qe (deleteNotification obj) = svc_DeleteFunc qe obj"
| "handler IngressInf qe (addNotification obj) = ing_AddFunc qe obj"
| "handler IngressInf qe (updateNotification old obj) = ing_UpdateFunc qe old obj"
| "handler IngressInf qe (deleteNotification obj) = ing_DeleteFunc qe obj"

text \<open>What the listers read: the stores, at the types of their objects.\<close>

type_synonym snapshot = "informer \<Rightarrow> string \<rightharpoonup> k8s_obj"

definition stores_of :: "snapshot \<Rightarrow> Informers" where
  "stores_of st =
     \<lparr>ServiceInformer = (\<lambda>k. case st ServiceInf k of Some (KService svc) \<Rightarrow> Some svc | _ \<Rightarrow> None),
      EpInformer = (\<lambda>k. case st EndpointsInf k of Some (KEndpoints ep) \<Rightarrow> Some ep | _ \<Rightarrow> None),
      IngInformer = (\<lambda>k. case st IngressInf k of Some (KIngress ing) \<Rightarrow> Some ing | _ \<Rightarrow> None)\<rparr>"

record 'w World =
  sys :: "'w Sys"
  informers :: "informer \<Rightarrow> running_informer"
  reading :: "nat \<Rightarrow> snapshot option"
  handled :: snapshot

definition stored :: "(informer \<Rightarrow> running_informer) \<Rightarrow> snapshot" where
  "stored is kind = map_of (indexer (shared (is kind)))"

definition busy_with :: "'w worker \<Rightarrow> (uint32 \<times> iface \<times> ('w Shared, go_error option) prog) option" where
  "busy_with w = (case w of Busy wid obj p \<Rightarrow> Some (wid, obj, p) | _ \<Rightarrow> None)"

definition store_key :: "string \<Rightarrow> string \<Rightarrow> string" where
  "store_key ns name = ns @ ''/'' @ name"

text \<open>The entries a settled item is about take the value its handler has read.\<close>

definition record_handled :: "iface \<Rightarrow> snapshot option \<Rightarrow> snapshot \<Rightarrow> snapshot" where
  "record_handled obj r h = (\<lambda>kind k.
     case r of
       None \<Rightarrow> h kind k
     | Some snap \<Rightarrow>
         (case SplitMetaNamespaceKey k of
            Inr (ns, name) \<Rightarrow> if obj = IStr (key_of (kind_name kind) ns name) then snap kind k else h kind k
          | Inl _ \<Rightarrow> h kind k))"

definition clear_running :: "nat \<Rightarrow> running_informer \<Rightarrow> running_informer" where
  "clear_running j i = set_processor ((processor (shared i))\<lparr>listeners :=
     (listeners (processor (shared i)))[j := (listeners (processor (shared i)) ! j)\<lparr>running := None\<rparr>]\<rparr>) i"

inductive world_step :: "'w World \<Rightarrow> 'w World \<Rightarrow> bool" where
  inform: "\<lbrakk>inf_step (of_kind kind) (informers w kind) i; is' = (informers w)(kind := i)\<rbrakk> \<Longrightarrow>
   world_step w (w\<lparr>informers := is', sys := (sys w)\<lparr>stores := stores_of (stored is')\<rparr>\<rparr>)"
| deliver: "\<lbrakk>j < length (listeners (processor (shared (informers w kind))));
     running (listeners (processor (shared (informers w kind))) ! j) = Some x;
     handler kind qe x (ctl (sys w)) = Ok (Some c)\<rbrakk> \<Longrightarrow>
   world_step w (w\<lparr>informers := (informers w)(kind := clear_running j (informers w kind)), sys := (sys w)\<lparr>ctl := c\<rparr>\<rparr>)"
| take: "\<lbrakk>workers (sys w) g = Serving wid; take_item wid (ctl (sys w)) = Ok (Work obj, c)\<rbrakk> \<Longrightarrow>
   world_step w (w\<lparr>sys := (sys w)\<lparr>ctl := c, workers := (workers (sys w))(g := Busy wid obj (item_prog env wid obj))\<rparr>,
                   reading := (reading w)(g := None)\<rparr>)"
| handle: "\<lbrakk>workers (sys w) g = Busy wid obj p;
     prog_step (p, k8s (ctl (sys w)), stores (sys w)) (p', st', stores (sys w))\<rbrakk> \<Longrightarrow>
   world_step w (w\<lparr>sys := (sys w)\<lparr>ctl := (ctl (sys w))\<lparr>k8s := st'\<rparr>, workers := (workers (sys w))(g := Busy wid obj p')\<rparr>,
                   reading := (reading w)(g := Some (case reading w g of None \<Rightarrow> stored (informers w) | Some snap \<Rightarrow> snap))\<rparr>)"
| finish: "\<lbrakk>workers (sys w) g = Busy wid obj (Return err); finish_item qe wid obj err (ctl (sys w)) = Ok (Some c)\<rbrakk> \<Longrightarrow>
   world_step w (w\<lparr>sys := (sys w)\<lparr>ctl := c, workers := (workers (sys w))(g := Serving wid)\<rparr>,
                   handled := (if settled err then record_handled obj (reading w g) (handled w) else handled w)\<rparr>)"
| other: "\<lbrakk>sys_step (sys w) s; stores s = stores (sys w); \<forall>g. busy_with (workers s g) = busy_with (workers (sys w) g)\<rbrakk> \<Longrightarrow>
   world_step w (w\<lparr>sys := s\<rparr>)"

inductive_cases world_stepE: "world_step w w'"

text \<open>The program once the controller has registered its handlers at the time \<open>now\<close>.\<close>

definition registered_informer :: "int \<Rightarrow> informer \<Rightarrow> running_informer" where
  "registered_informer now kind =
     \<lparr>shared = (case AddEventHandler (\<lambda>xs. xs) now (NewInformers kind) of Ok s \<Rightarrow> s | Panic _ \<Rightarrow> NewInformers kind),
      work_left = [], sending = None, timer = None, resync_due = False, clock = now\<rparr>"

definition world_start :: "uint32 \<Rightarrow> 'w K8sState \<Rightarrow> int \<Rightarrow> 'w World" where
  "world_start num st now =
     \<lparr>sys = start num st (stores_of (\<lambda>_. Map.empty)), informers = registered_informer now,
      reading = (\<lambda>_. None), handled = (\<lambda>_. Map.empty)\<rparr>"

section \<open>Runs of the world are runs of the controller\<close>

lemma handler_event: "handler kind qe x c = Ok (Some c') \<Longrightarrow> informer_event c c'"
  by (cases kind; cases x) (auto intro: informer_event.intros)

lemma world_sys_step: "world_step w w' \<Longrightarrow> sys_step (sys w) (sys w')"
proof (induction rule: world_step.induct)
  case (deliver j w kind x qe c)
  then show ?case by (auto intro: sys_step.event handler_event)
next
  case (handle w g wid obj p p' st')
  from sys_step.handle [OF handle] show ?case by simp
qed (auto intro: sys_step.intros)

lemma world_sys_reachable:
  assumes "world_step\<^sup>*\<^sup>* (world_start num st now) w"
  shows "reachable num st (sys w)"
proof -
  have "sys_step\<^sup>*\<^sup>* (sys (world_start num st now)) (sys w)"
    using assms
  proof (induction rule: rtranclp_induct)
    case (step w w')
    from step.IH world_sys_step [OF step.hyps(2)] show ?case by (rule rtranclp.rtrancl_into_rtrancl)
  qed simp
  then show ?thesis by (auto simp: reachable_def world_start_def)
qed

section \<open>The invariant of an informer\<close>

definition good :: "informer \<Rightarrow> k8s_obj \<Rightarrow> bool" where
  "good kind obj \<longleftrightarrow> of_kind kind obj \<and> named obj"

definition good_obj :: "informer \<Rightarrow> k8s_obj \<Rightarrow> bool" where
  "good_obj kind obj \<longleftrightarrow> good kind obj \<or> (\<exists>key o'. obj = DeletedFinalStateUnknown key o' \<and> good kind o' \<and> okey o' = key)"

fun good_note :: "informer \<Rightarrow> notification \<Rightarrow> bool" where
  "good_note kind (addNotification obj) \<longleftrightarrow> good kind obj"
| "good_note kind (updateNotification old obj) \<longleftrightarrow> good kind old \<and> good kind obj \<and> okey old = okey obj"
| "good_note kind (deleteNotification obj) \<longleftrightarrow> good_obj kind obj"

fun note_key :: "notification \<Rightarrow> string" where
  "note_key (addNotification obj) = okey obj"
| "note_key (updateNotification old obj) = okey obj"
| "note_key (deleteNotification obj) = okey obj"

text \<open>The notifications that have not been handed to the handler.\<close>

definition listener_notes :: "processorListener \<Rightarrow> notification set" where
  "listener_notes l = set (listener_items l) \<union> set_option (running l)"

definition sending_notes :: "(notification \<times> nat list) option \<Rightarrow> notification set" where
  "sending_notes out = (case out of Some (x, j # js) \<Rightarrow> {x} | _ \<Rightarrow> {})"

definition undelivered :: "running_informer \<Rightarrow> notification set" where
  "undelivered i = sending_notes (sending i) \<union> (\<Union>l \<in> set (listeners (processor (shared i))). listener_notes l)"

definition check_period :: int where
  "check_period = second * 30"

definition data_ok :: "informer \<Rightarrow> running_informer \<Rightarrow> bool" where
  "data_ok kind i \<longleftrightarrow> fifo_ok (fifo (shared i)) \<and> fifo_all (good_obj kind) (fifo (shared i))
     \<and> store_ok (indexer (shared i)) \<and> (\<forall>(k, obj) \<in> set (indexer (shared i)). good kind obj)
     \<and> (\<forall>d \<in> set (work_left i). (\<exists>key. delta_ok key d) \<and> good_obj kind (d_Object d))"

definition listening_ok :: "informer \<Rightarrow> running_informer \<Rightarrow> bool" where
  "listening_ok kind i \<longleftrightarrow> processor_ok (processor (shared i)) \<and> (\<forall>x \<in> undelivered i. good_note kind x)
     \<and> (\<forall>x js. sending i = Some (x, js) \<longrightarrow> set js \<subseteq> {0})"

definition timing_ok :: "running_informer \<Rightarrow> bool" where
  "timing_ok i \<longleftrightarrow> resyncCheckPeriod (shared i) = check_period \<and> single check_period (clock i) (processor (shared i))
     \<and> (\<forall>t. timer i = Some t \<longrightarrow> single check_period t (processor (shared i)))"

definition inf_ok :: "informer \<Rightarrow> running_informer \<Rightarrow> bool" where
  "inf_ok kind i \<longleftrightarrow> data_ok kind i \<and> listening_ok kind i \<and> timing_ok i"

lemma good_api: "good kind obj \<Longrightarrow> api_obj obj"
  by (auto simp: good_def named_def api_obj_def)

lemma good_obj_good: "good kind obj \<Longrightarrow> good_obj kind obj"
  by (simp add: good_obj_def)

lemma set_fifo_sel [simp]:
  "fifo (shared (set_fifo f i)) = f" "indexer (shared (set_fifo f i)) = indexer (shared i)"
  "processor (shared (set_fifo f i)) = processor (shared i)" "resyncCheckPeriod (shared (set_fifo f i)) = resyncCheckPeriod (shared i)"
  "work_left (set_fifo f i) = work_left i" "sending (set_fifo f i) = sending i" "timer (set_fifo f i) = timer i"
  "clock (set_fifo f i) = clock i" "resync_due (set_fifo f i) = resync_due i"
  by (simp_all add: set_fifo_def)

lemma set_processor_sel [simp]:
  "fifo (shared (set_processor p i)) = fifo (shared i)" "indexer (shared (set_processor p i)) = indexer (shared i)"
  "processor (shared (set_processor p i)) = p" "resyncCheckPeriod (shared (set_processor p i)) = resyncCheckPeriod (shared i)"
  "work_left (set_processor p i) = work_left i" "sending (set_processor p i) = sending i" "timer (set_processor p i) = timer i"
  "clock (set_processor p i) = clock i" "resync_due (set_processor p i) = resync_due i"
  by (simp_all add: set_processor_def)

subsection \<open>The data\<close>

lemma fifo_all_populated [simp]:
  "fifo_all Q (f\<lparr>populated := b\<rparr>) = fifo_all Q f" "fifo_all Q (f\<lparr>initialPopulationCount := c\<rparr>) = fifo_all Q f"
  by (simp_all add: fifo_all_def deltas_of_def)

lemma action_good:
  assumes "fifo_ok f" "fifo_all (good_obj kind) f" "good kind obj"
  shows "fifo_ok (snd (queueActionLocked t obj f)) \<and> fifo_all (good_obj kind) (snd (queueActionLocked t obj f))"
  using grows_action [of obj "okey obj" t "good_obj kind" f] KeyOf_api [OF good_api [OF assms(3)]] good_api [OF assms(3)]
    good_obj_good [OF assms(3)] assms(1,2) by (simp add: grows_def)

lemma relist_good:
  assumes "data_ok kind i" "\<forall>obj \<in> set objs. of_kind kind obj \<and> named obj" "reordering ord"
  shows "data_ok kind (set_fifo (snd (Replace ord (indexer (shared i)) objs (fifo (shared i)))) i)"
proof -
  have objs: "\<forall>obj \<in> set objs. api_obj obj \<and> good_obj kind obj"
    using assms(2) by (auto simp: good_def intro: good_obj_good good_api [of kind])
  have tomb: "\<forall>(k, obj) \<in> set (indexer (shared i)). good_obj kind (DeletedFinalStateUnknown k obj)"
    using assms(1) by (auto simp: data_ok_def good_obj_def store_ok_def)
  from Replace_grows [OF objs tomb assms(3), of "fifo (shared i)"] assms(1) show ?thesis
    by (auto simp: data_ok_def grows_def)
qed

lemma watch_good:
  assumes "data_ok kind i" "named obj"
  shows "data_ok kind (set_fifo (watch_event (of_kind kind) t obj (indexer (shared i)) (fifo (shared i))) i)"
proof (cases "of_kind kind obj")
  case True
  then have g: "good kind obj" using assms(2) by (simp add: good_def)
  have a: "fifo_ok (snd (queueActionLocked t obj (fifo (shared i)\<lparr>populated := True\<rparr>)))
      \<and> fifo_all (good_obj kind) (snd (queueActionLocked t obj (fifo (shared i)\<lparr>populated := True\<rparr>)))" for t
    by (rule action_good [OF _ _ g]) (use assms(1) in \<open>simp_all add: data_ok_def\<close>)
  have "KeyOf obj = (okey obj, None)" by (rule KeyOf_api [OF good_api [OF g]])
  then have d: "fifo_ok (snd (fifo_Delete (indexer (shared i)) obj (fifo (shared i))))
      \<and> fifo_all (good_obj kind) (snd (fifo_Delete (indexer (shared i)) obj (fifo (shared i))))"
    using a [of Deleted] assms(1) by (simp add: fifo_Delete_def data_ok_def)
  show ?thesis
    using a d assms(1) by (cases t) (auto simp: watch_event_def data_ok_def fifo_Add_def fifo_Update_def)
qed (use assms(1) in \<open>simp add: watch_event_def data_ok_def\<close>)

lemma resync_good:
  assumes "data_ok kind i"
  shows "data_ok kind (set_fifo (snd (Resync ord (indexer (shared i)) (fifo (shared i)))) i)"
proof -
  have "\<forall>(k, obj) \<in> set (indexer (shared i)). good_obj kind obj" "store_ok (indexer (shared i))"
    using assms by (auto simp: data_ok_def intro: good_obj_good)
  from sync_keys_grows [OF this(2,1), of "ListKeys ord (indexer (shared i))" "fifo (shared i)"] assms show ?thesis
    by (auto simp: data_ok_def grows_def Resync_def)
qed

lemma pop_good:
  assumes "data_ok kind i" "Pop (fifo (shared i)) = (Popped key ds, f)"
  shows "data_ok kind ((set_fifo f i)\<lparr>work_left := ds\<rparr>)"
proof -
  let ?f = "fifo (shared i)"
  have ok: "fifo_ok ?f" "fifo_all (good_obj kind) ?f" using assms(1) by (simp_all add: data_ok_def)
  have "fifo_queue ?f \<noteq> []" using assms(2) by (auto simp: Pop.simps [of ?f] split: if_splits)
  then obtain k q where q: "fifo_queue ?f = k # q" by (cases "fifo_queue ?f") auto
  from assms(2) have f: "ds = deltas_of ?f key"
    "f = ?f\<lparr>fifo_queue := q, initialPopulationCount := initialPopulationCount ?f - 1, items := (items ?f)(key := None)\<rparr>"
    unfolding Pop_head [OF ok(1) q] by auto
  have "fifo_all (good_obj kind) f" using ok(2) by (auto simp: f(2) fifo_all_def deltas_of_def split: option.splits if_splits)
  moreover have "\<forall>d \<in> set ds. (\<exists>key. delta_ok key d) \<and> good_obj kind (d_Object d)"
    using ok(2) fifo_ok_deltas [OF ok(1)] unfolding f(1) fifo_all_def by blast
  moreover have "fifo_ok f" using Pop_ok [OF ok(1)] assms(2) by simp
  ultimately show ?thesis using assms(1) by (simp add: data_ok_def)
qed

text \<open>A delta on its way from the queue into the store.\<close>

lemma change_good:
  assumes "data_ok kind i" "work_left i = d # ds" "handle_delta d (indexer (shared i)) = Inr ((x, sync), st)"
  shows "data_ok kind (i\<lparr>shared := (shared i)\<lparr>indexer := st\<rparr>, work_left := ds, sending := z\<rparr>)" "good_note kind x"
proof -
  from assms(1,2) obtain key where d: "delta_ok key d" "good_obj kind (d_Object d)" by (auto simp: data_ok_def)
  have store: "store_ok (indexer (shared i))" "\<And>k obj. map_of (indexer (shared i)) k = Some obj \<Longrightarrow> good kind obj \<and> okey obj = k"
    using assms(1) by (auto simp: data_ok_def store_ok_def dest!: map_of_SomeD)
  have st: "store_ok st" by (rule handle_delta_store_ok [OF d(1) assms(3) store(1)])
  have put: "good kind (d_Object d)" if "d_Type d \<noteq> Deleted"
    using d that by (auto simp: delta_ok_def good_obj_def api_obj_def)
  have "good kind obj" if "(k, obj) \<in> set st" for k obj
  proof -
    from that st have "map_of st k = Some obj" by (simp add: store_ok_def)
    then show ?thesis
      using put store(2) unfolding handle_delta_store [OF d(1) assms(3)] by (auto simp: apply_delta_def split: if_splits)
  qed
  with st assms(1,2) show "data_ok kind (i\<lparr>shared := (shared i)\<lparr>indexer := st\<rparr>, work_left := ds, sending := z\<rparr>)"
    by (auto simp: data_ok_def)
  have "okey (d_Object d) = key" using d(1) by (simp add: delta_ok_def okey_def)
  with assms(3) d(2) put store(2) show "good_note kind x"
    by (auto simp: handle_delta_ok [OF d(1)] split: if_splits option.splits)
qed

subsection \<open>The listeners\<close>

lemma listening_cong:
  assumes "processor (shared i') = processor (shared i)" "sending i' = sending i"
  shows "undelivered i' = undelivered i" "listening_ok kind i' = listening_ok kind i"
  using assms by (simp_all add: undelivered_def listening_ok_def)

lemma listening_one:
  assumes "timing_ok i"
  shows "\<exists>l. listeners (processor (shared i)) = [l]" "addressees sync (processor (shared i)) = [0]"
  using assms by (auto simp: timing_ok_def single_def addressees_def)

lemma timing_one:
  assumes "timing_ok i" "listeners (processor (shared i)) = [l]" "nextResync l' = nextResync l" "resyncPeriod l' = resyncPeriod l"
  shows "timing_ok (set_processor ((processor (shared i))\<lparr>listeners := [l']\<rparr>) i)"
  using assms by (auto simp: timing_ok_def single_def)

lemma running_frame [simp]:
  "listener_items (l\<lparr>running := r\<rparr>) = listener_items l" "listener_inv (l\<lparr>running := r\<rparr>) = listener_inv l"
  by (simp_all add: listener_items_def listener_inv_def split: option.split)

lemma send_ok:
  assumes "inf_ok kind i" "sending i = Some (x, j # js)" "listener_add x j (processor (shared i)) = Ok p"
  shows "\<exists>l l'. j = 0 \<and> listeners (processor (shared i)) = [l] \<and> p = (processor (shared i))\<lparr>listeners := [l']\<rparr>
    \<and> processor_ok p \<and> listener_notes l' = insert x (listener_notes l)
    \<and> nextResync l' = nextResync l \<and> resyncPeriod l' = resyncPeriod l"
proof -
  obtain l where l: "listeners (processor (shared i)) = [l]" using assms(1) listening_one(1) by (auto simp: inf_ok_def)
  have j: "j = 0" using assms(1,2) by (auto simp: inf_ok_def listening_ok_def)
  have "processor_ok (processor (shared i))" using assms(1) by (simp add: inf_ok_def listening_ok_def)
  from listener_add_ok [OF this, of 0 x] l j assms(3) obtain l' where
    "p = (processor (shared i))\<lparr>listeners := [l']\<rparr>" "listener_receive x l = Ok l'"
    "listener_items l' = listener_items l @ [x]" "processor_ok p" by auto
  with l j listener_frame [of x l l'] show ?thesis by (auto simp: listener_notes_def)
qed

lemma dispatch_ok:
  assumes "inf_ok kind i" "j < length (listeners (processor (shared i)))" "l = listeners (processor (shared i)) ! j"
    "running l = None" "listener_dispatch l = Ok (Some x, l')" "p = (processor (shared i))\<lparr>listeners :=
        (listeners (processor (shared i)))[j := l'\<lparr>running := Some x\<rparr>]\<rparr>"
  shows "j = 0" "listeners (processor (shared i)) = [l]" "p = (processor (shared i))\<lparr>listeners := [l'\<lparr>running := Some x\<rparr>]\<rparr>"
    "processor_ok p" "listener_notes (l'\<lparr>running := Some x\<rparr>) = listener_notes l"
    "nextResync l' = nextResync l" "resyncPeriod l' = resyncPeriod l"
proof -
  obtain l0 where l0: "listeners (processor (shared i)) = [l0]" using assms(1) listening_one(1) by (auto simp: inf_ok_def)
  with assms(2,3) show j: "j = 0" and l: "listeners (processor (shared i)) = [l]" by auto
  with assms(6) show p: "p = (processor (shared i))\<lparr>listeners := [l'\<lparr>running := Some x\<rparr>]\<rparr>" by simp
  have pok: "processor_ok (processor (shared i))" using assms(1) by (simp add: inf_ok_def listening_ok_def)
  with l have "listener_inv l" by (simp add: processor_ok_def)
  from listener.take_ok [OF this] assms(5) have l': "listener_inv l'" "listener_items l' = tl (listener_items l)"
    "Some x = (case listener_items l of [] \<Rightarrow> None | x # xs \<Rightarrow> Some x)" by auto
  then have "listener_items l = x # listener_items l'" by (cases "listener_items l") auto
  then show "listener_notes (l'\<lparr>running := Some x\<rparr>) = listener_notes l"
    using assms(4) by (simp add: listener_notes_def)
  have "listener_inv (l'\<lparr>running := Some x\<rparr>)" using l'(1) by simp
  with pok p l show "processor_ok p" by (simp add: processor_ok_def)
  show "nextResync l' = nextResync l" "resyncPeriod l' = resyncPeriod l" using dispatch_frame [OF assms(5)] by simp_all
qed

lemma determine_frame [simp]:
  "listener_notes (determineNextResync now l) = listener_notes l" "listener_inv (determineNextResync now l) = listener_inv l"
  by (simp_all add: determineNextResync_def listener_notes_def listener_items_def listener_inv_def)

lemma check_ok:
  assumes "inf_ok kind i" "timer i = Some t" "t + resyncCheckPeriod (shared i) \<le> now" "shouldResync now (processor (shared i)) = (b, p)"
  shows "b" "inf_ok kind ((set_processor p i)\<lparr>timer := None, resync_due := b, clock := now\<rparr>)"
    "undelivered ((set_processor p i)\<lparr>timer := None, resync_due := b, clock := now\<rparr>) = undelivered i"
proof -
  from assms(1,2) have s: "single check_period t (processor (shared i))" "resyncCheckPeriod (shared i) = check_period"
    by (simp_all add: inf_ok_def timing_ok_def)
  have "check_period \<noteq> 0" "t + check_period \<le> now" using assms(3) s(2) by (simp_all add: check_period_def second_def)
  note due = single_due [OF s(1) this] single_check [OF s(1) this]
  from due(1) assms(4) obtain l where l: "listeners (processor (shared i)) = [l]" "b"
    "p = (processor (shared i))\<lparr>listeners := [determineNextResync now l], syncingListeners := [0]\<rparr>" by auto
  show "b" by (rule l(2))
  show u: "undelivered ((set_processor p i)\<lparr>timer := None, resync_due := b, clock := now\<rparr>) = undelivered i"
    using l(1,3) by (simp add: undelivered_def)
  have "processor_ok p" using assms(1) l(1,3) by (simp add: inf_ok_def listening_ok_def processor_ok_def)
  with u assms(1,4) due(3) s(2) show "inf_ok kind ((set_processor p i)\<lparr>timer := None, resync_due := b, clock := now\<rparr>)"
    by (simp add: inf_ok_def data_ok_def listening_ok_def timing_ok_def)
qed

lemma undelivered_one:
  "listeners (processor (shared i)) = [l] \<Longrightarrow> undelivered i = sending_notes (sending i) \<union> listener_notes l"
  by (simp add: undelivered_def)

lemma sending_notes_simps [simp]:
  "sending_notes None = {}" "sending_notes (Some (x, [])) = {}" "sending_notes (Some (x, j # js)) = {x}"
  by (simp_all add: sending_notes_def)

text \<open>No step of the informer loses a notification.\<close>

lemma undelivered_step:
  assumes "inf_step (of_kind kind) i i'" "inf_ok kind i"
  shows "undelivered i \<subseteq> undelivered i'"
  using assms(1)
proof (cases rule: inf_step_cases)
  case (check t now b p)
  from check_ok(3) [OF assms(2) check(2,3,5)] check(1) show ?thesis by simp
next
  case (send x j js p)
  from send_ok [OF assms(2) send(2,3)] obtain l l' where
    "listeners (processor (shared i)) = [l]" "p = (processor (shared i))\<lparr>listeners := [l']\<rparr>"
    "listener_notes l' = insert x (listener_notes l)" by blast
  with send show ?thesis by (auto simp: undelivered_def)
next
  case (dispatch j l x l')
  note d = dispatch_ok [OF assms(2) dispatch(2-5) refl]
  from d(2,3,5) dispatch(1) show ?thesis by (simp add: undelivered_def)
qed (auto simp: undelivered_def)

text \<open>A step that leaves the listeners, the timer and the clock alone.\<close>

lemma inf_ok_data:
  assumes "inf_ok kind i" "data_ok kind i'" "processor (shared i') = processor (shared i)" "sending i' = sending i"
    "resyncCheckPeriod (shared i') = resyncCheckPeriod (shared i)" "timer i' = timer i" "clock i' = clock i"
  shows "inf_ok kind i'"
  using assms by (simp add: inf_ok_def listening_ok_def timing_ok_def undelivered_def)

lemma change_ok:
  assumes "inf_ok kind i" "work_left i = d # ds" "sending i = None" "handle_delta d (indexer (shared i)) = Inr ((x, sync), st)"
  shows "inf_ok kind (i\<lparr>shared := (shared i)\<lparr>indexer := st\<rparr>, work_left := ds,
           sending := Some (x, addressees sync (processor (shared i)))\<rparr>)" (is "inf_ok kind ?i")
proof -
  have ok: "data_ok kind i" "listening_ok kind i" "timing_ok i" using assms(1) by (simp_all add: inf_ok_def)
  note g = change_good [OF ok(1) assms(2,4)] and one = listening_one(2) [OF ok(3), of sync]
  have "undelivered ?i \<subseteq> insert x (undelivered i)" using assms(3) one by (simp add: undelivered_def)
  with g ok(2,3) one show ?thesis by (auto simp: inf_ok_def listening_ok_def timing_ok_def)
qed

lemma send_inf_ok:
  assumes "inf_ok kind i" "sending i = Some (x, j # js)" "listener_add x j (processor (shared i)) = Ok p"
  shows "inf_ok kind ((set_processor p i)\<lparr>sending := Some (x, js)\<rparr>)" (is "inf_ok kind ?i")
proof -
  have ok: "data_ok kind i" "listening_ok kind i" "timing_ok i" using assms(1) by (simp_all add: inf_ok_def)
  from send_ok [OF assms] obtain l l' where
    s: "listeners (processor (shared i)) = [l]" "p = (processor (shared i))\<lparr>listeners := [l']\<rparr>" "processor_ok p"
      "listener_notes l' = insert x (listener_notes l)" "nextResync l' = nextResync l" "resyncPeriod l' = resyncPeriod l" by blast
  have "undelivered ?i \<subseteq> undelivered i" using assms(2) s(1,2,4) by (cases js) (auto simp: undelivered_def)
  with s(3) ok(2) assms(2) have "listening_ok kind ?i" by (auto simp: listening_ok_def)
  moreover have "timing_ok ?i" using timing_one [OF ok(3) s(1,5,6)] s(2) by (simp add: timing_ok_def)
  ultimately show ?thesis using ok(1) by (simp add: inf_ok_def data_ok_def)
qed

lemma dispatch_inf_ok:
  assumes "inf_ok kind i" "j < length (listeners (processor (shared i)))" "l = listeners (processor (shared i)) ! j"
    "running l = None" "listener_dispatch l = Ok (Some x, l')"
  shows "inf_ok kind (set_processor
     ((processor (shared i))\<lparr>listeners := (listeners (processor (shared i)))[j := l'\<lparr>running := Some x\<rparr>]\<rparr>) i)" (is "inf_ok kind ?i")
proof -
  have ok: "data_ok kind i" "listening_ok kind i" "timing_ok i" using assms(1) by (simp_all add: inf_ok_def)
  note d = dispatch_ok [OF assms refl]
  have "undelivered ?i = undelivered i" using d(2,3,5) by (simp add: undelivered_def)
  with d(4) ok(2) have "listening_ok kind ?i" by (simp add: listening_ok_def)
  moreover have "timing_ok ?i" using timing_one [OF ok(3) d(2), of "l'\<lparr>running := Some x\<rparr>"] d(3,6,7) by simp
  ultimately show ?thesis using ok(1) by (simp add: inf_ok_def data_ok_def)
qed

lemma inf_ok_step:
  assumes "inf_step (of_kind kind) i i'" "inf_ok kind i"
  shows "inf_ok kind i'"
proof -
  have ok: "data_ok kind i" using assms(2) by (simp add: inf_ok_def)
  from assms(1) show ?thesis
  proof (cases rule: inf_step_cases)
    case (relist objs ord)
    with relist_good [OF ok relist(3,4)] assms(2) show ?thesis by (auto intro: inf_ok_data)
  next
    case (watch obj t)
    with watch_good [OF ok watch(3)] assms(2) show ?thesis by (auto intro: inf_ok_data)
  next
    case (arm now)
    with assms(2) show ?thesis
      by (auto simp: inf_ok_def data_ok_def listening_ok_def timing_ok_def undelivered_def intro: single_mono)
  next
    case (check t now b p)
    with check_ok(2) [OF assms(2) check(2,3,5)] show ?thesis by simp
  next
    case (resync ord)
    with resync_good [OF ok, of ord] show ?thesis by (intro inf_ok_data [OF assms(2)]) (simp_all add: data_ok_def)
  next
    case (pop key ds f)
    with pop_good [OF ok pop(3)] show ?thesis by (intro inf_ok_data [OF assms(2)]) simp_all
  next
    case (give_up d ds err)
    with ok show ?thesis by (intro inf_ok_data [OF assms(2)]) (simp_all add: data_ok_def)
  next
    case (sent x)
    with assms(2) show ?thesis by (simp add: inf_ok_def data_ok_def listening_ok_def timing_ok_def undelivered_def)
  qed (use assms(2) in \<open>simp_all add: change_ok send_inf_ok dispatch_inf_ok\<close>)
qed

lemma clear_ok:
  assumes "inf_ok kind i" "j < length (listeners (processor (shared i)))"
    "running (listeners (processor (shared i)) ! j) = Some x"
  shows "inf_ok kind (clear_running j i)" "undelivered i = insert x (undelivered (clear_running j i))" "good_note kind x"
    "indexer (shared (clear_running j i)) = indexer (shared i)"
proof -
  have ok: "data_ok kind i" "listening_ok kind i" "timing_ok i" using assms(1) by (simp_all add: inf_ok_def)
  obtain l where l: "listeners (processor (shared i)) = [l]" using listening_one(1) [OF ok(3)] by blast
  have j: "j = 0" "running l = Some x" using assms(2,3) l by auto
  let ?l = "l\<lparr>running := None\<rparr>"
  have c: "clear_running j i = set_processor ((processor (shared i))\<lparr>listeners := [?l]\<rparr>) i"
    using l j by (simp add: clear_running_def)
  show u: "undelivered i = insert x (undelivered (clear_running j i))"
    unfolding c using l j by (auto simp: undelivered_def listener_notes_def)
  show g: "good_note kind x" using ok(2) u by (auto simp: listening_ok_def)
  show "indexer (shared (clear_running j i)) = indexer (shared i)" by (simp add: c)
  have "listening_ok kind (clear_running j i)"
    using ok(2) u l unfolding listening_ok_def c by (auto simp: processor_ok_def)
  then show "inf_ok kind (clear_running j i)"
    using ok(1) timing_one [OF ok(3) l, of ?l] by (simp add: c inf_ok_def data_ok_def)
qed

section \<open>No change goes unnoticed\<close>

text \<open>What the handlers compare: the subsets of Endpoints, and any other object as a whole.\<close>

fun content :: "informer \<Rightarrow> k8s_obj option \<Rightarrow> k8s_obj option + EndpointSubset list" where
  "content EndpointsInf (Some (KEndpoints ep)) = Inr (ep_Subsets ep)"
| "content kind v = Inl v"

fun matters :: "informer \<Rightarrow> notification \<Rightarrow> bool" where
  "matters EndpointsInf (updateNotification (KEndpoints oep) (KEndpoints cep)) \<longleftrightarrow> ep_Subsets cep \<noteq> ep_Subsets oep"
| "matters kind x \<longleftrightarrow> True"

definition on_its_way :: "informer \<Rightarrow> running_informer \<Rightarrow> string \<Rightarrow> bool" where
  "on_its_way kind i k \<longleftrightarrow> (\<exists>x \<in> undelivered i. note_key x = k \<and> matters kind x)"

lemma unnoticed:
  assumes "\<not> matters kind x"
  shows "\<exists>old obj. x = updateNotification old obj \<and> content kind (Some old) = content kind (Some obj)"
  using assms by (cases "(kind, x)" rule: matters.cases) auto

lemma indexer_step:
  assumes "inf_step e i i'" "indexer (shared i') \<noteq> indexer (shared i)"
  shows "\<exists>d ds x sync st. work_left i = d # ds \<and> handle_delta d (indexer (shared i)) = Inr ((x, sync), st)
    \<and> i' = i\<lparr>shared := (shared i)\<lparr>indexer := st\<rparr>, work_left := ds, sending := Some (x, addressees sync (processor (shared i)))\<rparr>"
  using assms by (cases rule: inf_step_cases) auto

text \<open>A step of an informer that changes what its store holds of an object announces it.\<close>

lemma change_announced:
  assumes "inf_step (of_kind kind) i i'" "inf_ok kind i"
  shows "on_its_way kind i' k \<or> content kind (map_of (indexer (shared i')) k) = content kind (map_of (indexer (shared i)) k)"
proof (cases "indexer (shared i') = indexer (shared i)")
  case False
  from indexer_step [OF assms(1) False] obtain d ds x sync st where
    c: "work_left i = d # ds" "handle_delta d (indexer (shared i)) = Inr ((x, sync), st)"
      "i' = i\<lparr>shared := (shared i)\<lparr>indexer := st\<rparr>, work_left := ds, sending := Some (x, addressees sync (processor (shared i)))\<rparr>"
    by blast
  from assms(2) c(1) obtain key where d: "delta_ok key d" by (auto simp: inf_ok_def data_ok_def)
  have key: "okey (d_Object d) = key" using d by (simp add: delta_ok_def okey_def)
  have st: "map_of st = (map_of (indexer (shared i)))(key := apply_delta d (map_of (indexer (shared i)) key))"
    by (rule handle_delta_store [OF d c(2)])
  have "x \<in> undelivered i'"
    using c(3) listening_one(2) [of i sync] assms(2) by (simp add: inf_ok_def undelivered_def)
  moreover have "note_key x = key"
    using c(2) key by (auto simp: handle_delta_ok [OF d] split: if_splits option.splits)
  moreover have "content kind (map_of st key) = content kind (map_of (indexer (shared i)) key)" if "\<not> matters kind x"
    using unnoticed [OF that] c(2) by (auto simp: st apply_delta_def handle_delta_ok [OF d] split: if_splits option.splits)
  ultimately show ?thesis using st c(3) by (cases "k = key") (auto simp: on_its_way_def)
qed simp

lemma on_its_way_step:
  "inf_step (of_kind kind) i i' \<Longrightarrow> inf_ok kind i \<Longrightarrow> on_its_way kind i k \<Longrightarrow> on_its_way kind i' k"
  using undelivered_step by (fastforce simp: on_its_way_def)

text \<open>Handing over a notification that matters queues the key of its object.\<close>

lemma named_key:
  assumes "named obj" "okey obj = store_key ns name" "api_name ns" "api_name name"  "ns \<noteq> []"
  shows "obj_meta obj = Some (ns, name)"
proof -
  from assms(1) obtain ns' name' where o: "obj_meta obj = Some (ns', name')" "ns' \<noteq> []" "api_name ns'" "api_name name'"
    by (auto simp: named_def)
  then have "okey obj = meta_key ns' name'"
    by (cases obj) (auto simp: okey_def KeyOf_def MetaNamespaceKeyFunc_def)
  moreover have "store_key ns name = meta_key ns name" using assms(5) by (simp add: store_key_def meta_key_def)
  ultimately have "meta_key ns' name' = meta_key ns name" using assms(2) by (simp only:)
  then have "ns' = ns \<and> name' = name" using meta.mk_inject [OF o(3,4) assms(3,4)] by blast
  with o(1) show ?thesis by simp
qed

lemma obj_key_kind:
  assumes "of_kind kind obj" "obj_meta obj = Some (ns, name)"
  shows "obj_key (kind_name kind) obj = Ok (key_of (kind_name kind) ns name)"
  using assms by (cases kind; cases obj) (simp_all add: obj_key_of is_svc_def is_ep_def is_ing_def)

lemma handler_queues:
  assumes "handler kind qe x c = Ok (Some c')" "good_note kind x" "matters kind x" "note_key x = store_key ns name"
    "api_name ns" "api_name name" "ns \<noteq> []"
  shows "enqueue qe (key_of (kind_name kind) ns name) c = Ok (Some c')"
proof -
  have key: "obj_key (kind_name kind) obj = Ok (key_of (kind_name kind) ns name)"
    if "good kind obj" "okey obj = store_key ns name" for obj
    using that named_key [OF _ that(2) assms(5-7)] by (intro obj_key_kind) (auto simp: good_def)
  have alive: "good kind obj" if "x = deleteNotification obj" for obj
  proof (rule ccontr)
    assume "\<not> good kind obj"
    with assms(2) that obtain k o' where "obj = DeletedFinalStateUnknown k o'" "of_kind kind o'"
      by (auto simp: good_obj_def good_def)
    with assms(1) that show False
      by (cases kind) (auto simp: ep_DeleteFunc_def svc_DeleteFunc_def ing_DeleteFunc_def on_delete_def tombstone_of_def
          is_ep_def is_svc_def is_ing_def)
  qed
  note defs = ep_AddFunc_def ep_UpdateFunc_def ep_DeleteFunc_def svc_AddFunc_def svc_UpdateFunc_def svc_DeleteFunc_def
    ing_AddFunc_def ing_UpdateFunc_def ing_DeleteFunc_def on_add_def on_delete_def
  show ?thesis
  proof (cases x)
    case (addNotification obj)
    with assms(1,2,4) key [of obj] show ?thesis
      by (cases kind) (auto simp: defs good_def split: if_splits)
  next
    case (updateNotification old obj)
    with assms(1-4) key [of obj] show ?thesis
      by (cases kind; cases old; cases obj) (auto simp: defs good_def split: if_splits)
  next
    case (deleteNotification obj)
    note a = alive [OF this]
    with deleteNotification assms(1,4) key [OF a] show ?thesis
      by (cases kind) (auto simp: defs good_def split: if_splits)
  qed
qed

section \<open>The queues between informers and workers\<close>

definition pend :: "'w AviController \<Rightarrow> nat \<Rightarrow> iface set" where
  "pend c i = pending (workqueue c ! i)"

text \<open>The items that belong on a queue.\<close>

definition bucket :: "uint32 \<Rightarrow> nat \<Rightarrow> iface set" where
  "bucket num i = {IStr key | key. unat (Bkt key num) = i}"

text \<open>
  A change of the controller that takes no item off a queue: while a queue is not shut down, it
  keeps what is pending and gets only what belongs on it.
\<close>

definition calm :: "uint32 \<Rightarrow> 'w AviController \<Rightarrow> 'w AviController \<Rightarrow> bool" where
  "calm num c c' \<longleftrightarrow> (\<forall>i < unat num. live c' i \<longrightarrow>
     live c i \<and> pend c i \<subseteq> pend c' i \<and> pend c' i \<subseteq> pend c i \<union> bucket num i)"

lemma calmD:
  assumes "calm num c c'" "i < unat num" "live c' i"
  shows "live c i" "pend c i \<subseteq> pend c' i" "pend c' i \<subseteq> pend c i \<union> bucket num i"
  using assms by (auto simp: calm_def)

lemma calm_same: "workqueue c' = workqueue c \<Longrightarrow> calm num c c'"
  by (simp add: calm_def live_def pend_def)

lemma calm_trans: "calm num c c1 \<Longrightarrow> calm num c1 c2 \<Longrightarrow> calm num c c2"
  unfolding calm_def by blast

definition same_flags :: "'a delayingType \<Rightarrow> 'a delayingType \<Rightarrow> bool" where
  "same_flags q q' \<longleftrightarrow> shuttingDown (dq_queue q') = shuttingDown (dq_queue q) \<and> stopCh_closed q' = stopCh_closed q"

lemma Add_shuttingDown [simp]: "shuttingDown (Add x q) = shuttingDown q"
  by (simp add: Add_def Let_def)

lemma AddRateLimited_flags: "AddRateLimited stop now b x q = Some q' \<Longrightarrow> same_flags q q'"
  by (auto simp: AddRateLimited_def AddAfter_def same_flags_def split: prod.splits if_splits)

lemma add_ready_flags: "same_flags q (add_ready now q)"
proof -
  have "same_flags q (add_ready_loop k now q)" for k
    by (induction k now q rule: add_ready_loop.induct) (auto simp: Let_def same_flags_def split: prod.splits)
  then show ?thesis by (simp add: add_ready_def same_flags_def)
qed

lemma receive_flags: "same_flags q (receive now q)"
  by (auto simp: receive_def receive_entry_def same_flags_def split: list.split prod.split)

lemma live_set_queue:
  "j < length (workqueue c) \<Longrightarrow> same_flags (workqueue c ! j) q \<Longrightarrow> live (set_queue j q c) i = live c i"
  by (cases "i = j") (auto simp: live_def same_flags_def)

lemma pend_set_queue: "j < length (workqueue c) \<Longrightarrow> pend (set_queue j q c) i = (if i = j then pending q else pend c i)"
  by (simp add: pend_def)

lemma calm_set_queue:
  assumes "j < length (workqueue c)" "same_flags (workqueue c ! j) q"
    "live c j \<Longrightarrow> pending (workqueue c ! j) \<subseteq> pending q \<and> pending q \<subseteq> pending (workqueue c ! j) \<union> bucket num j"
  shows "calm num c (set_queue j q c)"
  using assms by (auto simp: calm_def live_set_queue pend_set_queue) (auto simp: pend_def)

lemma enqueue_pend:
  assumes "enqueue qe key c = Ok (Some c')" "num_workers c = num" "live c (unat (Bkt key num))"
  shows "pend c' (unat (Bkt key num)) = insert (IStr key) (pend c (unat (Bkt key num)))"
proof -
  from enqueue_queue [OF assms(1)] obtain q' where q: "unat (Bkt key num) < length (workqueue c)"
    "AddRateLimited (qe_stop qe) (qe_now qe) (qe_bucket qe) (IStr key) (workqueue c ! unat (Bkt key num)) = Some q'"
    "c' = set_queue (unat (Bkt key num)) q' c" using assms(2) by blast
  from AddRateLimited_pending(1) [OF q(2)] assms(3) q(1,3) show ?thesis by (simp add: live_def pend_def)
qed

lemma enqueue_calm:
  assumes "enqueue qe key c = Ok (Some c')" "num_workers c = num"
  shows "calm num c c'"
proof -
  let ?i = "unat (Bkt key num)"
  from enqueue_queue [OF assms(1)] obtain q' where q: "?i < length (workqueue c)"
    "AddRateLimited (qe_stop qe) (qe_now qe) (qe_bucket qe) (IStr key) (workqueue c ! ?i) = Some q'"
    "c' = set_queue ?i q' c" using assms(2) by blast
  show ?thesis
    unfolding q(3)
    by (rule calm_set_queue [OF q(1) AddRateLimited_flags [OF q(2)]])
      (use AddRateLimited_pending(1) [OF q(2)] in \<open>auto simp: live_def bucket_def\<close>)
qed

lemma event_calm: "informer_event c c' \<Longrightarrow> num_workers c = num \<Longrightarrow> calm num c c'"
  using informer_event_cases [of c c'] by (auto intro: enqueue_calm calm_same)

lemma shutdown_calm: "shutdown_queues js c = Ok c' \<Longrightarrow> calm num c c'"
proof (induction js c rule: shutdown_queues.induct)
  case (2 j js c)
  from "2.prems" obtain q' where q: "j < length (workqueue c)" "dq_ShutDown (workqueue c ! j) = Ok q'"
    "shutdown_queues js (set_queue j q' c) = Ok c'" by (auto simp: go_index_eq_Ok)
  have "\<not> live (set_queue j q' c) j" using q(1,2) by (auto simp: live_def dq_ShutDown_def split: if_splits)
  moreover have "live (set_queue j q' c) i = live c i" "pend (set_queue j q' c) i = pend c i" if "i \<noteq> j" for i
    using that by (simp_all add: live_def pend_def)
  ultimately have "calm num c (set_queue j q' c)" unfolding calm_def by (metis Un_upper1 subset_refl)
  with "2.IH" [OF q(3)] show ?case by (auto intro: calm_trans)
qed (simp add: calm_same)

lemma other_calm:
  assumes "sys_step s s'" "sys_ok num s" "\<forall>g. busy_with (workers s' g) = busy_with (workers s g)"
  shows "calm num (ctl s) (ctl s')"
proof -
  have c: "ctl_ok num (ctl s)" by (rule sys_okD(1) [OF assms(2)])
  then have n: "num_workers (ctl s) = num" by (simp add: ctl_ok_def)
  have q: "dq_inv (workqueue (ctl s) ! j)" if "j < length (workqueue (ctl s))" for j using c that by (simp add: ctl_ok_def)
  from assms(1) show ?thesis
  proof cases
    case (take g wid obj c' env)
    with assms(3) [rule_format, of g] show ?thesis by (simp add: busy_with_def)
  next
    case (finish g wid obj err qe c')
    with assms(3) [rule_format, of g] show ?thesis by (simp add: busy_with_def)
  next
    case (leave g wid c')
    then have "c' = ctl s" by (auto simp: take_item_def split: option.splits prod.splits)
    with leave show ?thesis by (simp add: calm_same)
  next
    case (event c')
    with n show ?thesis by (simp add: event_calm)
  next
    case (ready j q' now)
    then show ?thesis
      using add_ready_pending [OF q] by (auto simp: live_def intro: calm_set_queue add_ready_flags)
  next
    case (recv j q' now)
    then show ?thesis
      using receive_pending [OF q] by (auto simp: live_def intro: calm_set_queue receive_flags)
  next
    case (stop c')
    then show ?thesis by (auto simp: Run_exit_def intro: shutdown_calm)
  qed (simp_all add: calm_same)
qed

text \<open>Taking an item off a queue and finishing it.\<close>

lemma take_pend:
  assumes "take_item wid c = Ok (Work obj, c')" "ctl_ok num c"
  shows "live c' i = live c i" "pend c i \<subseteq> (if i = unat wid then insert obj (pend c' i) else pend c' i)" "pend c' i \<subseteq> pend c i"
    "obj \<in> pend c (unat wid)"
proof -
  from assms(1) obtain q q' where q: "unat wid < length (workqueue c)" "q = workqueue c ! unat wid"
    "Get (dq_queue q) = Some (Some obj, q')" "c' = set_queue (unat wid) (q\<lparr>dq_queue := q'\<rparr>) c"
    by (auto simp: take_item_def go_index_eq_Ok split: option.splits prod.splits)
  have inv: "q_inv (dq_queue q)" using assms(2) q(1,2) by (simp add: ctl_ok_def dq_inv_def)
  have f: "same_flags q (q\<lparr>dq_queue := q'\<rparr>)"
    using q(3) by (auto simp: same_flags_def Get_def Let_def split: list.splits if_splits)
  have d: "obj \<in> dirty (dq_queue q)" "dirty q' = dirty (dq_queue q) - {obj}"
    using wq.get_itemD(1,2) [OF q(3)] inv by (auto simp: q_inv_def)
  show "live c' i = live c i" unfolding q(4) using f q(1,2) by (simp add: live_set_queue)
  show "pend c i \<subseteq> (if i = unat wid then insert obj (pend c' i) else pend c' i)" "pend c' i \<subseteq> pend c i"
    using q(1,2) d(2) unfolding q(4) pend_set_queue [OF q(1)] by (auto simp: pending_def pend_def)
  show "obj \<in> pend c (unat wid)" using d(1) q(2) by (simp add: pend_def pending_def)
qed

lemma finish_pend:
  assumes "finish_item qe wid obj err c = Ok (Some c')"
  shows "live c' i = live c i"
    "live c i \<Longrightarrow> pend c' i = (if i = unat wid \<and> \<not> settled err then insert obj (pend c i) else pend c i)"
proof -
  let ?q = "workqueue c ! unat wid"
  have i: "unat wid < length (workqueue c)" using assms by (auto simp: finish_item_def go_index_eq_Ok)
  obtain q1 where q1: "c' = set_queue (unat wid) (dq_Done obj q1) c" "same_flags ?q q1"
    "\<not> shuttingDown (dq_queue ?q) \<Longrightarrow> \<not> stopCh_closed ?q \<Longrightarrow> pending q1 = (if settled err then pending ?q else insert obj (pending ?q))"
  proof (cases "settled err")
    case True
    then have "c' = set_queue (unat wid) (dq_Done obj (Forget obj ?q)) c"
      using assms i by (auto simp: finish_item_def go_index_def settled_def)
    moreover have "same_flags ?q (Forget obj ?q)" by (simp add: same_flags_def Forget_def)
    ultimately show ?thesis using True by (intro that [of "Forget obj ?q"]) (simp_all add: Forget_facts)
  next
    case False
    from finish_item_unsettled [OF assms False] obtain q1 where
      "c' = set_queue (unat wid) (dq_Done obj q1) c" "AddRateLimited (qe_stop qe) (qe_now qe) (qe_bucket qe) obj ?q = Some q1" by blast
    with False that [of q1] AddRateLimited_flags [of _ _ _ obj ?q q1] AddRateLimited_pending(1) [of _ _ _ obj ?q q1]
    show ?thesis by simp
  qed
  have f: "same_flags ?q (dq_Done obj q1)"
    using q1(2) by (simp add: same_flags_def dq_Done_def Done_def Let_def)
  show "live c' i = live c i" unfolding q1(1) by (rule live_set_queue [OF i f])
  show "pend c' i = (if i = unat wid \<and> \<not> settled err then insert obj (pend c i) else pend c i)" if "live c i"
  proof (cases "i = unat wid")
    case True
    then have "pending q1 = (if settled err then pend c i else insert obj (pend c i))"
      using that q1(3) by (simp add: live_def pend_def)
    with True show ?thesis unfolding q1(1) pend_set_queue [OF i] by (simp add: dq_Done_facts)
  qed (simp add: q1(1) pend_set_queue [OF i])
qed

section \<open>Nothing in the stores is forgotten\<close>

definition plain_names :: "string \<Rightarrow> string \<Rightarrow> bool" where
  "plain_names ns name \<longleftrightarrow> ns \<noteq> [] \<and> api_name ns \<and> api_name name"

definition key_item :: "informer \<Rightarrow> string \<Rightarrow> string \<Rightarrow> iface" where
  "key_item kind ns name = IStr (key_of (kind_name kind) ns name)"

definition home :: "uint32 \<Rightarrow> informer \<Rightarrow> string \<Rightarrow> string \<Rightarrow> nat" where
  "home num kind ns name = unat (Bkt (key_of (kind_name kind) ns name) num)"

text \<open>
  The value \<open>v\<close> of an entry is seen when the goroutine that works on its key has read it, or has
  not looked yet, or, when none does, when the last handler that settled the key has read it.
\<close>

definition seen ::
  "(nat \<Rightarrow> 'w worker) \<Rightarrow> (nat \<Rightarrow> snapshot option) \<Rightarrow> snapshot \<Rightarrow> uint32 \<Rightarrow> iface \<Rightarrow> informer \<Rightarrow> string \<Rightarrow> k8s_obj option \<Rightarrow> bool" where
  "seen ws r h wid x kind k v \<longleftrightarrow>
     (\<exists>g p. ws g = Busy wid x p \<and> (\<forall>snap. r g = Some snap \<longrightarrow> content kind (snap kind k) = content kind v))
     \<or> (\<forall>g p. ws g \<noteq> Busy wid x p) \<and> content kind (h kind k) = content kind v"

definition attended :: "uint32 \<Rightarrow> 'w World \<Rightarrow> informer \<Rightarrow> string \<Rightarrow> string \<Rightarrow> bool" where
  "attended num w kind ns name \<longleftrightarrow>
     on_its_way kind (informers w kind) (store_key ns name)
     \<or> key_item kind ns name \<in> pend (ctl (sys w)) (home num kind ns name)
     \<or> seen (workers (sys w)) (reading w) (handled w) (of_nat (home num kind ns name)) (key_item kind ns name)
          kind (store_key ns name) (stored (informers w) kind (store_key ns name))"

lemma busy_with_iff: "w = Busy wid x p \<longleftrightarrow> busy_with w = Some (wid, x, p)"
  by (cases w) (auto simp: busy_with_def)

lemma seen_calm:
  "\<forall>g. busy_with (ws' g) = busy_with (ws g) \<Longrightarrow> seen ws' r h wid x kind k v = seen ws r h wid x kind k v"
  by (simp add: seen_def busy_with_iff)

lemma seen_content: "content kind v' = content kind v \<Longrightarrow> seen ws r h wid x kind k v' = seen ws r h wid x kind k v"
  by (simp add: seen_def)

lemma seen_take: "seen (ws(g := Busy wid x p)) (r(g := None)) h wid x kind k v"
  unfolding seen_def by (rule disjI1) (rule exI [of _ g], simp)

lemma seen_other:
  assumes "seen ws r h wid x kind k v" "\<And>p. ws g \<noteq> Busy wid x p" "\<And>p. w \<noteq> Busy wid x p" "h' kind k = h kind k"
  shows "seen (ws(g := w)) (r(g := y)) h' wid x kind k v"
  using assms unfolding seen_def by (metis fun_upd_other fun_upd_same)

lemma seen_handle:
  assumes "seen ws r h wid x kind k (st kind k)" "ws g = Busy wid' y p"
  shows "seen (ws(g := Busy wid' y p')) (r(g := Some (case r g of None \<Rightarrow> st | Some snap \<Rightarrow> snap))) h wid x kind k (st kind k)"
proof (cases "wid' = wid \<and> y = x")
  case True
  let ?ws = "ws(g := Busy wid' y p')" and ?r = "r(g := Some (case r g of None \<Rightarrow> st | Some snap \<Rightarrow> snap))"
  from assms(1) True assms(2) obtain g' q where g': "ws g' = Busy wid x q"
    "\<forall>snap. r g' = Some snap \<longrightarrow> content kind (snap kind k) = content kind (st kind k)" unfolding seen_def by blast
  have "\<exists>p. ?ws g' = Busy wid x p" using g'(1) True by (cases "g' = g") auto
  moreover have "\<forall>snap. ?r g' = Some snap \<longrightarrow> content kind (snap kind k) = content kind (st kind k)"
    using g'(2) by (cases "g' = g") (auto split: option.splits)
  ultimately show ?thesis unfolding seen_def by blast
next
  case False
  with assms show ?thesis by (intro seen_other) auto
qed

lemma seen_finish:
  assumes "seen ws r h wid x kind k v" "ws g = Busy wid x p" "\<And>g' p. ws g' = Busy wid x p \<Longrightarrow> g' = g"
    "r g = Some snap" "h' kind k = snap kind k"
  shows "seen (ws(g := Serving wid)) r h' wid x kind k v"
proof -
  from assms(1,2) obtain g' q where "ws g' = Busy wid x q" "\<forall>snap. r g' = Some snap \<longrightarrow> content kind (snap kind k) = content kind v"
    unfolding seen_def by blast
  with assms(3,4) have "content kind (snap kind k) = content kind v" by blast
  moreover have "(ws(g := Serving wid)) g' \<noteq> Busy wid x p" for g' p using assms(3) [of g' p] by auto
  ultimately show ?thesis using assms(5) unfolding seen_def by simp
qed

text \<open>A goroutine that has not looked its object up has the whole handler before it.\<close>

definition fresh :: "'w World \<Rightarrow> bool" where
  "fresh w \<longleftrightarrow> (\<forall>g wid obj p. workers (sys w) g = Busy wid obj p \<and> reading w g = None \<longrightarrow> (\<exists>env. p = item_prog env wid obj))"

text \<open>No queue is shut down.\<close>

definition in_service :: "uint32 \<Rightarrow> 'w AviController \<Rightarrow> bool" where
  "in_service num c \<longleftrightarrow> (\<forall>i < unat num. live c i)"

definition housed :: "uint32 \<Rightarrow> 'w Sys \<Rightarrow> bool" where
  "housed num s \<longleftrightarrow> (in_service num (ctl s) \<longrightarrow> (\<forall>i < unat num. pend (ctl s) i \<subseteq> bucket num i
     \<and> (\<forall>g obj p. workers s g = Busy (of_nat i) obj p \<longrightarrow> obj \<in> bucket num i)))"

definition world_ok :: "uint32 \<Rightarrow> 'w World \<Rightarrow> bool" where
  "world_ok num w \<longleftrightarrow> sys_ok num (sys w) \<and> (\<forall>kind. inf_ok kind (informers w kind))
     \<and> stores (sys w) = stores_of (stored (informers w)) \<and> fresh w \<and> housed num (sys w)
     \<and> (in_service num (ctl (sys w)) \<longrightarrow> (\<forall>kind ns name. plain_names ns name \<longrightarrow> attended num w kind ns name))"

lemma sync_prog_reads:
  assumes "plain_names ns name"
  shows "\<exists>r. item_prog env wid (key_item kind ns name) = bind_prog (reads (\<lambda>s. lookup_obj (snd s) (kind_name kind) ns name)) r"
proof -
  have n: "api_name (kind_name kind)" by (cases kind) (simp_all add: api_name_def)
  show ?thesis
    using assms unfolding item_prog_def key_item_def iface.case sync_prog_def
    by (auto simp: plain_names_def SplitN_key_of [OF n] meta.split_mk)
qed

lemma item_prog_not_returned: "plain_names ns name \<Longrightarrow> Return err \<noteq> item_prog env wid (key_item kind ns name)"
  using sync_prog_reads [of ns name env wid kind] by (auto simp: reads_def act_def)

lemma fresh_not_returned:
  assumes "fresh w" "plain_names ns name" "workers (sys w) g = Busy wid (key_item kind ns name) (Return err)"
  shows "\<exists>snap. reading w g = Some snap"
proof (rule ccontr)
  assume "\<not> ?thesis"
  then have "reading w g = None" by (cases "reading w g") auto
  from assms(1) [unfolded fresh_def, rule_format, OF conjI [OF assms(3) this]] show False
    using item_prog_not_returned [OF assms(2)] by auto
qed

lemma home_bound: "0 < num \<Longrightarrow> home num kind ns name < unat num"
  by (simp add: home_def Bkt_bound)

lemma key_item_bucket: "key_item kind ns name \<in> bucket num i \<longleftrightarrow> home num kind ns name = i"
  by (auto simp: key_item_def bucket_def home_def)

lemma record_handled_at:
  assumes "plain_names ns name"
  shows "record_handled obj r h kind (store_key ns name) =
    (case r of Some snap \<Rightarrow> if obj = key_item kind ns name then snap kind (store_key ns name) else h kind (store_key ns name)
     | None \<Rightarrow> h kind (store_key ns name))"
proof -
  have "store_key ns name = meta_key ns name" using assms by (simp add: plain_names_def store_key_def meta_key_def)
  then have "SplitMetaNamespaceKey (store_key ns name) = Inr (ns, name)"
    using assms meta.split_mk by (simp add: plain_names_def)
  then show ?thesis by (simp add: record_handled_def key_item_def split: option.split)
qed

subsection \<open>Every step keeps it\<close>

lemma world_okD:
  assumes "world_ok num w"
  shows "sys_ok num (sys w)" "ctl_ok num (ctl (sys w))" "\<And>kind. inf_ok kind (informers w kind)"
    "stores (sys w) = stores_of (stored (informers w))" "fresh w" "housed num (sys w)"
    "\<And>kind ns name. in_service num (ctl (sys w)) \<Longrightarrow> plain_names ns name \<Longrightarrow> attended num w kind ns name"
  using assms sys_okD(1) by (auto simp: world_ok_def)

lemma housedD:
  assumes "housed num s" "in_service num (ctl s)" "i < unat num"
  shows "pend (ctl s) i \<subseteq> bucket num i" "workers s g = Busy (of_nat i) obj p \<Longrightarrow> obj \<in> bucket num i"
  using assms unfolding housed_def by blast+

lemma service_calm: "calm num c c' \<Longrightarrow> in_service num c' \<Longrightarrow> in_service num c"
  by (simp add: in_service_def calm_def)

lemma serviceD: "in_service num c \<Longrightarrow> i < unat num \<Longrightarrow> live c i"
  by (simp add: in_service_def)

lemma unat_index: "i < unat (num :: uint32) \<Longrightarrow> unat (of_nat i :: uint32) = i"
  by (simp add: le_unat_uoi [of i num])

lemma wid_index: "unat wid = i \<Longrightarrow> (of_nat i :: uint32) = wid"
  by auto

lemma housed_calm:
  assumes "housed num s" "calm num (ctl s) (ctl s')" "\<forall>g. busy_with (workers s' g) = busy_with (workers s g)"
  shows "housed num s'"
  unfolding housed_def
proof (intro allI impI)
  fix i assume i: "in_service num (ctl s')" "i < unat num"
  note c = calmD [OF assms(2) i(2) serviceD [OF i]]
  from housedD [OF assms(1) service_calm [OF assms(2) i(1)] i(2)] c(3) assms(3) show
    "pend (ctl s') i \<subseteq> bucket num i \<and> (\<forall>g obj p. workers s' g = Busy (of_nat i) obj p \<longrightarrow> obj \<in> bucket num i)"
    by (auto simp: busy_with_iff)
qed

lemma ok_other:
  assumes "world_ok num w" "0 < num" "sys_step (sys w) s" "stores s = stores (sys w)"
    "\<forall>g. busy_with (workers s g) = busy_with (workers (sys w) g)"
  shows "world_ok num (w\<lparr>sys := s\<rparr>)"
proof -
  note ok = world_okD [OF assms(1)]
  have c: "calm num (ctl (sys w)) (ctl s)" by (rule other_calm [OF assms(3) ok(1) assms(5)])
  have "attended num (w\<lparr>sys := s\<rparr>) kind ns name" if n: "in_service num (ctl s)" "plain_names ns name" for kind ns name
  proof -
    note b = home_bound [OF assms(2), of kind ns name]
    from calmD(2) [OF c b serviceD [OF n(1) b]] ok(7) [OF service_calm [OF c n(1)] n(2), of kind] show ?thesis
      unfolding attended_def by (auto simp: seen_calm [OF assms(5)])
  qed
  moreover have "housed num s" by (rule housed_calm [OF ok(6) c assms(5)])
  moreover have "fresh (w\<lparr>sys := s\<rparr>)" using ok(5) assms(5) by (simp add: fresh_def busy_with_iff)
  ultimately show ?thesis using ok(1,3,4) assms(3,4) sys_ok_step by (simp add: world_ok_def)
qed

lemma ok_inform:
  assumes "world_ok num w" "inf_step (of_kind kind) (informers w kind) i" "is' = (informers w)(kind := i)"
  shows "world_ok num (w\<lparr>informers := is', sys := (sys w)\<lparr>stores := stores_of (stored is')\<rparr>\<rparr>)" (is "world_ok num ?w")
proof -
  note ok = world_okD [OF assms(1)]
  have "attended num ?w k ns name" if n: "in_service num (ctl (sys w))" "plain_names ns name" for k ns name
  proof (cases "k = kind")
    case True
    let ?k = "store_key ns name"
    have i: "is' kind = i" using assms(3) by simp
    have "on_its_way kind i ?k \<or> content kind (stored is' kind ?k) = content kind (stored (informers w) kind ?k)"
      using change_announced [OF assms(2) ok(3), of ?k] i by (simp add: stored_def)
    then have s: "on_its_way kind i ?k \<or> seen (workers (sys w)) (reading w) (handled w) wid x kind ?k (stored is' kind ?k)
        = seen (workers (sys w)) (reading w) (handled w) wid x kind ?k (stored (informers w) kind ?k)" for wid x
      using seen_content by blast
    from ok(7) [OF n, unfolded attended_def] on_its_way_step [OF assms(2) ok(3), of ?k] s show ?thesis
      unfolding attended_def True by (simp add: i) blast
  next
    case False
    then have "is' k = informers w k" "stored is' k = stored (informers w) k" using assms(3) by (simp_all add: stored_def)
    with ok(7) [OF n] show ?thesis by (simp add: attended_def)
  qed
  moreover have "sys_ok num (sys ?w)" using ok(1) by (simp add: sys_ok_frame)
  moreover have "fresh ?w" "housed num (sys ?w)" using ok(5,6) by (simp_all add: fresh_def housed_def)
  ultimately show ?thesis using ok(3) inf_ok_step [OF assms(2) ok(3)] assms(3) by (simp add: world_ok_def)
qed

lemma ok_deliver:
  assumes "world_ok num w" "0 < num" "j < length (listeners (processor (shared (informers w kind))))"
    "running (listeners (processor (shared (informers w kind))) ! j) = Some x" "handler kind qe x (ctl (sys w)) = Ok (Some c)"
  shows "world_ok num (w\<lparr>informers := (informers w)(kind := clear_running j (informers w kind)), sys := (sys w)\<lparr>ctl := c\<rparr>\<rparr>)" (is "world_ok num ?w")
proof -
  note ok = world_okD [OF assms(1)]
  note cl = clear_ok [OF ok(3) assms(3,4)]
  have e: "informer_event (ctl (sys w)) c" by (rule handler_event [OF assms(5)])
  have num: "num_workers (ctl (sys w)) = num" using ok(2) by (simp add: ctl_ok_def)
  have c: "calm num (ctl (sys w)) c" by (rule event_calm [OF e num])
  have st: "stored (informers ?w) = stored (informers w)" using cl(4) by (auto simp: stored_def fun_eq_iff)
  have "attended num ?w k ns name" if n: "in_service num c" "plain_names ns name" for k ns name
  proof -
    note b = home_bound [OF assms(2), of k ns name]
    note l = calmD [OF c b serviceD [OF n(1) b]]
    have "on_its_way k (informers ?w k) (store_key ns name) \<or> key_item k ns name \<in> pend c (home num k ns name)"
      if o: "on_its_way k (informers w k) (store_key ns name)"
    proof (cases "k = kind \<and> note_key x = store_key ns name \<and> matters kind x")
      case True
      have "enqueue qe (key_of (kind_name k) ns name) (ctl (sys w)) = Ok (Some c)"
        by (rule handler_queues [of k qe x]) (use True assms(5) cl(3) n(2) in \<open>simp_all add: plain_names_def\<close>)
      from enqueue_pend [OF this num] l(1) show ?thesis by (simp add: home_def key_item_def)
    next
      case False
      with o cl(2) show ?thesis by (auto simp: on_its_way_def)
    qed
    with ok(7) [OF service_calm [OF c n(1)] n(2), of k] l(2) st show ?thesis by (auto simp: attended_def)
  qed
  moreover have "sys_ok num (sys ?w)" using step_event [OF e ok(1)] by simp
  moreover have "housed num (sys ?w)" by (rule housed_calm [OF ok(6)]) (use c in simp_all)
  moreover have "fresh ?w" using ok(5) by (simp add: fresh_def)
  moreover have "stores (sys ?w) = stores_of (stored (informers ?w))" unfolding st using ok(4) by simp
  ultimately show ?thesis using ok(3) cl(1) by (simp add: world_ok_def)
qed

lemma ok_take:
  assumes "world_ok num w" "0 < num" "workers (sys w) g = Serving wid" "take_item wid (ctl (sys w)) = Ok (Work obj, c)"
  shows "world_ok num (w\<lparr>sys := (sys w)\<lparr>ctl := c, workers := (workers (sys w))(g := Busy wid obj (item_prog env wid obj))\<rparr>,
                          reading := (reading w)(g := None)\<rparr>)" (is "world_ok num ?w")
proof -
  note ok = world_okD [OF assms(1)]
  note t = take_pend [OF assms(4) ok(2)]
  have wid: "unat wid < unat num" by (rule take_item_work(1) [OF assms(4) ok(2)])
  have sv: "in_service num c = in_service num (ctl (sys w))" using t(1) by (simp add: in_service_def)
  have obj: "obj \<in> bucket num (unat wid)" if "in_service num (ctl (sys w))"
    using housedD(1) [OF ok(6) that wid] t(4) by blast
  have "attended num ?w kind ns name" if n: "in_service num (ctl (sys w))" "plain_names ns name" for kind ns name
  proof -
    let ?i = "home num kind ns name" and ?x = "key_item kind ns name"
    show ?thesis
    proof (cases "obj = ?x")
      case True
      then have "of_nat ?i = wid" using obj [OF n(1)] by (intro wid_index) (simp add: key_item_bucket)
      with True seen_take [of "workers (sys w)" g wid ?x _ "reading w"] show ?thesis by (simp add: attended_def)
    next
      case False
      have "?x \<in> pend c ?i" if "?x \<in> pend (ctl (sys w)) ?i" using t(2) [of ?i] that False by (auto split: if_splits)
      moreover have "seen (workers (sys ?w)) (reading ?w) (handled ?w) (of_nat ?i) ?x kind k v"
        if "seen (workers (sys w)) (reading w) (handled w) (of_nat ?i) ?x kind k v" for k v
        using seen_other [OF that, of g "Busy wid obj (item_prog env wid obj)" "handled w" None] assms(3) False by simp
      ultimately show ?thesis using ok(7) [OF n] by (auto simp: attended_def)
    qed
  qed
  moreover have "housed num (sys ?w)"
    unfolding housed_def
  proof (intro allI impI)
    fix i assume i: "in_service num (ctl (sys ?w))" "i < unat num"
    then have l: "in_service num (ctl (sys w))" using sv by simp
    have "obj \<in> bucket num i" if "wid = of_nat i" using obj [OF l] that unat_index [OF i(2)] by simp
    with housedD [OF ok(6) l i(2)] t(3) [of i] show
      "pend (ctl (sys ?w)) i \<subseteq> bucket num i \<and> (\<forall>g obj p. workers (sys ?w) g = Busy (of_nat i) obj p \<longrightarrow> obj \<in> bucket num i)"
      by (auto split: if_splits)
  qed
  moreover have "fresh ?w" using ok(5) by (auto simp: fresh_def)
  moreover have "sys_ok num (sys ?w)" using step_take [OF assms(3,4) ok(1)] by simp
  ultimately show ?thesis using ok(3,4) sv by (simp add: world_ok_def)
qed

lemma ok_handle:
  assumes "world_ok num w" "workers (sys w) g = Busy wid obj p"
    "prog_step (p, k8s (ctl (sys w)), stores (sys w)) (p', st', stores (sys w))"
  shows "world_ok num (w\<lparr>sys := (sys w)\<lparr>ctl := (ctl (sys w))\<lparr>k8s := st'\<rparr>, workers := (workers (sys w))(g := Busy wid obj p')\<rparr>,
            reading := (reading w)(g := Some (case reading w g of None \<Rightarrow> stored (informers w) | Some snap \<Rightarrow> snap))\<rparr>)"
    (is "world_ok num ?w")
proof -
  note ok = world_okD [OF assms(1)]
  have f: "live (ctl (sys ?w)) i = live (ctl (sys w)) i" "pend (ctl (sys ?w)) i = pend (ctl (sys w)) i" for i
    by (simp_all add: live_def pend_def)
  then have sv: "in_service num (ctl (sys ?w)) = in_service num (ctl (sys w))" by (simp add: in_service_def)
  have "attended num ?w kind ns name" if n: "in_service num (ctl (sys w))" "plain_names ns name" for kind ns name
    using ok(7) [OF n, of kind] seen_handle [where ws = "workers (sys w)" and st = "stored (informers w)", OF _ assms(2)]
    unfolding attended_def f by simp blast
  moreover have "housed num (sys ?w)"
    unfolding housed_def sv f
  proof (intro allI impI)
    fix i assume "in_service num (ctl (sys w))" "i < unat num"
    from housedD [OF ok(6) this] assms(2) show
      "pend (ctl (sys w)) i \<subseteq> bucket num i \<and> (\<forall>g obj p. workers (sys ?w) g = Busy (of_nat i) obj p \<longrightarrow> obj \<in> bucket num i)"
      by (auto split: if_splits)
  qed
  moreover have "fresh ?w" using ok(5) by (auto simp: fresh_def)
  moreover have "sys_ok num (sys ?w)" using step_handle [OF assms(2,3) ok(1)] by simp
  ultimately show ?thesis using ok(3,4) sv by (simp add: world_ok_def)
qed

lemma attended_finish:
  assumes "world_ok num w" "0 < num" "workers (sys w) g = Busy wid obj (Return err)"
    "finish_item qe wid obj err (ctl (sys w)) = Ok (Some c)" "in_service num (ctl (sys w))" "plain_names ns name"
    "obj \<in> bucket num (unat wid)"
  shows "attended num (w\<lparr>sys := (sys w)\<lparr>ctl := c, workers := (workers (sys w))(g := Serving wid)\<rparr>,
            handled := (if settled err then record_handled obj (reading w g) (handled w) else handled w)\<rparr>) kind ns name"
    (is "attended num ?w kind ns name")
proof -
  let ?i = "home num kind ns name" and ?x = "key_item kind ns name" and ?k = "store_key ns name"
  note ok = world_okD [OF assms(1)]
  note p = finish_pend(2) [OF assms(4) serviceD [OF assms(5) home_bound [OF assms(2)]], of kind ns name]
  note rec = record_handled_at [OF assms(6), of obj "reading w g" "handled w" kind]
  note at = ok(7) [OF assms(5,6), of kind, unfolded attended_def]
  show ?thesis
  proof (cases "obj = ?x \<and> settled err")
    case True
    then have i: "unat wid = ?i" "of_nat ?i = wid" using assms(7) by (simp_all add: key_item_bucket wid_index)
    from fresh_not_returned [OF ok(5) assms(6)] assms(3) True obtain snap where snap: "reading w g = Some snap" by blast
    have held: "held (workers (sys w) g) = Some wid" using assms(3) by simp
    have one: "g' = g" if "workers (sys w) g' = Busy wid ?x q" for g' q using same_wid [OF ok(1) held, of g'] that by simp
    have x: "workers (sys w) g = Busy wid ?x (Return err)" using assms(3) True by simp
    have h: "handled ?w kind ?k = snap kind ?k" using rec snap True by simp
    have s: "seen (workers (sys ?w)) (reading ?w) (handled ?w) wid ?x kind ?k v"
      if "seen (workers (sys w)) (reading w) (handled w) wid ?x kind ?k v" for v
      using seen_finish [where h' = "handled ?w", OF that x one snap h] by simp
    have "pend c ?i = pend (ctl (sys w)) ?i" using p True by simp
    with at [unfolded i(2)] s True show ?thesis unfolding attended_def i(2) by auto
  next
    case False
    show ?thesis
    proof (cases "obj = ?x")
      case True
      with p False assms(7) show ?thesis by (simp add: attended_def key_item_bucket)
    next
      case neq: False
      have "handled ?w kind ?k = handled w kind ?k" using neq by (simp add: rec split: option.split)
      then have "seen (workers (sys ?w)) (reading ?w) (handled ?w) (of_nat ?i) ?x kind ?k v"
        if "seen (workers (sys w)) (reading w) (handled w) (of_nat ?i) ?x kind ?k v" for v
        using seen_other [OF that, of g "Serving wid" "handled ?w" "reading w g"] assms(3) neq by simp
      with at p show ?thesis unfolding attended_def by auto
    qed
  qed
qed

lemma ok_finish:
  assumes "world_ok num w" "0 < num" "workers (sys w) g = Busy wid obj (Return err)"
    "finish_item qe wid obj err (ctl (sys w)) = Ok (Some c)"
  shows "world_ok num (w\<lparr>sys := (sys w)\<lparr>ctl := c, workers := (workers (sys w))(g := Serving wid)\<rparr>,
            handled := (if settled err then record_handled obj (reading w g) (handled w) else handled w)\<rparr>)" (is "world_ok num ?w")
proof -
  note ok = world_okD [OF assms(1)]
  note t = finish_pend [OF assms(4)]
  have sv: "in_service num c = in_service num (ctl (sys w))" using t(1) by (simp add: in_service_def)
  have "held (workers (sys w) g) = Some wid" using assms(3) by simp
  then have wid: "unat wid < unat num" using sys_okD(2) [OF ok(1)] by (auto simp: workers_ok_def)
  have obj: "obj \<in> bucket num (unat wid)" if "in_service num (ctl (sys w))"
    using housedD(2) [OF ok(6) that wid, of g obj "Return err"] assms(3) by simp
  have "attended num ?w kind ns name" if "in_service num (ctl (sys w))" "plain_names ns name" for kind ns name
    by (rule attended_finish [OF assms that obj [OF that(1)]])
  moreover have "housed num (sys ?w)"
    unfolding housed_def
  proof (intro allI impI)
    fix i assume i: "in_service num (ctl (sys ?w))" "i < unat num"
    then have l: "in_service num (ctl (sys w))" using sv by simp
    have "obj \<in> bucket num i" if "unat wid = i" using obj [OF l] that by simp
    with housedD [OF ok(6) l i(2)] t(2) [OF serviceD [OF l i(2)]] show
      "pend (ctl (sys ?w)) i \<subseteq> bucket num i \<and> (\<forall>g obj p. workers (sys ?w) g = Busy (of_nat i) obj p \<longrightarrow> obj \<in> bucket num i)"
      by (auto split: if_splits)
  qed
  moreover have "fresh ?w" using ok(5) by (auto simp: fresh_def)
  moreover have "sys_ok num (sys ?w)" using step_finish [OF assms(3,4) ok(1)] by simp
  ultimately show ?thesis using ok(3,4) sv by (simp add: world_ok_def)
qed

lemma world_ok_step: "world_step w w' \<Longrightarrow> world_ok num w \<Longrightarrow> 0 < num \<Longrightarrow> world_ok num w'"
proof (induction rule: world_step.induct)
  case (inform kind w i is')
  then show ?case by (simp add: ok_inform)
next
  case (deliver j w kind x qe c)
  then show ?case by (intro ok_deliver)
next
  case (take w g wid obj c env)
  then show ?case by (intro ok_take)
next
  case (handle w g wid obj p p' st')
  then show ?case by (intro ok_handle)
next
  case (finish w g wid obj err qe c)
  then show ?case by (intro ok_finish)
next
  case (other w s)
  then show ?case by (intro ok_other)
qed

lemma inf_ok_start: "inf_ok kind (registered_informer now kind)"
proof -
  have "0 < check_period" "minimumResyncPeriod \<le> check_period" by (simp_all add: check_period_def second_def minimumResyncPeriod_def)
  from registered [OF this, of "\<lambda>xs. xs" now] obtain s where
    s: "AddEventHandler (\<lambda>xs. xs) now (NewInformers kind) = Ok s" "single check_period now (processor s)"
      "processor_ok (processor s)" "indexer s = []" "fifo s = NewDeltaFIFO" "resyncCheckPeriod s = check_period"
      "\<forall>l \<in> set (listeners (processor s)). listener_items l = [] \<and> running l = None"
    by (auto simp: NewInformers_def check_period_def)
  from s show ?thesis
    by (auto simp: registered_informer_def inf_ok_def data_ok_def listening_ok_def timing_ok_def undelivered_def listener_notes_def
        fifo_ok_def fifo_all_def NewDeltaFIFO_def deltas_of_def store_ok_def)
qed

lemma registered_empty: "indexer (shared (registered_informer now kind)) = []"
  using registered [of check_period "\<lambda>xs. xs" now]
  by (auto simp: registered_informer_def NewInformers_def check_period_def second_def minimumResyncPeriod_def)

lemma registered_fifo: "fifo (shared (registered_informer now kind)) = NewDeltaFIFO"
  using registered [of check_period "\<lambda>xs. xs" now]
  by (auto simp: registered_informer_def NewInformers_def check_period_def second_def minimumResyncPeriod_def)

lemma registered_stored: "stored (registered_informer now) = (\<lambda>_. Map.empty)"
  by (simp add: stored_def registered_empty fun_eq_iff)

lemma world_ok_start:
  assumes "startable num st"
  shows "world_ok num (world_start num st now)"
proof -
  have p: "pend (NewAviController num st) i = {}" if "i < unat num" for i
    using that by (simp add: pend_def NewAviController_def pending_def newDelayingQueue_def newQueue_def)
  show ?thesis
    using sys_ok_start [OF assms] inf_ok_start p
    by (simp add: world_ok_def world_start_def start_def registered_stored fresh_def housed_def attended_def seen_def)
qed

interpretation world: invariant_system "\<lambda>w. 0 < num \<and> (\<exists>st now. startable num st \<and> w = world_start num st now)" world_step
  "\<lambda>w. 0 < num \<and> world_ok num w" for num
  by unfold_locales (auto intro: world_ok_start world_ok_step)

lemma world_reachable_ok:
  assumes "startable num st" "0 < num" "world_step\<^sup>*\<^sup>* (world_start num st now) w"
  shows "world_ok num w"
  using world.inv_reachable [of num "world_start num st now" w] assms by blast

text \<open>The names the listers give their resources; what a lookup finds is what the store holds.\<close>

fun lister_name :: "informer \<Rightarrow> string" where
  "lister_name ServiceInf = ''service''"
| "lister_name EndpointsInf = ''endpoints''"
| "lister_name IngressInf = ''ingress.extensions''"

lemma lookup_stored:
  assumes "\<And>kind. inf_ok kind (is kind)"
  shows "lookup_obj (stores_of (stored is)) (kind_name kind) ns name =
      Some (case stored is kind (ns @ ''/'' @ name) of
              Some obj \<Rightarrow> Inr obj
            | None \<Rightarrow> Inl (StatusNotFound (lister_name kind @ [CHR '' '', CHR 0x22] @ name @ CHR 0x22 # '' not found'')))"
proof (cases "stored is kind (ns @ ''/'' @ name)")
  case None
  then show ?thesis by (cases kind) (simp_all add: lookup_obj_def lister_Get_def stores_of_def)
next
  case (Some obj)
  then have "of_kind kind obj"
    using assms [of kind] by (auto simp: inf_ok_def data_ok_def stored_def good_def dest: map_of_SomeD)
  with Some show ?thesis
    by (cases kind; cases obj) (simp_all add: lookup_obj_def lister_Get_def stores_of_def is_svc_def is_ep_def is_ing_def)
qed

section \<open>Properties\<close>

text \<open>
  C4: nothing in the informers' stores is forgotten. In every state the program can reach while its
  queues are in service, and for every name an object can have, one of the following holds: a
  notification about the object that the handlers act on has not been handed over yet; its key is
  pending in the queue of its bucket; a worker has it and has read what the store holds now, or has
  not looked yet; or no worker has it, and the last handler that settled the key has read what the
  store holds now. For Endpoints, what the store holds means the subsets. The deletion of an object
  leaves nothing in the store, so deletions count as well.
\<close>

theorem nothing_forgotten:
  assumes "startable num st" "0 < num" "world_step\<^sup>*\<^sup>* (world_start num st now) w"
    "in_service num (ctl (sys w))" "ns \<noteq> []" "api_name ns" "api_name name"
    "key = key_of (kind_name kind) ns name" "k = ns @ ''/'' @ name" "v = stored (informers w) kind k"
  shows "(\<exists>x \<in> undelivered (informers w kind). note_key x = k \<and> matters kind x)
    \<or> IStr key \<in> pending (workqueue (ctl (sys w)) ! unat (Bkt key num))
    \<or> (\<exists>g p. workers (sys w) g = Busy (Bkt key num) (IStr key) p
         \<and> (\<forall>snap. reading w g = Some snap \<longrightarrow> content kind (snap kind k) = content kind v))
    \<or> (\<forall>g p. workers (sys w) g \<noteq> Busy (Bkt key num) (IStr key) p) \<and> content kind (handled w kind k) = content kind v"
proof -
  have "plain_names ns name" using assms(5-7) by (simp add: plain_names_def)
  from world_okD(7) [OF world_reachable_ok [OF assms(1-3)] assms(4) this, of kind] show ?thesis
    using assms(8-10) by (simp add: attended_def on_its_way_def seen_def pend_def home_def key_item_def store_key_def)
qed

text \<open>A Service that the watch of a controller with one worker has announced.\<close>

abbreviation one_key :: iface where
  "one_key \<equiv> key_item ServiceInf ''n'' ''s''"

lemma one_api: "named (KService one_svc)" "api_obj (KService one_svc)" "KeyOf (KService one_svc) = (''n/s'', None)"
  by (simp_all add: named_def one_svc_def api_name_def api_obj_def KeyOf_def MetaNamespaceKeyFunc_def meta_key_def)

lemma one_informed:
  "\<exists>w. world_step\<^sup>*\<^sup>* (world_start 1 one_state 0) w \<and> stored (informers w) ServiceInf ''n/s'' = Some (KService one_svc)
     \<and> ctl (sys w) = NewAviController 1 one_state \<and> workers (sys w) = (\<lambda>_. Idle) \<and> \<not> stopped (sys w)
     \<and> reading w = (\<lambda>_. None) \<and> handled w = (\<lambda>_. Map.empty)"
proof -
  let ?w = "world_start 1 one_state 0" and ?o = "KService one_svc"
  let ?i = "registered_informer 0 ServiceInf"
  let ?d = "\<lparr>d_Type = Added, d_Object = ?o\<rparr>"
  let ?f = "watch_event is_svc WatchAdded ?o (indexer (shared ?i)) (fifo (shared ?i))"
  have i: "unlocked ?i" "work_left ?i = []" "sending ?i = None" by (simp_all add: registered_informer_def unlocked_def)
  have ok: "inf_ok ServiceInf ?i" by (rule inf_ok_start)
  have s1: "inf_step is_svc ?i (set_fifo ?f ?i)" using inf_step_intros(1) [OF reflector_step.watch [OF i(1) one_api(1), of is_svc WatchAdded]] by simp
  have f: "fifo_queue ?f = [''n/s''] \<and> deltas_of ?f ''n/s'' = [?d]"
    using one_api registered_fifo [of 0 ServiceInf]
    by (simp add: watch_event_def is_svc_def fifo_Add_def queueActionLocked_queued queued_def okey_def dedupDeltas_def deltas_of_def NewDeltaFIFO_def)
  from inf_ok_step [of ServiceInf ?i] s1 ok have ok1: "inf_ok ServiceInf (set_fifo ?f ?i)" by simp
  then have fok: "fifo_ok ?f" by (simp add: inf_ok_def data_ok_def)
  obtain f' where p: "Pop ?f = (Popped ''n/s'' [?d], f')" using Pop_head [OF fok] f by auto
  let ?i2 = "(set_fifo f' ?i)\<lparr>work_left := [?d]\<rparr>"
  have "inf_step is_svc (set_fifo ?f ?i) ((set_fifo f' (set_fifo ?f ?i))\<lparr>work_left := [?d]\<rparr>)"
    by (rule inf_step_intros(2) [OF process_step.pop [where key = "''n/s''"]]) (use i p in \<open>simp_all add: unlocked_def\<close>)
  then have s2: "inf_step is_svc (set_fifo ?f ?i) ?i2" by (simp add: set_fifo_def)
  have h: "handle_delta ?d (indexer (shared ?i2)) = Inr ((addNotification ?o, False), [(''n/s'', ?o)])"
    using one_api by (simp add: handle_delta_ok [of "''n/s''"] delta_ok_def registered_empty)
  obtain i3 where s3: "inf_step is_svc ?i2 i3" "indexer (shared i3) = [(''n/s'', ?o)]"
    using inf_step_intros(2) [OF process_step.change [OF _ _ h, of "[]"], of is_svc] i(3) by simp
  let ?is = "\<lambda>i. (registered_informer 0)(ServiceInf := i)"
  let ?at = "\<lambda>i. ?w\<lparr>informers := ?is i, sys := (sys ?w)\<lparr>stores := stores_of (stored (?is i))\<rparr>\<rparr>"
  have a: "world_step (?at i) (?at i')" if "inf_step is_svc i i'" for i i'
    using world_step.inform [of ServiceInf "?at i" i' "?is i'"] that by simp
  have w: "?at ?i = ?w" by (simp add: world_start_def start_def registered_stored)
  have "world_step\<^sup>*\<^sup>* ?w (?at i3)"
    using a [OF s1, unfolded w] a [OF s2] a [OF s3(1)] by (rule converse_rtranclp_into_rtranclp [OF _ converse_rtranclp_into_rtranclp [OF _ r_into_rtranclp]])
  with s3(2) show ?thesis by (intro exI [of _ "?at i3"]) (simp add: stored_def world_start_def start_def)
qed

theorem nothing_forgotten_witness:
  "\<exists>w. world_step\<^sup>*\<^sup>* (world_start 1 one_state 0) w \<and> stored (informers w) ServiceInf ''n/s'' = Some (KService one_svc)
     \<and> (\<exists>x \<in> undelivered (informers w ServiceInf). note_key x = ''n/s'')"
proof -
  obtain w where w: "world_step\<^sup>*\<^sup>* (world_start 1 one_state 0) w" "stored (informers w) ServiceInf ''n/s'' = Some (KService one_svc)"
    "ctl (sys w) = NewAviController 1 one_state" "workers (sys w) = (\<lambda>_. Idle)" "handled w = (\<lambda>_. Map.empty)"
    using one_informed by blast
  have q: "workqueue (ctl (sys w)) = [newDelayingQueue DefaultControllerRateLimiter]" by (simp add: w(3) NewAviController_def)
  have s: "in_service 1 (ctl (sys w))" using q by (simp add: in_service_def live_def newDelayingQueue_def newQueue_def)
  have p: "pending (workqueue (ctl (sys w)) ! unat (Bkt key 1)) = {}" for key
    using q by (simp add: Bkt_def pending_def newDelayingQueue_def newQueue_def)
  have "(\<exists>x \<in> undelivered (informers w ServiceInf). note_key x = ''n/s'' \<and> matters ServiceInf x)"
    using nothing_forgotten [OF one_startable _ w(1) s, of "''n''" "''s''" _ ServiceInf "''n/s''" "Some (KService one_svc)"] p w
    by (simp add: api_name_def)
  with w(1,2) show ?thesis by blast
qed

text \<open>
  C12: what \<open>reading\<close> records is what the code reads. The first step of a handler is to look its
  object up in the store, at the key the event was queued with; the object found is what the
  handler for a changed object goes on with, and when there is none the deletion is handled.
\<close>

theorem handler_reads_store:
  assumes "startable num st" "0 < num" "world_step\<^sup>*\<^sup>* (world_start num st now) w"
    "workers (sys w) g = Busy wid (IStr key) p" "reading w g = None" "key = key_of (kind_name kind) ns name"
    "ns \<noteq> []" "api_name ns" "api_name name" "prog_step (p, k8s (ctl (sys w)), stores (sys w)) (p', s)"
  shows "s = (k8s (ctl (sys w)), stores (sys w))
    \<and> (\<exists>env. case stored (informers w) kind (ns @ ''/'' @ name) of
         Some obj \<Rightarrow> of_kind kind obj \<and> p' = update_prog env (kind_name kind) (ns @ '':'' @ name) wid obj
       | None \<Rightarrow> \<exists>err. IsNotFound err \<and> p' = delete_prog env (kind_name kind) key wid err)"
proof -
  let ?k = "ns @ ''/'' @ name"
  note ok = world_okD [OF world_reachable_ok [OF assms(1-3)]]
  from ok(5) assms(4,5) obtain env where p: "p = sync_prog env key wid" by (fastforce simp: fresh_def item_prog_def)
  have n: "api_name (kind_name kind)" by (cases kind) (simp_all add: api_name_def)
  have l: "lookup_obj (stores (sys w)) (kind_name kind) ns name =
      Some (case stored (informers w) kind ?k of
              Some obj \<Rightarrow> Inr obj
            | None \<Rightarrow> Inl (StatusNotFound (lister_name kind @ [CHR '' '', CHR 0x22] @ name @ CHR 0x22 # '' not found'')))"
    unfolding ok(4) by (rule lookup_stored [OF ok(3)])
  have "of_kind kind obj" if "stored (informers w) kind ?k = Some obj" for obj
    using ok(3) [of kind] that by (auto simp: inf_ok_def data_ok_def stored_def good_def dest: map_of_SomeD)
  moreover have nf: "IsNotFound (StatusNotFound msg)" for msg by (simp add: IsNotFound_def)
  ultimately show ?thesis
    using assms(10) l unfolding p sync_prog_def assms(6) SplitN_key_of [OF n assms(8,9)]
    by (cases "stored (informers w) kind ?k") (auto simp: meta.split_mk [OF assms(8,9)] reads_def act_def intro: nf)
qed

text \<open>The goroutine of a worker with the key of that Service.\<close>

lemma one_at_work:
  "\<exists>w p. world_step\<^sup>*\<^sup>* (world_start 1 one_state 0) w \<and> stored (informers w) ServiceInf ''n/s'' = Some (KService one_svc)
     \<and> workers (sys w) 0 = Busy 0 (IStr ''Service/n:s/n/s'') p \<and> reading w 0 = None
     \<and> p = sync_prog one_env ''Service/n:s/n/s'' 0"
proof -
  let ?c = "NewAviController 1 one_state" and ?key = "''Service/n:s/n/s''"
  obtain w where w: "world_step\<^sup>*\<^sup>* (world_start 1 one_state 0) w" "stored (informers w) ServiceInf ''n/s'' = Some (KService one_svc)"
    "ctl (sys w) = ?c" "workers (sys w) = (\<lambda>_. Idle)" "\<not> stopped (sys w)"
    using one_informed by blast
  obtain q1 t q2 where q: "AddRateLimited False 0 0 (IStr ?key) new_queue = Some q1" "\<not> shuttingDown (dq_queue q1)" "receive t q1 = q2"
    "dq_queue q2 = \<lparr>queue = [IStr ?key], dirty = {IStr ?key}, processing = {}, shuttingDown = False\<rparr>"
    using first_add [of 0 0 5000000 False "IStr ?key" 5000000] by auto
  have c: "workqueue ?c = [new_queue]" "num_workers ?c = 1" "worker_id ?c = 1" by (simp_all add: NewAviController_def)
  have "obj_key ''Service'' (KService one_svc) = Ok ?key" by (simp add: obj_key_of key_of_def meta_key_def one_svc_def)
  then have "svc_AddFunc \<lparr>qe_now = 0, qe_bucket = 0, qe_stop = False\<rparr> (KService one_svc) ?c = Ok (Some (set_queue 0 q1 ?c))"
    using q(1) c by (simp add: svc_AddFunc_def on_add_def is_svc_def enqueue_bucket Bkt_def)
  then have e: "informer_event (ctl (sys w)) (set_queue 0 q1 ?c)" unfolding w(3) by (rule informer_event.intros)
  let ?at = "\<lambda>c ws. w\<lparr>sys := (sys w)\<lparr>ctl := c, workers := ws\<rparr>\<rparr>"
  let ?c1 = "set_queue 0 q1 ?c" and ?c2 = "set_queue 0 q2 ?c" and ?ws = "\<lambda>x. (\<lambda>_. Idle)(0 := x)"
  have ws: "?at c (\<lambda>_. Idle) = w\<lparr>sys := (sys w)\<lparr>ctl := c\<rparr>\<rparr>" for c using w(4) by simp
  have s1: "world_step w (?at ?c1 (\<lambda>_. Idle))"
    unfolding ws by (rule world_step.other [OF sys_step.event [OF e]]) simp_all
  have s2: "world_step (?at ?c1 (\<lambda>_. Idle)) (?at ?c2 (\<lambda>_. Idle))"
    using world_step.other [of "w\<lparr>sys := (sys w)\<lparr>ctl := ?c1\<rparr>\<rparr>", OF sys_step.recv [where i = 0 and now = t, OF _ refl]] q(2,3) c
    unfolding ws by (simp add: set_queue_def)
  have s3: "world_step (?at ?c2 (\<lambda>_. Idle)) (?at ?c2 (?ws Entering))"
    using world_step.other [of "?at ?c2 (\<lambda>_. Idle)", OF sys_step.enter [where g = 0]] w(5) c by (simp add: set_queue_def busy_with_def)
  have pk: "pick_worker_id 1 1 = (0, 0)" by (simp add: pick_worker_id_def)
  let ?c3 = "?c2\<lparr>worker_id := 0\<rparr>"
  have s4: "world_step (?at ?c2 (?ws Entering)) (?at ?c3 (?ws (Serving 0)))"
    using world_step.other [of "?at ?c2 (?ws Entering)", OF sys_step.pick [where g = 0 and wid = 0 and m = 0]] pk c
    by (simp add: set_queue_def busy_with_def)
  obtain c4 where "take_item 0 ?c3 = Ok (Work (IStr ?key), c4)"
    using q(4) c by (simp add: take_item_def go_index_def set_queue_def Get_def Let_def)
  then have s5: "world_step (?at ?c3 (?ws (Serving 0))) ((?at c4 (?ws (Busy 0 (IStr ?key) (item_prog one_env 0 (IStr ?key)))))\<lparr>reading := (reading w)(0 := None)\<rparr>)"
    using world_step.take [of "?at ?c3 (?ws (Serving 0))" 0 0 "IStr ?key" c4 one_env] by simp
  let ?w = "(?at c4 (?ws (Busy 0 (IStr ?key) (item_prog one_env 0 (IStr ?key)))))\<lparr>reading := (reading w)(0 := None)\<rparr>"
  have "world_step\<^sup>*\<^sup>* (world_start 1 one_state 0) ?w"
    using w(1) s1 s2 s3 s4 s5 by (meson rtranclp.rtrancl_into_rtrancl)
  with w(2) show ?thesis by (intro exI [of _ ?w]) (simp add: item_prog_def)
qed

theorem handler_reads_store_witness:
  "\<exists>w p p' s env. world_step\<^sup>*\<^sup>* (world_start 1 one_state 0) w \<and> workers (sys w) 0 = Busy 0 (IStr ''Service/n:s/n/s'') p
     \<and> prog_step (p, k8s (ctl (sys w)), stores (sys w)) (p', s) \<and> p' = update_prog env ''Service'' ''n:s'' 0 (KService one_svc)"
proof -
  obtain w p where w: "world_step\<^sup>*\<^sup>* (world_start 1 one_state 0) w" "stored (informers w) ServiceInf ''n/s'' = Some (KService one_svc)"
    "workers (sys w) 0 = Busy 0 (IStr ''Service/n:s/n/s'') p" "reading w 0 = None" "p = sync_prog one_env ''Service/n:s/n/s'' 0"
    using one_at_work by blast
  have key: "''Service/n:s/n/s'' = key_of (kind_name ServiceInf) ''n'' ''s''" by (simp add: key_of_def meta_key_def)
  have n: "api_name ''n''" "api_name ''s''" "api_name ''Service''" by (simp_all add: api_name_def)
  have "\<exists>p' s. prog_step (p, k8s (ctl (sys w)), stores (sys w)) (p', s)"
    unfolding w(5) sync_prog_def key kind_name.simps SplitN_key_of [OF n(3,1,2)]
    by (auto simp: meta.split_mk [OF n(1,2)] reads_def act_def)
  then obtain p' s where st: "prog_step (p, k8s (ctl (sys w)), stores (sys w)) (p', s)" by blast
  from handler_reads_store [OF one_startable _ w(1,3,4) key _ n(1,2) st] w(2) obtain env where
    "p' = update_prog env ''Service'' ''n:s'' 0 (KService one_svc)" by auto
  with w(1,3) st show ?thesis by blast
qed

text \<open>
  C16: a deletion the watch has missed crashes the program. When an object of the store is absent
  from the next list and no change of it is waiting, the queue gets one delta with a tombstone;
  processing it removes the object from the store and notifies the handler, which panics: the type
  of the event's object is asserted a second time, without the check.
\<close>

theorem missed_deletion_panics:
  assumes "\<forall>obj \<in> set objs. api_obj obj" "reordering ord" "store_ok st" "map_of st k = Some obj" "of_kind kind obj"
    "deltas_of f k = []" "k \<notin> okey ` set objs"
  shows "\<exists>d. deltas_of (snd (Replace ord st objs f)) k = [d]
    \<and> (\<exists>x st'. handle_delta d st = Inr ((x, False), st') \<and> map_of st' = (map_of st)(k := None)
        \<and> handler kind qe x c = Panic TypeAssertionFailed)"
proof -
  let ?d = "\<lparr>d_Type = Deleted, d_Object = DeletedFinalStateUnknown k obj\<rparr>"
  have "distinct (map fst st)" using assms(3) by (simp add: store_ok_def)
  note d = Replace_tombstone [OF assms(1,2) this assms(4,6,7)]
  have h: "handle_delta ?d st = Inr ((deleteNotification (DeletedFinalStateUnknown k obj), False), AList.delete k st)"
    by (simp add: handle_delta_ok [of k] delta_ok_def)
  have "handler kind qe (deleteNotification (DeletedFinalStateUnknown k obj)) c = Panic TypeAssertionFailed"
    using assms(5) by (cases kind) (simp_all add: svc_DeleteFunc_def ep_DeleteFunc_def ing_DeleteFunc_def on_delete_def
        tombstone_of_def is_svc_def is_ep_def is_ing_def)
  with d h show ?thesis by (auto simp: delete_conv')
qed

theorem missed_deletion_panics_witness:
  "\<exists>x st'. handle_delta (hd (deltas_of (snd (Replace (\<lambda>xs. xs) [(''n/s'', KService one_svc)] [] NewDeltaFIFO)) ''n/s''))
       [(''n/s'', KService one_svc)] = Inr ((x, False), st')
     \<and> handler ServiceInf \<lparr>qe_now = 0, qe_bucket = 0, qe_stop = False\<rparr> x (NewAviController 1 one_state) = Panic TypeAssertionFailed"
proof -
  have "store_ok [(''n/s'', KService one_svc)]" using one_api by (simp add: store_ok_def okey_def)
  from missed_deletion_panics [OF _ reordering_id this, of "[]" "''n/s''" "KService one_svc" ServiceInf NewDeltaFIFO
      "\<lparr>qe_now = 0, qe_bucket = 0, qe_stop = False\<rparr>" "NewAviController 1 one_state"]
  show ?thesis by (auto simp: is_svc_def deltas_of_def NewDeltaFIFO_def)
qed

end
