(* ===== verification/Spec2Isabelle.thy ===== *)
theory Spec2Isabelle
  imports Demo Avi_Informed
begin

text \<open>
  A verification of \<^verbatim>\<open>servicemesh\<close>, a Kubernetes controller in Go that mirrors Services and
  Endpoints as virtual services and pools of an Avi load balancer.

  \<^bold>\<open>The program.\<close> \<^verbatim>\<open>main.go\<close> installs the signal handler, optionally starts the client of Istio's
  Mesh Configuration Protocol (\<^verbatim>\<open>pkg/mcp\<close>), logs in to the Avi controller once per worker and
  makes the controller of \<^verbatim>\<open>controller.go\<close>. Its informers (\<^verbatim>\<open>client-go/tools/cache\<close>, vendored) list and
  watch the objects of the API server, collect the changes in a queue, apply them to a store and
  notify the event handlers, which put the key of an object on one of two rate-limited work queues (\<^verbatim>\<open>client-go/util/workqueue\<close>, vendored), chosen
  by a hash of the key. Each worker takes a number from a bit mask, serves the queue of that
  number, and calls \<^verbatim>\<open>syncHandler\<close>, which looks the object up and hands it to the Service or
  Endpoints handler of \<^verbatim>\<open>pkg/k8s\<close>. The handlers build REST operations (\<^verbatim>\<open>aviobjects\<close>), send them
  as a batch (\<^verbatim>\<open>pkg/utils/avi_rest_utils.go\<close>), and record what was made in caches
  (\<^verbatim>\<open>pkg/utils/cache.go\<close>), from which they tell later whether an object changed.

  \<^bold>\<open>The theories.\<close>
  \<^item> \<open>Prelude\<close>: results of Go functions (\<open>'a go\<close>: a value or a panic), loops over them
    (\<open>go_fold\<close>, \<open>go_map\<close>), reorderings of Go maps, and the locale \<open>invariant_system\<close>.
  \<^item> \<open>Go_Strings\<close>, \<open>Go_Json\<close>, \<open>Go_Net\<close>, \<open>Go_Flag\<close>: what the source uses of the packages \<^verbatim>\<open>strings\<close>,
    \<^verbatim>\<open>strconv\<close>, \<^verbatim>\<open>encoding/json\<close>, \<^verbatim>\<open>net\<close>, \<^verbatim>\<open>net/url\<close> and \<^verbatim>\<open>flag\<close>.
  \<^item> \<open>Avi_Cache\<close>: \<^verbatim>\<open>pkg/utils/cache.go\<close> and \<^verbatim>\<open>avi_obj_cache.go\<close>. The locales \<open>object_cache\<close> and
    \<open>relation_cache\<close> are the contracts, interpreted on the code's operations; a multi-cache
    refines a relation (\<open>mc_rel\<close>).
  \<^item> \<open>Avi_Types\<close>, \<open>Avi_Utils\<close>: \<^verbatim>\<open>pkg/utils/types.go\<close>, \<^verbatim>\<open>utils.go\<close> and the fields of the SDK's models
    the code writes.
  \<^item> \<open>Avi_Rest\<close>: \<^verbatim>\<open>avi_rest_utils.go\<close>. The SDK's session is the record \<open>AviApi\<close> of functions on an
    arbitrary controller state \<open>'w\<close>; \<open>logged\<close> adds the list of requests made.
  \<^item> \<open>Avi_Objects\<close>: \<^verbatim>\<open>aviobjects\<close>, the builders of pools, virtual services and HTTP policy sets
    and the cache updates from the controller's responses.
  \<^item> \<open>K8s_Keys\<close>: the object keys of \<^verbatim>\<open>client-go\<close>, with the locale \<open>object_keys\<close>.
  \<^item> \<open>K8s_Ep\<close>, \<open>K8s_Svc\<close>: the handlers of \<^verbatim>\<open>pkg/k8s\<close> on the shared state \<open>K8sState\<close>.
  \<^item> \<open>Work_Queue\<close>, \<open>Delaying_Queue\<close>: the vendored work queue with its delaying and rate-limiting
    layers; the locale \<open>dedup_queue\<close> is the contract of the inner queue. The
    priority queue is shown to be a heap, and a delayed item to arrive when its time has come.
  \<^item> \<open>Avi_Controller\<close>: \<^verbatim>\<open>controller.go\<close>: event handlers, buckets, \<^verbatim>\<open>syncHandler\<close>, workers.
  \<^item> \<open>Interleaving\<close>: code that runs beside other goroutines, as a program of atomic steps
    (\<open>prog\<close>); what it computes alone (\<open>run\<close>), what all its steps keep (\<open>keeps\<close>), interleavings
    (\<open>par_step\<close>), and that it takes finitely many steps under any interference. The locale
    \<open>component\<close> is the contract of a part of the shared state that loops write.
  \<^item> \<open>Avi_Steps\<close>: \<^verbatim>\<open>syncHandler\<close> and the handlers as such programs: one step per access to an informer
    store, a cache or the Avi controller. Each is shown to be its sequential definition when
    nothing interferes, and each step to keep the invariant of the caches.
  \<^item> \<open>Avi_Workers\<close>: the running controller as a step relation \<open>sys_step\<close> over goroutines, whose
    handlers advance one access at a time, informer stores and events, the waiting loops of the
    queues and the shutdown, with its invariant \<open>sys_ok\<close> and the measure \<open>left_to_do\<close> of a
    controller that shuts down.
  \<^item> \<open>Avi_Runs\<close>: the path of a key from the event through a queue to the round of its worker.
  \<^item> \<open>Ring_Buffer\<close>: the vendored growing ring buffer, with the locale \<open>buffer\<close>, the contract of what
    keeps items in order; the listeners of an informer are an instance of it as well.
  \<^item> \<open>Delta_FIFO\<close>: the vendored store of an informer and the queue of changes before it, with the
    invariant \<open>fifo_ok\<close> and the map \<open>eventual\<close> the two stand for.
  \<^item> \<open>Shared_Informer\<close>: the vendored shared informers: listeners, processor, registration of the
    handlers, processing of the changes, watch events and resynchronisation; \<^verbatim>\<open>NewInformers\<close>.
  \<^item> \<open>Avi_Informed\<close>: the controller of \<open>Avi_Workers\<close> together with the goroutines of its informers, as the
    step relation \<open>world_step\<close>; a step of an informer is one of its reflector (\<open>reflector_step\<close>) or
    of the goroutines that process its queue (\<open>process_step\<close>). Its runs are runs of \<open>sys_step\<close>, in which the stores and events
    come from the informers. The auxiliary variables \<open>reading\<close> and \<open>handled\<close> record what the handlers
    have read; no step depends on them.
  \<^item> \<open>Cache_Sync\<close>: \<^verbatim>\<open>Start\<close> of \<^verbatim>\<open>controller.go\<close> with the vendored \<^verbatim>\<open>WaitForCacheSync\<close>.
  \<^item> \<open>Avi_Log\<close>: \<^verbatim>\<open>pkg/utils/log.go\<close>, with what it uses of Go's \<^verbatim>\<open>log\<close> package.
  \<^item> \<open>Mcp\<close>: \<^verbatim>\<open>pkg/mcp\<close>, with the goroutines of a start function as the relation \<open>mcp_step\<close>.
  \<^item> \<open>Main_Program\<close>: \<^verbatim>\<open>main.go\<close>, \<^verbatim>\<open>pkg/utils/signal.go\<close> and \<^verbatim>\<open>signal_posix.go\<close>.
  \<^item> \<open>Demo\<close>: a small cluster and two Avi controllers, on which the properties below are
    instantiated.

  \<^bold>\<open>How the code is modelled.\<close> Every function of the source that panics on some input returns a
  \<open>go\<close> value; errors are \<open>go_error\<close> values. Machine integers keep their width (\<open>uint32\<close>,
  \<open>int32\<close>). A Go map that is only looked up is a map; one that is ranged over is a list in
  insertion order, and each \<^verbatim>\<open>range\<close> loop takes a reordering of it from the environment record
  \<open>Env\<close>, so that results hold for every order of iteration (\<open>env_ok\<close>). The Avi
  controller is a parameter, and so is the API server: its lists and the events of its watches
  are arbitrary objects with names it allows. Up to \<open>Avi_Workers\<close> the informer stores are
  parameters too. \<open>accepting host api\<close> names what is assumed of the Avi controller where a request
  is to succeed: the macro call answers with the object made, under the name, checksum and
  metadata it was sent and with any other fields. Requests sent are stated on \<open>logged api\<close>, and what
  a rollback deletes by \<open>deletion\<close>, which spells out the paths and does not use the code's own.

  \<^bold>\<open>What is shown.\<close> This theory has the properties of the handlers together: creating a
  Service records its virtual service and pools; an event of its Endpoints brings the pools to
  their version; the add event of a new Service is followed through the code's functions, from its
  handler over the waiting loop of its queue to the round of the worker, to that end; doing either
  again changes nothing; a failed batch is undone, request by request, and leaves the caches alone;
  deleting a Service removes exactly its entries. \<open>Avi_Workers\<close> shows for every reachable state that
  worker numbers are exclusive and in range, that a queue has one item in work at a time, that
  the caches and queues stay well formed in the middle of any handlers, that no key is lost
  before its handler has returned, and that after the shutdown every goroutine can go on and all
  come to rest; that a round of a worker nobody interferes with is the sequential
  \<^verbatim>\<open>processNextWorkItem\<close> (\<open>round_is_a_run\<close>) relates the two models of the same code. \<open>Avi_Informed\<close> adds the informers: nothing their stores hold is forgotten, from the
  change of a store to the return of the handler that has read it. Below it, \<open>Delta_FIFO\<close> and
  \<open>Shared_Informer\<close> show that queue and store implement a map, what a new list makes of it, that
  an informer has synced only after its first list, that every check resynchronises, and that
  notifications keep their order.
  \<open>Avi_Controller\<close> shows that a key leads back to its object and what one round of a worker
  does. The other theories have the properties of their components. Some properties state
  where the code does something other than it means to: missed deletions, buckets by parity,
  lists that overtake a deletion, pool names that contain \<^verbatim>\<open>-pool-\<close>, the shared rule index, deleted
  Ingresses, updates that drop the pool of a virtual service, the ignored login error, the port all
  servers of a pool share, and an update of Endpoints that is lost when it overtakes the handler of its Service.

  \<^bold>\<open>Bounds.\<close> The loop that moves ready items takes the size of the heap as its bound, which is
  enough since each round removes one entry; \<open>add_ready_exact\<close> states the result. All other
  loops are structural or have a measure; a program of steps is a datatype value, which has no
  infinite path. The number of workers is at most 32, the width of the mask.

  \<^bold>\<open>Atomicity.\<close> A cache operation holds the cache's lock and is one step, and so is a lookup in an
  informer store and a request to the Avi controller, together with the local code after it.
  Coarser than the code are:
  \<^item> a \<^verbatim>\<open>range\<close> loop over a row of the cache from Services to pools: it reads the row as a whole, while
    the code ranges over the map it shares with the cache, a data race whose outcome Go leaves open;
  \<^item> \<open>finish_item\<close>: the queue call at the end of a round (\<^verbatim>\<open>AddRateLimited\<close> or \<^verbatim>\<open>Forget\<close>) and the deferred
    \<^verbatim>\<open>Done\<close> are one step, where the code takes the locks of the limiter and of the queue one after
    the other;
  \<^item> \<open>enqueue\<close>: reading the failure count, the test of \<^verbatim>\<open>ShuttingDown\<close> and the send to the channel are
    one step;
  \<^item> the end of \<^verbatim>\<open>Run\<close>, which shuts all queues down: one step, where the code shuts down one queue after
    the other.

  \<^bold>\<open>What \<open>sys_step\<close> allows.\<close> The relation is for properties of all runs, and allows more than the
  program does: each item may be handled under any environment \<open>Env\<close> and any Avi controller, and
  events and informer stores may be anything (in \<open>world_step\<close> the stores are those of the informers). A
  handler that panics has no next step: the process ends there. Goroutines go on after \<^verbatim>\<open>Run\<close> has
  returned, while \<^verbatim>\<open>main\<close> then ends the process; what is shown of the shutdown is what would happen
  if it waited. That a step exists is claimed only of goroutines after a shutdown; what becomes of an
  event is stated of the code's functions (\<open>service_event_handled\<close>), and the interleaving that loses
  an update is one of the handlers' programs under one fixed environment.

  In \<open>world_step\<close> a delta is applied to the store in one step and its notification sent to each
  listener in another; a list, a watch event and a resynchronisation are one step each, as they
  hold the lock of the queue. The goroutine with the timer of a watch that has ended is taken to
  have ended when the next one makes its timer. Beside the events of the informers, \<open>world_step\<close>
  allows other ones, which only adds runs.

  \<^bold>\<open>Not modelled.\<close> The calls of the loggers; the calls to the API server and what the vendored
  informers keep beside stores and notifications (indices, metrics, the mutation detector); how
  the informers stop; the event recorder, which is made and never used; \<^verbatim>\<open>NewK8sSvc\<close>, which copies
  pointers to what \<open>K8sState\<close> holds; the HTTP layer of the Avi SDK, gRPC and the sink of Istio. What
  is left of the source is comments, import lists and closing braces.
\<close>

section \<open>Properties of the handlers together\<close>



text \<open>
  C5: after a Service without pools was created, handling the Service again, or the event of
  its Endpoints, with the same versions sends nothing and changes nothing.
\<close>

theorem service_sync_idempotent:
  assumes "accepting host (env_api env)" "creatable env svc ep pps" "env_ok env"
    "unat shard < length (AviClient st)" "\<not> svc_unchanged st svc" "st_ok st"
    "AviMultiCacheGetKey (svc_to_pool_cache st) (nsname (svc_Namespace svc) (svc_Name svc)) = None"
    "svc_of env ep = Some svc" "svc_Ports svc \<noteq> []" "\<forall>pp \<in> set pps. CHR ''/'' \<notin> set (pp_pool svc pp)"
  shows "\<exists>st'. K8sSvc_K8sObjCrUpd env shard svc st = Ok ([], None, st')
    \<and> K8sSvc_K8sObjCrUpd env shard svc st' = Ok ([], None, st')
    \<and> K8sEp_K8sObjCrUpd env shard ep '''' key st' = Ok ([], None, st')"
proof -
  from svc_create [OF assms(1-5)] obtain st' where st': "K8sSvc_K8sObjCrUpd env shard svc st = Ok ([], None, st')"
    "svc_recorded env st svc ep pps st'" "length (AviClient st') = length (AviClient st)" by blast
  have ok: "st_ok st'" using K8sSvc_K8sObjCrUpd_ok [OF st'(1) assms(6)] by blast
  have ep: "EpInformer (env_informers env) (svc_Namespace svc @ ''/'' @ svc_Name svc) = Some ep"
    "ep_Namespace ep = svc_Namespace svc" "ep_Name ep = svc_Name svc" using assms(2) by (simp_all add: creatable_def)
  have "K8sEp_K8sObjCrUpd env shard ep '''' key st' = Ok ([], None, st')"
  proof (cases "AviMultiCacheGetKey (svc_to_pool_cache st') (nsname (ep_Namespace ep) (ep_Name ep))")
    case None
    then show ?thesis by (rule ep_event_no_pools [OF assms(8,9)])
  next
    case (Some row)
    then show ?thesis
      using svc_recorded_fresh [OF st'(2) ok assms(7,6)] assms(4,10) st'(3) ep
      by (intro ep_event_fresh [OF ok assms(3,8,9) Some]) auto
  qed
  moreover have "K8sSvc_K8sObjCrUpd env shard svc st' = Ok ([], None, st')"
    by (rule svc_unchanged_noop [OF ep(1) svc_recorded_unchanged [OF st'(2)]])
  ultimately show ?thesis using st'(1) by blast
qed

theorem service_sync_idempotent_witness:
  "\<exists>st'. K8sSvc_K8sObjCrUpd demo_env 0 demo_svc demo_st = Ok ([], None, st')
    \<and> K8sEp_K8sObjCrUpd demo_env 0 demo_ep '''' ''default:web'' st' = Ok ([], None, st')"
proof -
  have n: "svc_Namespace demo_svc = ''default''" "svc_Name demo_svc = ''web''" "ep_Namespace demo_ep = ''default''"
    "ep_Name demo_ep = ''web''" "svc_Ports demo_svc \<noteq> []" by (simp_all add: demo_svc_def demo_ep_def)
  have row: "AviMultiCacheGetKey (svc_to_pool_cache demo_st) (nsname ''default'' ''web'') = None"
    by (simp add: mk_state_def NewK8sEp_def NewAviMultiCache_def AviMultiCacheGetKey_def)
  have slash: "CHR ''/'' \<notin> set (pp_pool demo_svc demo_pp)"
    by (simp add: n demo_pp_def pool_name_of_def)
  from service_sync_idempotent [OF demo_ready_to_send(1) demo_creatable demo_env_ok demo_ready_to_send(2) demo_changed demo_st_ok,
      where key = "''default:web''"] row slash n
  show ?thesis by (simp add: demo_informed) blast
qed

text \<open>
  C24: a Service update that ends in an error leaves the caches as they were, so that nothing
  of the failed batch is taken as made and the update is tried in full again.
\<close>

theorem service_error_keeps_caches:
  assumes "K8sSvc_K8sObjCrUpd env shard svc st = Ok (ops, Some e, st')" "svc_Name svc \<noteq> ''''"
  shows "avi_obj_cache st' = avi_obj_cache st \<and> svc_to_pool_cache st' = svc_to_pool_cache st"
  by (rule svc_error_keeps_caches) (rule assms)+

theorem service_error_keeps_caches_witness:
  "\<exists>st'. K8sSvc_K8sObjCrUpd (mk_env (logged refusing_api) demo_informers) 0 demo_svc (mk_state ((), []))
      = Ok ([], Some (ErrorString ''refused''), st')
    \<and> avi_obj_cache st' = NewAviObjCache"
proof -
  from demo_refused obtain st' where r: "K8sSvc_K8sObjCrUpd (mk_env (logged refusing_api) demo_informers) 0 demo_svc (mk_state ((), []))
      = Ok ([], Some (ErrorString ''refused''), st')" by blast
  have "svc_Name demo_svc \<noteq> ''''" by (simp add: demo_svc_def)
  with service_error_keeps_caches [OF r] r show ?thesis by (simp add: mk_state_def NewK8sEp_def)
qed

text \<open>
  C6: a Service update that fails. Its batch is the pools to be made and the virtual service;
  the operations before some position \<open>i\<close> succeeded, the one at \<open>i\<close> returned the error. The
  requests sent are those of the operations up to \<open>i\<close>, in order, and then one deletion for every
  object the operations before \<open>i\<close> made, the last made first: the session is the one the batch
  left, under the tenant of the Service, and the path is the one of the object's model with the
  UUID of the response. Nothing else is sent.
\<close>

theorem service_rollback_requests:
  assumes "K8sSvc_K8sObjCrUpd env shard svc st = Ok (r, Some e, st')" "creatable env svc ep pps" "env_ok env"
    "env_api env = logged api" "\<not> svc_unchanged st svc"
  shows "\<exists>m ops ops' sess w1 i. svc_vs_meta svc (svc_key svc) (svc_pool_ops env st svc ep pps) = Ok m
    \<and> ops = svc_pool_ops env st svc ep pps @ AviVsBuild (ord_poolmap env) (env_version env) m
    \<and> AviRestOperate (logged api) (AviClient st ! unat shard) ops (world st) = (Some e, ops', sess, w1)
    \<and> sess_tenant sess = svc_Namespace svc
    \<and> i < length ops \<and> op_Err (ops' ! i) = Some e \<and> (\<forall>j < i. op_Err (ops' ! j) = None)
    \<and> snd (world st') = snd (world st)
      @ concat (map (\<lambda>op. op_request (op_session op (AviClient st ! unat shard)) op) (take (Suc i) ops))
      @ concat (map (deletion sess) (rev (take i ops')))"
  by (rule svc_rollback_log [OF assms])

theorem service_rollback_requests_witness:
  "\<exists>st' d dv. K8sSvc_K8sObjCrUpd (mk_env (logged refusing_api) demo_informers) 0 demo_svc (mk_state ((), []))
      = Ok ([], Some (ErrorString ''refused''), st')
    \<and> snd (world st') =
       [ReqPost demo_session ''/api/macro'' (ObjMacro \<lparr>macro_ModelName = ''Pool'', macro_Data = DataPool d\<rparr>),
        ReqPost demo_session ''/api/macro'' (ObjMacro \<lparr>macro_ModelName = ''VirtualService'', macro_Data = dv\<rparr>),
        ReqDelete demo_session ''/api/pool/pool-1'' None]"
proof -
  let ?env = "mk_env (logged refusing_api) demo_informers" and ?st = "mk_state ((), [] :: request list)"
  from demo_refused obtain st' where r: "K8sSvc_K8sObjCrUpd ?env 0 demo_svc ?st = Ok ([], Some (ErrorString ''refused''), st')"
    by blast
  have n: "world ?st = ((), [])" "unat (0 :: uint32) = 0" by (simp_all add: mk_state_def NewK8sEp_def)
  obtain m ops pop' v' w' d dv where b: "svc_vs_meta demo_svc (svc_key demo_svc) (svc_pool_ops ?env ?st demo_svc demo_ep [demo_pp]) = Ok m"
    "ops = svc_pool_ops ?env ?st demo_svc demo_ep [demo_pp] @ AviVsBuild (ord_poolmap ?env) (env_version ?env) m"
    "AviRestOperate (logged refusing_api) (AviClient ?st ! 0) ops ((), []) = (Some (ErrorString ''refused''), [pop', v'], demo_session, w')"
    "op_Err pop' = None" "deletion demo_session pop' = [ReqDelete demo_session ''/api/pool/pool-1'' None]"
    and q: "map (\<lambda>op. op_request (op_session op (AviClient ?st ! 0)) op) ops =
       [[ReqPost demo_session ''/api/macro'' (ObjMacro \<lparr>macro_ModelName = ''Pool'', macro_Data = DataPool d\<rparr>)],
        [ReqPost demo_session ''/api/macro'' (ObjMacro \<lparr>macro_ModelName = ''VirtualService'', macro_Data = dv\<rparr>)]]"
    using refused_batch [OF refl refl, where w = "((), [])"] by (elim exE conjE) (rule that)
  from service_rollback_requests [OF r demo_creatable demo_env_ok demo_informed(2) demo_changed, unfolded n snd_conv append_Nil]
  obtain m2 ops2 ops' sess w1 i where
    "svc_vs_meta demo_svc (svc_key demo_svc) (svc_pool_ops ?env ?st demo_svc demo_ep [demo_pp]) = Ok m2"
    "ops2 = svc_pool_ops ?env ?st demo_svc demo_ep [demo_pp] @ AviVsBuild (ord_poolmap ?env) (env_version ?env) m2"
    and o: "AviRestOperate (logged refusing_api) (AviClient ?st ! 0) ops2 ((), []) = (Some (ErrorString ''refused''), ops', sess, w1)"
    and i: "i < length ops2" "op_Err (ops' ! i) = Some (ErrorString ''refused'')"
    and l: "snd (world st') = concat (map (\<lambda>op. op_request (op_session op (AviClient ?st ! 0)) op) (take (Suc i) ops2))
      @ concat (map (deletion sess) (rev (take i ops')))"
    by (elim exE conjE) (rule that)
  with b(1,2) have "ops2 = ops" by simp
  with o b(3) have e: "ops' = [pop', v']" "sess = demo_session" "ops2 = ops" by simp_all
  have "length ops = 2" using arg_cong [OF q, of length] by simp
  with i b(4) e have "i = 1" by (cases i) auto
  with l e b(5) \<open>length ops = 2\<close> have "snd (world st') = concat (map (\<lambda>op. op_request (op_session op (AviClient ?st ! 0)) op) ops)
      @ [ReqDelete demo_session ''/api/pool/pool-1'' None]" by simp
  then have "snd (world st') =
       [ReqPost demo_session ''/api/macro'' (ObjMacro \<lparr>macro_ModelName = ''Pool'', macro_Data = DataPool d\<rparr>),
        ReqPost demo_session ''/api/macro'' (ObjMacro \<lparr>macro_ModelName = ''VirtualService'', macro_Data = dv\<rparr>),
        ReqDelete demo_session ''/api/pool/pool-1'' None]" unfolding q by simp
  with r show ?thesis by blast
qed

text \<open>
  C7: deleting a Service. When the virtual service can be looked up, its cache entry, the
  pools of its row made for it and their entries in the row are gone afterwards, and the
  entries of every other object are as they were. When the lookup fails, the caches are left
  alone and the error is returned, so that the deletion is tried again.
\<close>

theorem service_deleted:
  assumes "st_ok st" "env_ok env" "unat shard < length (AviClient st)" "api_name ns" "api_name name"
    "api_GetObjectByName (env_api env) (SetTenant ns (AviClient st ! unat shard)) ''virtualservice'' name (world st)
       = ((err, obj), w1)"
    "row = (case AviMultiCacheGetKey (svc_to_pool_cache st) (nsname ns name) of Some r \<Rightarrow> r | None \<Rightarrow> [])"
  shows "\<exists>st'. K8sSvc_K8sObjDelete env shard (key_of ''Service'' ns name) st = Ok ([], err, st') \<and> st_ok st'
    \<and> (if err \<noteq> None then avi_obj_cache st' = avi_obj_cache st \<and> svc_to_pool_cache st' = svc_to_pool_cache st
       else (\<forall>k. AviCacheGet (VsCache (avi_obj_cache st')) k =
               (if k = nsname ns name then None else AviCacheGet (VsCache (avi_obj_cache st)) k))
         \<and> (\<forall>k. AviCacheGet (PoolCache (avi_obj_cache st')) k =
               (if \<exists>v \<in> set row. has_prefix_elem ''service'' v \<and> k = nsname ns (entry_name v)
                then None else AviCacheGet (PoolCache (avi_obj_cache st)) k))
         \<and> mc_rel (svc_to_pool_cache st') =
             {(k, v). (k, v) \<in> mc_rel (svc_to_pool_cache st) \<and> \<not> (k = nsname ns name \<and> has_prefix_elem ''service'' v)})"
proof -
  have "api_name ''Service''" by (simp add: api_name_def)
  note key = SplitN_key_of [OF this assms(4,5)] meta.split_mk [OF assms(4,5)]
  show ?thesis
  proof (cases err)
    case None
    with svc_delete_spec [OF assms(1-3) key, where obj = obj and ?w1.0 = w1] assms(6) obtain st' where
      "K8sSvc_K8sObjDelete env shard (key_of ''Service'' ns name) st = Ok ([], None, st')" "forgotten st ns name st'" "st_ok st'"
      by auto
    with None show ?thesis
      by (intro exI [of _ st']) (simp add: forgotten_def Let_def svc_pool_entry_def assms(7))
  next
    case (Some e)
    with svc_delete_error [OF assms(3) key, where e = e and obj = obj and ?w1.0 = w1] assms(1,6) show ?thesis by (simp add: st_ok_def)
  qed
qed

theorem service_deleted_witness:
  "AviCacheGet (PoolCache (avi_obj_cache demo_behind)) (nsname ''default'' ''web-pool-8080-tcp'') \<noteq> None
    \<and> (\<exists>st'. K8sSvc_K8sObjDelete demo_env 0 (key_of ''Service'' ''default'' ''web'') demo_behind = Ok ([], None, st')
      \<and> AviCacheGet (PoolCache (avi_obj_cache st')) (nsname ''default'' ''web-pool-8080-tcp'') = None
      \<and> (nsname ''default'' ''web'', IStr ''service/web-pool-8080-tcp'') \<notin> mc_rel (svc_to_pool_cache st'))"
proof -
  have n: "api_name ''default''" "api_name ''web''" by (simp_all add: api_name_def)
  have i: "unat (0 :: uint32) < length (AviClient demo_behind)" using demo_ready_to_send(2) by (simp add: demo_behind_def)
  have c: "AviCacheGet (PoolCache (avi_obj_cache demo_behind)) (nsname ''default'' ''web-pool-8080-tcp'') \<noteq> None"
    by (simp add: demo_behind_def cache_simps)
  have g: "api_GetObjectByName (env_api demo_env) (SetTenant ''default'' (AviClient demo_behind ! unat (0 :: uint32)))
      ''virtualservice'' ''web'' (world demo_behind) = ((None, Some (JObj [])), ())"
    by (simp add: demo_informed demo_api_def)
  from service_deleted [OF demo_behind_ok demo_env_ok i n g refl] c demo_behind_row show ?thesis by auto
qed

text \<open>
  C25: the virtual service made for a Service listens on each of its ports; it uses the HTTP
  profile when every port is TCP and looks like HTTP, and the UDP fast path when none is TCP.
  With several ports, distinct by number and protocol, each port is mapped to the pool of its
  target port; with one port the virtual service refers to the pool the batch makes.
\<close>

theorem virtual_service_of_ports:
  assumes "svc_vs_meta svc key ops = Ok m"
  shows "vm_PortProto m = map port_proto (svc_Ports svc)
    \<and> (vm_ApplicationProfile m = ''System-HTTP'') = (\<forall>sp \<in> set (svc_Ports svc). tcp_port sp \<and> IsSvcHttp (sp_Name sp) (sp_Port sp))
    \<and> (vm_NetworkProfile m = ''System-UDP-Fast-Path'') = (\<forall>sp \<in> set (svc_Ports svc). \<not> tcp_port sp)
    \<and> (length (svc_Ports svc) > 1 \<and> inj_on port_proto (set (svc_Ports svc)) \<longrightarrow>
         (\<forall>sp \<in> set (svc_Ports svc). map_of (vm_PoolMap m) (port_proto sp) = Some (svc_pool_name svc sp)))
    \<and> (length (svc_Ports svc) = 1 \<longrightarrow> default_pool ops = Ok (vm_DefaultPool m))"
proof -
  note f = svc_vs_meta_fields [OF assms]
  have "map_of (vm_PoolMap m) (port_proto sp) = Some (svc_pool_name svc sp)"
    if "length (svc_Ports svc) > 1" "inj_on port_proto (set (svc_Ports svc))" "sp \<in> set (svc_Ports svc)" for sp
    using fold_map_put_unique [OF that(2,3), of "svc_pool_name svc" "[]"] that(1) f(7) by simp
  moreover have "length (svc_Ports svc) = 1 \<longrightarrow> default_pool ops = Ok (vm_DefaultPool m)" using f(11) by blast
  ultimately show ?thesis using f(6,8,9) by (auto simp: http_port_def)
qed

theorem virtual_service_of_ports_witness:
  "\<exists>m. svc_vs_meta demo_svc ''default:web'' [] = Ok m \<and> vm_PortProto m = [\<lparr>pp_Port = 80, pp_Protocol = ''tcp''\<rparr>]"
proof -
  obtain m where m: "svc_vs_meta demo_svc ''default:web'' [] = Ok m"
    by (simp add: svc_vs_meta_def Let_def demo_svc_def)
  have "map port_proto (svc_Ports demo_svc) = [\<lparr>pp_Port = 80, pp_Protocol = ''tcp''\<rparr>]"
    by (simp add: demo_svc_def port_proto_def proto_name_def ToLower_tcp)
  with virtual_service_of_ports [OF m] m show ?thesis by auto
qed

text \<open>
  C37: an update of a Service with one port whose pools are all up to date. The handler succeeds and
  sends a single request, the virtual service of the Service, without a reference to any pool: the
  name of the pool is taken from the operations of the batch, which has none. The virtual service
  is recorded under the new version, so that nothing is sent for it again.
\<close>

theorem single_port_update_drops_pool:
  assumes "accepting host api" "env_api env = logged api" "creatable env svc ep pps" "env_ok env"
    "length (svc_Ports svc) = 1" "unat shard < length (AviClient st)" "\<not> svc_unchanged st svc"
    "\<forall>pp \<in> set pps. \<not> stale st ep (pp_pool svc pp)"
  shows "\<exists>st' sess v c. K8sSvc_K8sObjCrUpd env shard svc st = Ok ([], None, st')
    \<and> snd (world st') = snd (world st) @
        [ReqPost sess ''/api/macro'' (ObjMacro \<lparr>macro_ModelName = ''VirtualService'', macro_Data = DataVirtualService v\<rparr>)]
    \<and> sess_tenant sess = svc_Namespace svc \<and> vs_Name v = Some (svc_Name svc) \<and> vs_PoolRef v = None
    \<and> vs_ServicePoolSelect v = []
    \<and> AviCacheGet (VsCache (avi_obj_cache st')) (nsname (svc_Namespace svc) (svc_Name svc)) = Some (IVs c)
    \<and> vc_CloudConfigCksum c = svc_ResourceVersion svc"
proof -
  have "accepting host (env_api env)" unfolding assms(2) by (rule accepting_logged [OF assms(1)])
  from svc_create [OF this assms(3,4,6,7)] obtain st' where
    st': "K8sSvc_K8sObjCrUpd env shard svc st = Ok ([], None, st')" "svc_recorded env st svc ep pps st'" by blast
  note o = svc_pool_ops_fresh [OF assms(4,8)]
  obtain m where m: "svc_vs_meta svc (svc_key svc) (svc_pool_ops env st svc ep pps) = Ok m"
    using svc_vs_meta_creatable by blast
  note f = svc_vs_meta_fields [OF m]
  have d: "vm_DefaultPool m = ''''" using f(11) [OF assms(5)] o by simp
  let ?s = "SetVersion (env_version env) (SetTenant (svc_Namespace svc) (AviClient st ! unat shard))"
  have "length (vm_PortProto m) = 1" using f(6) assms(5) by simp
  then have "snd (world st') = snd (world st) @ [ReqPost ?s ''/api/macro''
      (ObjMacro \<lparr>macro_ModelName = ''VirtualService'', macro_Data = DataVirtualService (vs_model (ord_poolmap env) m)\<rparr>)]"
    using svc_sent_log [OF st'(1) assms(3,4,2,7) m] f(2) o by (simp add: AviVsBuild_def op_session_def)
  moreover have "vs_PoolRef (vs_model (ord_poolmap env) m) = None" "vs_Name (vs_model (ord_poolmap env) m) = Some (svc_Name svc)"
    "vs_ServicePoolSelect (vs_model (ord_poolmap env) m) = []"
    using d f(1,6) assms(5) by (simp_all add: vs_model_def)
  moreover have "sess_tenant ?s = svc_Namespace svc" by (simp add: SetVersion_def SetTenant_def)
  ultimately show ?thesis using st' unfolding svc_recorded_def by blast
qed

text \<open>The demonstration state after its pool and its virtual service were made, for an older version of the Service.\<close>

definition demo_pooled :: "(unit \<times> request list) K8sState" where
  "demo_pooled = set_vs_cache (set_pool_cache (mk_state ((), [])) (AviCacheAdd NewAviCache (nsname ''default'' ''web-pool-8080-tcp'')
     (IPool \<lparr>pc_Name = ''web-pool-8080-tcp'', pc_Tenant = ''default'', pc_Uuid = ''pool-1'', pc_LbAlgorithm = ''LEAST'',
       pc_ServiceMetadata = empty_metadata, pc_CloudConfigCksum = ''7''\<rparr>)))
     (AviCacheAdd NewAviCache (nsname ''default'' ''web'') (IVs \<lparr>vc_Name = ''web'', vc_Tenant = ''default'', vc_Uuid = ''vs-1'',
       vc_ServiceMetadata = empty_metadata, vc_CloudConfigCksum = ''0''\<rparr>))"

theorem single_port_update_drops_pool_witness:
  "\<exists>st' sess v. K8sSvc_K8sObjCrUpd (mk_env (logged demo_api) demo_informers) 0 demo_svc demo_pooled = Ok ([], None, st')
    \<and> snd (world st') = [ReqPost sess ''/api/macro''
        (ObjMacro \<lparr>macro_ModelName = ''VirtualService'', macro_Data = DataVirtualService v\<rparr>)]
    \<and> vs_Name v = Some ''web'' \<and> vs_PoolRef v = None"
proof -
  have f: "\<not> stale demo_pooled demo_ep (pp_pool demo_svc demo_pp)"
    by (simp add: stale_def same_cksum_def demo_pooled_def demo_ep_def demo_svc_def demo_pp_def pool_name_of_def cache_simps)
  have n: "svc_Name demo_svc = ''web''" "length (svc_Ports demo_svc) = 1" "snd (world demo_pooled) = []"
    "unat (0 :: uint32) < length (AviClient demo_pooled)" "\<not> svc_unchanged demo_pooled demo_svc"
    by (simp_all add: demo_svc_def demo_pooled_def mk_state_def NewK8sEp_def svc_unchanged_def cache_simps)
  from f have f': "\<forall>pp \<in> set [demo_pp]. \<not> stale demo_pooled demo_ep (pp_pool demo_svc pp)" by simp
  from single_port_update_drops_pool [OF demo_accepting demo_informed(2) demo_creatable demo_env_ok n(2,4,5) f']
  show ?thesis unfolding n append_Nil by blast
qed

text \<open>
  C2: an event of Endpoints that have pools. The conditions: the Avi controller accepts what it is
  sent; the caches are well formed; the Service is in the store and its ready ports can be read
  from the Endpoints; the shard has a REST client; and every pool name in the row of the Service
  splits into a port and a protocol, which it does unless the name of the Service contains
  \<^verbatim>\<open>-pool-\<close>. Then the handler succeeds and brings every pool in the row to the version of the
  Endpoints; the other pools, the virtual services and the rows are left alone. (Without them it
  need not: the handler swallows the error of a batch, and panics on a name it cannot split.)
\<close>

theorem endpoints_updated:
  assumes "accepting host (env_api env)" "st_ok st" "env_ok env" "svc_of env ep = Some svc"
    "ready_ports svc (ep_Subsets ep) [] = Ok (Some pps)"
    "AviMultiCacheGetKey (svc_to_pool_cache st) (nsname (ep_Namespace ep) (ep_Name ep)) = Some row"
    "\<forall>v \<in> set row. \<exists>pp. split_pool_name (entry_name v) = Ok pp" "unat shard < length (AviClient st)"
  shows "\<exists>st'. K8sEp_K8sObjCrUpd env shard ep '''' key st = Ok ([], None, st')
    \<and> (\<forall>v \<in> set row. \<exists>p. AviCacheGet (PoolCache (avi_obj_cache st')) (nsname (ep_Namespace ep) (entry_name v)) = Some (IPool p)
         \<and> pc_CloudConfigCksum p = ep_ResourceVersion ep)
    \<and> (\<forall>k. k \<notin> (\<lambda>v. nsname (ep_Namespace ep) (entry_name v)) ` set row \<longrightarrow>
         AviCacheGet (PoolCache (avi_obj_cache st')) k = AviCacheGet (PoolCache (avi_obj_cache st)) k)
    \<and> VsCache (avi_obj_cache st') = VsCache (avi_obj_cache st) \<and> svc_to_pool_cache st' = svc_to_pool_cache st"
  using ep_event_updates [OF assms, of key] not_stale_fresh unfolding pool_fresh_def by metis

theorem endpoints_updated_witness:
  "\<exists>st' p. K8sEp_K8sObjCrUpd demo_env 0 demo_ep '''' ''default:web'' demo_behind = Ok ([], None, st')
    \<and> AviCacheGet (PoolCache (avi_obj_cache st')) (nsname ''default'' ''web-pool-8080-tcp'') = Some (IPool p)
    \<and> pc_CloudConfigCksum p = ''7''"
proof -
  have n: "ep_Namespace demo_ep = ''default''" "ep_Name demo_ep = ''web''" "ep_ResourceVersion demo_ep = ''7''"
    by (simp_all add: demo_ep_def)
  obtain svc pps where c: "svc_of demo_env demo_ep = Some svc" "ready_ports svc (ep_Subsets demo_ep) [] = Ok (Some pps)"
    using demo_creatable [of demo_api] unfolding creatable_def by blast
  have i: "unat (0 :: uint32) < length (AviClient demo_behind)" using demo_ready_to_send(2) by (simp add: demo_behind_def)
  from endpoints_updated [OF demo_ready_to_send(1) demo_behind_ok demo_env_ok c, unfolded n, OF demo_behind_row(1) _ i] demo_behind_row
  show ?thesis by simp blast
qed

text \<open>
  C15: an update of Endpoints can be lost. The handler of a new Service, which has read the
  Endpoints, is overtaken: the store gets newer Endpoints, and the worker of the other queue
  handles their event, finds no row of pools and succeeds without effect. The first handler
  then creates the pools at the version it had read. Both succeed, so that neither key is
  queued again; all pools are out of date, and a further event of the Service does nothing.
\<close>

theorem endpoints_update_lost:
  assumes "accepting host (env_api env)" "env_ok env" "creatable (at_stores env infs) svc ep pps"
    "svc_of (at_stores env infs) ep = Some svc" "svc_Ports svc \<noteq> []"
    "AviMultiCacheGetKey (svc_to_pool_cache st) (nsname (svc_Namespace svc) (svc_Name svc)) = None"
    "\<not> svc_unchanged st svc" "unat shard < length (AviClient st)"
    "ep_Namespace ep' = ep_Namespace ep" "ep_Name ep' = ep_Name ep" "ep_ResourceVersion ep' \<noteq> ep_ResourceVersion ep"
    "infs' = infs\<lparr>EpInformer := (EpInformer infs)(svc_Namespace svc @ ''/'' @ svc_Name svc \<mapsto> ep')\<rparr>"
  shows "\<exists>st'. (par_step (\<lambda>s s'. fst s' = fst s))\<^sup>*\<^sup>*
      ((\<lambda>_. Return ([], None))(0 := svc_prog env shard svc, 1 := ep_prog env shard' ep' '''' key), st, infs)
      ((\<lambda>_. Return ([], None)), st', infs')
    \<and> (\<forall>pp \<in> set pps. \<exists>p. AviCacheGet (PoolCache (avi_obj_cache st')) (nsname (svc_Namespace svc) (pp_pool svc pp)) = Some (IPool p)
         \<and> pc_CloudConfigCksum p \<noteq> ep_ResourceVersion ep')
    \<and> run (svc_prog env shard svc) (st', infs') = Ok (([], None), st', infs')"
proof -
  let ?E = "\<lambda>s s' :: 'a Shared. fst s' = fst s"
  let ?ps = "(\<lambda>_ :: nat. Return ([], None))(1 := ep_prog env shard' ep' '''' key)"
  have ep: "EpInformer infs (svc_Namespace svc @ ''/'' @ svc_Name svc) = Some ep" "ep_Namespace ep = svc_Namespace svc"
    "ep_Name ep = svc_Name svc" using assms(3) by (simp_all add: creatable_def)
  from svc_create [of host "at_stores env infs", simplified, OF assms(1,3) _ assms(8,7)] assms(2) obtain st' where
    st': "K8sSvc_K8sObjCrUpd (at_stores env infs) shard svc st = Ok ([], None, st')"
      "svc_recorded (at_stores env infs) st svc ep pps st'" by (auto simp: env_ok_def)
  have read: "prog_step (svc_prog env shard svc, st, infs) (svc_body env shard svc (Inr ep), st, infs)"
    using ep(1) by (simp add: svc_prog_def reads_def act_def lister_Get_def)
  have other: "run (ep_prog env shard' ep' '''' key) (st, infs') = Ok (([], None), st, infs')"
    using ep_event_no_pools [of "at_stores env infs'" ep' svc st shard' key] assms(4-6,9,10,12) ep
    by (simp add: run_ep_prog)
  have rest: "run (svc_body env shard svc (Inr ep)) (st, infs') = Ok (([], None), st', infs')"
    using run_svc_body [of infs svc "Inr ep" infs' env shard st] ep(1) st'(1) assms(12) by (simp add: lister_Get_def)
  have "par_step ?E (?ps(0 := svc_prog env shard svc), st, infs) (?ps(0 := svc_body env shard svc (Inr ep)), st, infs)"
    using par_step.own [of "?ps(0 := svc_prog env shard svc)" 0 "(st, infs)"] read by simp
  moreover have "par_step ?E (?ps(0 := svc_body env shard svc (Inr ep)), st, infs) (?ps(0 := svc_body env shard svc (Inr ep)), st, infs')"
    by (rule par_step.env) simp
  moreover have "(par_step ?E)\<^sup>*\<^sup>* (?ps(0 := svc_body env shard svc (Inr ep)), st, infs')
      ((\<lambda>_. Return ([], None))(0 := svc_body env shard svc (Inr ep)), st, infs')"
  proof -
    have "?ps(0 := svc_body env shard svc (Inr ep), 1 := Return ([], None))
        = (\<lambda>_. Return ([], None))(0 := svc_body env shard svc (Inr ep))" by (simp add: fun_eq_iff)
    with par_run [of "?ps(0 := svc_body env shard svc (Inr ep))" 1 "(st, infs')" "([], None)" "(st, infs')" ?E] other
    show ?thesis by simp
  qed
  moreover have "(par_step ?E)\<^sup>*\<^sup>* ((\<lambda>_. Return ([], None))(0 := svc_body env shard svc (Inr ep)), st, infs')
      ((\<lambda>_. Return ([], None)), st', infs')"
    using par_run [of "(\<lambda>_. Return ([], None))(0 := svc_body env shard svc (Inr ep))" 0 "(st, infs')"] rest
    by (simp add: fun_upd_idem)
  ultimately have "(par_step ?E)\<^sup>*\<^sup>* (?ps(0 := svc_prog env shard svc), st, infs) ((\<lambda>_. Return ([], None)), st', infs')"
    by (meson converse_rtranclp_into_rtranclp rtranclp_trans)
  moreover have "\<exists>p. AviCacheGet (PoolCache (avi_obj_cache st')) (nsname (svc_Namespace svc) (pp_pool svc pp)) = Some (IPool p)
      \<and> pc_CloudConfigCksum p \<noteq> ep_ResourceVersion ep'" if "pp \<in> set pps" for pp
    using not_stale_fresh [of st' ep "pp_pool svc pp"] st'(2) that ep(2) assms(11)
    by (force simp: svc_recorded_def pool_fresh_def)
  moreover have "run (svc_prog env shard svc) (st', infs') = Ok (([], None), st', infs')"
    using svc_unchanged_noop [of "at_stores env infs'" svc ep' st' shard] svc_recorded_unchanged [OF st'(2)] assms(12)
    by (simp add: run_svc_prog)
  ultimately show ?thesis by (intro exI [of _ st']) (simp add: fun_upd_twist)
qed

theorem endpoints_update_lost_witness:
  "\<exists>st' p. (par_step (\<lambda>s s'. fst s' = fst s))\<^sup>*\<^sup>*
      ((\<lambda>_. Return ([], None))(0 := svc_prog demo_env 0 demo_svc,
         1 := ep_prog demo_env 1 (demo_ep\<lparr>ep_ResourceVersion := ''8''\<rparr>) '''' ''default:web''), demo_st, demo_informers)
      ((\<lambda>_. Return ([], None)), st',
        demo_informers\<lparr>EpInformer := (EpInformer demo_informers)(''default/web'' \<mapsto> demo_ep\<lparr>ep_ResourceVersion := ''8''\<rparr>)\<rparr>)
    \<and> AviCacheGet (PoolCache (avi_obj_cache st')) (nsname ''default'' ''web-pool-8080-tcp'') = Some (IPool p)
    \<and> pc_CloudConfigCksum p \<noteq> ''8''"
proof -
  have n: "svc_Namespace demo_svc = ''default''" "svc_Name demo_svc = ''web''" "ep_Namespace demo_ep = ''default''"
    "ep_Name demo_ep = ''web''" "svc_Ports demo_svc \<noteq> []" "ep_ResourceVersion demo_ep = ''7''" "pp_pool demo_svc demo_pp = ''web-pool-8080-tcp''"
    by (simp_all add: demo_svc_def demo_ep_def demo_pp_def pool_name_of_def)
  have row: "AviMultiCacheGetKey (svc_to_pool_cache demo_st) (nsname ''default'' ''web'') = None"
    by (simp add: mk_state_def NewK8sEp_def NewAviMultiCache_def AviMultiCacheGetKey_def)
  have e: "at_stores demo_env demo_informers = demo_env" by (simp add: at_stores_def mk_env_def)
  from endpoints_update_lost [where infs = demo_informers and ep = demo_ep and ep' = "demo_ep\<lparr>ep_ResourceVersion := ''8''\<rparr>"
      and shard' = 1 and key = "''default:web''" and svc = demo_svc, OF demo_ready_to_send(1) demo_env_ok, unfolded e,
      OF demo_creatable _ _ _ demo_changed demo_ready_to_send(2)] row n
  show ?thesis by (simp add: demo_informed) blast
qed

text \<open>
  C3: the event of a new Service is handled to its end, followed through the code's functions in
  a controller as it was made. The handler of the event queues the key on the queue of its bucket.
  The waiting loop receives it at any time \<open>t1\<close> and looks at what is ready at any time \<open>t2\<close> not
  before the first delay of the key is over: the 5 ms of the back-off, or what the token bucket
  asks for. The next round of the worker of that queue then takes the key and brings the Service to
  the Avi controller, which accepts what it is sent: afterwards the virtual service is recorded
  under the version of the Service and every pool under the version of the Endpoints, and no queue
  has a key left to do.
\<close>

theorem service_event_handled:
  fixes env :: "'w Env" and st :: "'w K8sState"
  assumes "accepting host (env_api env)" "env_ok env" "creatable (at_stores env infs) svc ep pps"
    "ServiceInformer infs (svc_Namespace svc @ ''/'' @ svc_Name svc) = Some svc"
    "api_name (svc_Namespace svc)" "api_name (svc_Name svc)" "\<not> svc_unchanged st svc" "startable num st" "0 < num"
    "qe_now qe + max (qe_bucket qe) 5000000 \<le> t2" "i = unat (Bkt (key_of ''Service'' (svc_Namespace svc) (svc_Name svc)) num)"
  shows "\<exists>c1 c2. svc_AddFunc qe (KService svc) (NewAviController num st) = Ok (Some c1)
    \<and> processNextWorkItem infs (at_stores env infs) qe' (of_nat i)
        (set_queue i (add_ready t2 (receive t1 (workqueue c1 ! i))) c1) = Ok (Some (True, c2))
    \<and> (\<exists>v. AviCacheGet (VsCache (avi_obj_cache (k8s c2))) (nsname (svc_Namespace svc) (svc_Name svc)) = Some (IVs v)
         \<and> vc_CloudConfigCksum v = svc_ResourceVersion svc)
    \<and> (\<forall>pp \<in> set pps. \<exists>p. AviCacheGet (PoolCache (avi_obj_cache (k8s c2))) (nsname (svc_Namespace svc) (pp_pool svc pp)) = Some (IPool p)
         \<and> pc_CloudConfigCksum p = ep_ResourceVersion ep)
    \<and> (\<forall>j < unat num. open_keys c2 j = {})"
proof -
  let ?key = "key_of ''Service'' (svc_Namespace svc) (svc_Name svc)" and ?c0 = "NewAviController num st"
  have c0: "workqueue ?c0 = replicate (unat num) new_queue" "num_workers ?c0 = num" "k8s ?c0 = st"
    by (simp_all add: NewAviController_def)
  have i: "i < unat num" "unat (of_nat i :: uint32) = i" using Bkt_bound [OF assms(9), of ?key] by (simp_all add: assms(11))
  obtain q1 q2 where q1: "AddRateLimited (qe_stop qe) (qe_now qe) (qe_bucket qe) (IStr ?key) new_queue = Some q1"
    "add_ready t2 (receive t1 q1) = q2"
    and q2: "dq_queue q2 = \<lparr>queue = [IStr ?key], dirty = {IStr ?key}, processing = {}, shuttingDown = False\<rparr>"
      "waitingForAddCh q2 = []" "waitingForQueue q2 = []"
    using first_add [OF assms(10), of "qe_stop qe" "IStr ?key" t1] by blast
  let ?c1 = "set_queue i q1 ?c0" and ?c2 = "set_queue i q2 ?c0"
  have ev: "svc_AddFunc qe (KService svc) ?c0 = Ok (Some ?c1)"
    using q1(1) c0 i assms(9,11) by (simp add: svc_AddFunc_def on_add_def is_svc_def obj_key_of enqueue_bucket)
  have c2: "set_queue i (add_ready t2 (receive t1 (workqueue ?c1 ! i))) ?c1 = ?c2"
    using i(1) c0(1) q1(2) by (simp add: set_queue_def)
  from svc_create [of host "at_stores env infs" svc ep pps "of_nat i" st] assms i obtain st' where
    st': "K8sSvc_K8sObjCrUpd (at_stores env infs) (of_nat i) svc st = Ok ([], None, st')"
      "svc_recorded (at_stores env infs) st svc ep pps st'" by (auto simp: env_ok_def startable_def)
  have sync: "syncHandler infs (at_stores env infs) ?key (of_nat i) (k8s ?c2) = Ok (None, st')"
    using sync_service [OF assms(5,6,4)] st'(1) c0(3) by simp
  from round_done [of i ?c2 q2 "of_nat i" ?key infs "at_stores env infs" st' qe'] i c0 q2 sync obtain q' where
    r: "processNextWorkItem infs (at_stores env infs) qe' (of_nat i) ?c2 = Ok (Some (True, set_queue i q' (?c2\<lparr>k8s := st'\<rparr>)))"
    and q': "dq_queue q' = newQueue" "waitingForAddCh q' = []" "waitingForQueue q' = []" by auto
  let ?c3 = "set_queue i q' (?c2\<lparr>k8s := st'\<rparr>)"
  have "open_keys ?c3 j = {}" if "j < unat num" for j
    using that i c0(1) q' by (cases "j = i")
      (simp_all add: open_keys_def pending_def proc_def newQueue_def newDelayingQueue_def)
  moreover have "pool_fresh st' (svc_Namespace svc) (ep_ResourceVersion ep) (pp_pool svc pp)" if "pp \<in> set pps" for pp
    using not_stale_fresh [of st' ep "pp_pool svc pp"] st'(2) that assms(3) by (simp add: svc_recorded_def creatable_def)
  ultimately show ?thesis
    using ev r c2 st'(2)
    by (intro exI [of _ ?c1] exI [of _ ?c3]) (auto simp: svc_recorded_def pool_fresh_def)
qed

theorem service_event_handled_witness:
  "\<exists>c1 c2 v i. svc_AddFunc demo_qenv (KService demo_svc) (NewAviController 2 demo_st) = Ok (Some c1)
    \<and> processNextWorkItem demo_informers demo_env demo_qenv (of_nat i)
        (set_queue i (add_ready 6000000 (receive 1 (workqueue c1 ! i))) c1) = Ok (Some (True, c2))
    \<and> AviCacheGet (VsCache (avi_obj_cache (k8s c2))) (nsname ''default'' ''web'') = Some (IVs v)
    \<and> vc_CloudConfigCksum v = ''1''"
proof -
  have n: "svc_Namespace demo_svc = ''default''" "svc_Name demo_svc = ''web''" "svc_ResourceVersion demo_svc = ''1''"
    "api_name ''default''" "api_name ''web''" by (simp_all add: demo_svc_def api_name_def)
  have e: "at_stores demo_env demo_informers = demo_env" by (simp add: at_stores_def mk_env_def)
  have s: "startable 2 demo_st" "(0 :: uint32) < 2" by (simp_all add: startable_def demo_st_ok demo_clients word_greater_zero_iff)
  have i: "ServiceInformer demo_informers (svc_Namespace demo_svc @ ''/'' @ svc_Name demo_svc) = Some demo_svc"
    using n demo_informed(4) by simp
  have api: "api_name (svc_Namespace demo_svc)" "api_name (svc_Name demo_svc)" using n by simp_all
  have t: "qe_now demo_qenv + max (qe_bucket demo_qenv) 5000000 \<le> 6000000" by (simp add: demo_qenv_def)
  have c: "creatable (at_stores demo_env demo_informers) demo_svc demo_ep [demo_pp]" unfolding e by (rule demo_creatable)
  from service_event_handled [OF demo_ready_to_send(1) demo_env_ok c i api demo_changed s t refl, where qe' = demo_qenv and ?t1.0 = 1]
  show ?thesis unfolding e n by blast
qed

end
